(* ===== verification/GoPrelude.thy ===== *)
theory GoPrelude
  imports Main "HOL-Library.Word" "HOL-Library.Multiset" "HOL-Library.Sublist"
begin

text \<open>
  What the component theories share: fixed-width integers of Go written as \<^typ>\<open>int\<close> with the
  wrap-around explicit, association lists that keep insertion order, sequences of operations and
  the locale from which every invariant over such sequences is obtained, and lemma collections.
\<close>

named_theorems op_defs "unfolding rules of the operations of a component"
named_theorems inv_rules "preservation of invariants, one rule per operation"
named_theorems go_int "ranges and fixed points of the fixed-width integers"

section \<open>Fixed-width integers\<close>

text \<open>A Go conversion \<open>int32(x)\<close>, \<open>uint32(x)\<close>, ... keeps the low bits of \<open>x\<close>.\<close>

definition i32 :: "int \<Rightarrow> int" where
  "i32 x = signed_take_bit 31 x"

definition i64 :: "int \<Rightarrow> int" where
  "i64 x = signed_take_bit 63 x"

definition u32 :: "int \<Rightarrow> int" where
  "u32 x = x mod 4294967296"

definition u64 :: "int \<Rightarrow> int" where
  "u64 x = x mod 18446744073709551616"

lemma u32_range [simp, go_int]: "0 \<le> u32 x" "u32 x < 4294967296"
  by (simp_all add: u32_def)

lemma u64_range [simp, go_int]: "0 \<le> u64 x" "u64 x < 18446744073709551616"
  by (simp_all add: u64_def)

lemma u32_id [go_int]: "0 \<le> x \<Longrightarrow> x < 4294967296 \<Longrightarrow> u32 x = x"
  by (simp add: u32_def)

lemma u64_id [go_int]: "0 \<le> x \<Longrightarrow> x < 18446744073709551616 \<Longrightarrow> u64 x = x"
  by (simp add: u64_def)

lemma i32_id [go_int]: "- 2147483648 \<le> x \<Longrightarrow> x < 2147483648 \<Longrightarrow> i32 x = x"
  by (simp add: i32_def signed_take_bit_int_eq_self)

lemma i64_id [go_int]:
  "- 9223372036854775808 \<le> x \<Longrightarrow> x < 9223372036854775808 \<Longrightarrow> i64 x = x"
  by (simp add: i64_def signed_take_bit_int_eq_self)

lemma i32_range [go_int]: "- 2147483648 \<le> i32 x" "i32 x < 2147483648"
  using signed_take_bit_int_greater_eq_minus_exp [of 31 x] signed_take_bit_int_less_exp [of 31 x]
  by (simp_all add: i32_def)

lemma i64_range [go_int]: "- 9223372036854775808 \<le> i64 x" "i64 x < 9223372036854775808"
  using signed_take_bit_int_greater_eq_minus_exp [of 63 x] signed_take_bit_int_less_exp [of 63 x]
  by (simp_all add: i64_def)

section \<open>Sequences of operations and their invariants\<close>

text \<open>An operation takes the state and its arguments to the next state; concurrent callers that a
  lock serialises are one list of operations, in the order in which they take the lock.\<close>

locale op_invariant_on =
  fixes exec :: "'s \<Rightarrow> 'op \<Rightarrow> 's"
    and inv :: "'s \<Rightarrow> bool"
    and ok :: "'op \<Rightarrow> bool"
  assumes exec_inv_on: "inv s \<Longrightarrow> ok a \<Longrightarrow> inv (exec s a)"
begin

lemma run_inv_on: "inv s \<Longrightarrow> \<forall>a\<in>set as. ok a \<Longrightarrow> inv (foldl exec s as)"
  by (induction as arbitrary: s) (simp_all add: exec_inv_on)

end

locale op_invariant =
  fixes exec :: "'s \<Rightarrow> 'op \<Rightarrow> 's"
    and inv :: "'s \<Rightarrow> bool"
  assumes exec_inv: "inv s \<Longrightarrow> inv (exec s a)"
begin

lemma run_inv: "inv s \<Longrightarrow> inv (foldl exec s as)"
  by (induction as arbitrary: s) (simp_all add: exec_inv)

end

sublocale op_invariant \<subseteq> on_all: op_invariant_on exec inv "\<lambda>_. True"
  by unfold_locales (rule exec_inv)

text \<open>Operations that are not always possible: a run is a list of operations each of which is enabled
  in the state it meets.\<close>

fun valid_run :: "('s \<Rightarrow> 'op \<Rightarrow> 's) \<Rightarrow> ('s \<Rightarrow> 'op \<Rightarrow> bool) \<Rightarrow> 's \<Rightarrow> 'op list \<Rightarrow> bool" where
  "valid_run exec can s [] = True"
| "valid_run exec can s (a # as) = (can s a \<and> valid_run exec can (exec s a) as)"

lemma valid_run_append:
  "valid_run exec can s (as @ bs) = (valid_run exec can s as \<and> valid_run exec can (foldl exec s as) bs)"
  by (induction as arbitrary: s) auto

locale guarded_invariant =
  fixes exec :: "'s \<Rightarrow> 'op \<Rightarrow> 's"
    and can :: "'s \<Rightarrow> 'op \<Rightarrow> bool"
    and inv :: "'s \<Rightarrow> bool"
  assumes exec_inv_can: "inv s \<Longrightarrow> can s a \<Longrightarrow> inv (exec s a)"
begin

lemma valid_run_inv: "inv s \<Longrightarrow> valid_run exec can s as \<Longrightarrow> inv (foldl exec s as)"
  by (induction as arbitrary: s) (simp_all add: exec_inv_can)

end

text \<open>A measure that no operation decreases: the order in which a machine passes its states.\<close>

locale op_monotone =
  fixes exec :: "'s \<Rightarrow> 'op \<Rightarrow> 's"
    and rank :: "'s \<Rightarrow> 'r::preorder"
  assumes exec_mono: "rank s \<le> rank (exec s a)"
begin

lemma run_mono: "rank s \<le> rank (foldl exec s as)"
proof (induction as arbitrary: s)
  case (Cons a as)
  have "rank s \<le> rank (exec s a)" by (rule exec_mono)
  also have "\<dots> \<le> rank (foldl exec (exec s a) as)" by (rule Cons.IH)
  finally show ?case by simp
qed simp

lemma run_mono_later:
  assumes "m \<le> n"
  shows "rank (foldl exec s (take m as)) \<le> rank (foldl exec s (take n as))"
proof -
  have "take n as = take m as @ take (n - m) (drop m as)"
    using assms by (metis le_add_diff_inverse take_add)
  then show ?thesis using run_mono by (simp add: foldl_append)
qed

end

section \<open>Association lists in insertion order\<close>

fun alist_put :: "'k \<Rightarrow> 'v \<Rightarrow> ('k \<times> 'v) list \<Rightarrow> ('k \<times> 'v) list" where
  "alist_put k v [] = [(k, v)]"
| "alist_put k v ((k', v') # r) = (if k' = k then (k, v) # r else (k', v') # alist_put k v r)"

lemma map_of_alist_put [simp]: "map_of (alist_put k v xs) = (map_of xs)(k \<mapsto> v)"
  by (induction xs) (auto simp: fun_eq_iff)

lemma keys_alist_put [simp]:
  "map fst (alist_put k v xs) = (if k \<in> set (map fst xs) then map fst xs else map fst xs @ [k])"
proof (induction xs)
  case (Cons x xs)
  then show ?case by (cases x) (auto simp del: list.set_map)
qed simp

lemma distinct_alist_put [simp]:
  "distinct (map fst (alist_put k v xs)) = distinct (map fst xs)"
  by (subst keys_alist_put) auto

section \<open>Finite maps as tables\<close>

text \<open>The total weight of the entries of a table, kept up to date by the update of one entry.\<close>

definition weight_of :: "('v \<Rightarrow> int) \<Rightarrow> 'v option \<Rightarrow> int" where
  "weight_of g v = (case v of None \<Rightarrow> 0 | Some x \<Rightarrow> g x)"

definition map_sum :: "('v \<Rightarrow> int) \<Rightarrow> ('k \<Rightarrow> 'v option) \<Rightarrow> int" where
  "map_sum g f = (\<Sum>k\<in>dom f. weight_of g (f k))"

lemma weight_of_simps [simp]: "weight_of g None = 0" "weight_of g (Some x) = g x"
  by (simp_all add: weight_of_def)

lemma map_sum_empty [simp]: "map_sum g Map.empty = 0"
  by (simp add: map_sum_def)

lemma map_sum_upd:
  assumes "finite (dom f)"
  shows "map_sum g (f(k := v)) = map_sum g f - weight_of g (f k) + weight_of g v"
proof -
  have extend: "map_sum g h = (\<Sum>j\<in>insert k (dom f). weight_of g (h j))"
    if "dom h \<subseteq> insert k (dom f)" for h
    unfolding map_sum_def using that assms
    by (intro sum.mono_neutral_left) (auto simp: domIff)
  have "map_sum g h = weight_of g (h k) + (\<Sum>j\<in>dom f - {k}. weight_of g (h j))"
    if "dom h \<subseteq> insert k (dom f)" for h
    unfolding extend [OF that] using assms by (simp add: sum.insert_remove)
  note split = this
  have "(\<Sum>j\<in>dom f - {k}. weight_of g ((f(k := v)) j)) = (\<Sum>j\<in>dom f - {k}. weight_of g (f j))"
    by (intro sum.cong) auto
  moreover have "dom f \<subseteq> insert k (dom f)" "dom (f(k := v)) \<subseteq> insert k (dom f)"
    by (auto split: if_splits)
  ultimately show ?thesis
    using split [of f] split [of "f(k := v)"] by simp
qed

lemma map_sum_nonneg: "(\<And>x. 0 \<le> g x) \<Longrightarrow> 0 \<le> map_sum g f"
  unfolding map_sum_def by (intro sum_nonneg) (auto simp: weight_of_def split: option.splits)

lemma map_sum_card: "map_sum (\<lambda>_. 1) f = int (card (dom f))"
proof -
  have "map_sum (\<lambda>_. 1) f = (\<Sum>k\<in>dom f. 1)"
    unfolding map_sum_def by (intro sum.cong) (auto simp: weight_of_def)
  then show ?thesis by simp
qed

lemma sum_list_map_update:
  fixes f :: "'a \<Rightarrow> int"
  shows "i < length xs \<Longrightarrow> sum_list (map f (xs[i := y])) = sum_list (map f xs) - f (xs ! i) + f y"
  by (induction xs arbitrary: i) (auto split: nat.splits)

lemma list_all2_right:
  "list_all2 R xs ys \<Longrightarrow> y \<in> set ys \<Longrightarrow> \<exists>x\<in>set xs. R x y"
  by (induction rule: list_all2_induct) auto

lemma list_all2_left:
  "list_all2 R xs ys \<Longrightarrow> x \<in> set xs \<Longrightarrow> \<exists>y\<in>set ys. R x y"
  by (induction rule: list_all2_induct) auto

end
