(* ===== verification/Lifecycle.thy ===== *)
theory Lifecycle
  imports GoPrelude "HOL-Library.List_Lexorder" "HOL-Library.Char_ord"
begin

text \<open>
  The application lifecycle of \<open>lib/service/runtime\<close>: the state machine of \<open>state.go\<close>
  (\<open>StateStore.transition\<close> with its observers, the lifecycle gauge and the probe codes), the
  assembly of components in \<open>registry.go\<close> and \<open>app.go\<close>, the component tracker of \<open>tracker.go\<close>,
  the signal dispatcher of \<open>signal.go\<close> and \<open>App.Run\<close> of \<open>run.go\<close>.  What the client code returns
  (components, observers, hooks, signals, the clock) is an argument.
\<close>

section \<open>Errors\<close>

text \<open>The sentinel errors, the two wrappers, the errors of client code and \<open>errors.Join\<close>.\<close>

datatype rt_error =
    ErrAlreadyRunning | ErrEmptyName | ErrDuplicateComponent | ErrNilComponent
  | ErrEmptyComponentName | ErrDrainEscalated | ErrStartupInterrupted
  | ErrInvalidStateTransition | ErrRegistrySealed | ErrDuplicateModule | ErrNilModule
  | ContextCanceled | DeadlineExceeded
  | ClientError string
  | moduleError string rt_error
  | RuntimeError string rt_error
  | JoinedError "rt_error list"

text \<open>\<open>errors.Is\<close>: the error itself or one that it wraps.\<close>

fun errors_Is :: "rt_error \<Rightarrow> rt_error \<Rightarrow> bool" where
  "errors_Is (moduleError m e) t = (moduleError m e = t \<or> errors_Is e t)"
| "errors_Is (RuntimeError n e) t = (RuntimeError n e = t \<or> errors_Is e t)"
| "errors_Is (JoinedError es) t = (JoinedError es = t \<or> (\<exists>e\<in>set es. errors_Is e t))"
| "errors_Is e t = (e = t)"

text \<open>\<open>errors.Join\<close> drops nil errors and is nil when none is left.\<close>

definition errors_Join :: "rt_error option list \<Rightarrow> rt_error option" where
  "errors_Join es = (let xs = map the (filter (\<lambda>e. e \<noteq> None) es)
                     in if xs = [] then None else Some (JoinedError xs))"

lemma errors_Join_None [simp]: "errors_Join es = None \<longleftrightarrow> (\<forall>e\<in>set es. e = None)"
  by (auto simp: errors_Join_def Let_def filter_empty_conv)

section \<open>The state machine (state.go)\<close>

datatype State =
    StateStarting | StateReady | StateAllocated | StateDraining | StateStopping
  | StateStopped | StateFailed

fun legalTransitions :: "State \<Rightarrow> State list" where
  "legalTransitions StateStarting = [StateReady, StateFailed, StateStopping]"
| "legalTransitions StateReady = [StateAllocated, StateDraining, StateFailed, StateStopping]"
| "legalTransitions StateAllocated = [StateDraining, StateFailed, StateStopping]"
| "legalTransitions StateDraining = [StateStopping, StateFailed]"
| "legalTransitions StateStopping = [StateStopped, StateFailed]"
| "legalTransitions StateStopped = []"
| "legalTransitions StateFailed = []"

definition canTransition :: "State \<Rightarrow> State \<Rightarrow> bool" where
  "canTransition s t \<longleftrightarrow> t \<in> set (legalTransitions s)"

text \<open>The order of the states along a life: both terminal states come last.\<close>

fun state_rank :: "State \<Rightarrow> nat" where
  "state_rank StateStarting = 0"
| "state_rank StateReady = 1"
| "state_rank StateAllocated = 2"
| "state_rank StateDraining = 3"
| "state_rank StateStopping = 4"
| "state_rank StateStopped = 5"
| "state_rank StateFailed = 6"

lemma state_rank_inject: "state_rank s = state_rank t \<Longrightarrow> s = t"
  by (cases s; cases t) simp_all

instantiation State :: linorder
begin

definition less_eq_State :: "State \<Rightarrow> State \<Rightarrow> bool" where
  "s \<le> t \<longleftrightarrow> state_rank s \<le> state_rank t"

definition less_State :: "State \<Rightarrow> State \<Rightarrow> bool" where
  "s < t \<longleftrightarrow> state_rank s < state_rank t"

instance
  by standard (auto simp: less_eq_State_def less_State_def intro: state_rank_inject)

end

lemma canTransition_less: "canTransition s t \<Longrightarrow> s < t"
  by (cases s; cases t) (simp_all add: canTransition_def less_State_def)

lemma canTransition_irrefl [simp]: "\<not> canTransition s s"
  using canTransition_less by blast

record StateChange =
  Previous :: State
  Current :: State
  At :: int
  Reason :: string
  Deadline :: int

text \<open>An observer may refuse a change with an error; the zero \<open>time.Time\<close> is 0.\<close>

type_synonym StateObserver = "StateChange \<Rightarrow> rt_error option"

record StateStore =
  current :: State
  since :: int
  startedAt :: int
  reason :: string
  deadline :: int
  allocated :: bool
  observers :: "StateObserver list"
  gauge :: "State \<Rightarrow> nat"

definition NewStateStore :: "int \<Rightarrow> StateStore" where
  "NewStateStore now = \<lparr>current = StateStarting, since = now, startedAt = now, reason = '''',
     deadline = 0, allocated = False, observers = [],
     gauge = (\<lambda>st. if st = StateStarting then 1 else 0)\<rparr>"

definition AddObserver :: "StateStore \<Rightarrow> StateObserver \<Rightarrow> StateStore" where
  "AddObserver s ob = s\<lparr>observers := observers s @ [ob]\<rparr>"

definition applyLocked :: "int \<Rightarrow> StateStore \<Rightarrow> State \<Rightarrow> string \<Rightarrow> int \<Rightarrow> StateStore" where
  "applyLocked now s to rsn dl = s\<lparr>current := to, since := now, reason := rsn, deadline := dl,
     allocated := (if to = StateAllocated then True else allocated s)\<rparr>"

definition setLifecycleState :: "State \<Rightarrow> State \<Rightarrow> StateStore \<Rightarrow> StateStore" where
  "setLifecycleState old new s = s\<lparr>gauge := (gauge s)(old := 0, new := 1)\<rparr>"

definition committingShutdown :: "State \<Rightarrow> bool" where
  "committingShutdown to \<longleftrightarrow> to = StateDraining \<or> to = StateStopping \<or> to = StateStopped \<or> to = StateFailed"

text \<open>The observer loop: a refusal of Ready or Allocated returns at once (\<open>Inl\<close>), in a shutdown
  every observer is called and the first error is kept (\<open>Inr\<close>).\<close>

fun dispatch_observers ::
  "bool \<Rightarrow> StateObserver list \<Rightarrow> StateChange \<Rightarrow> rt_error option \<Rightarrow> rt_error + rt_error option" where
  "dispatch_observers shut [] ch firstErr = Inr firstErr"
| "dispatch_observers shut (ob # obs) ch firstErr =
     (case ob ch of
        None \<Rightarrow> dispatch_observers shut obs ch firstErr
      | Some err \<Rightarrow>
          if \<not> shut then Inl err
          else dispatch_observers shut obs ch (if firstErr = None then Some err else firstErr))"

definition transition ::
  "int \<Rightarrow> StateStore \<Rightarrow> State \<Rightarrow> string \<Rightarrow> int \<Rightarrow> StateStore \<times> rt_error option" where
  "transition now s to rsn dl =
     (let old = current s in
      if \<not> canTransition old to then (s, Some ErrInvalidStateTransition)
      else
        let change = \<lparr>Previous = old, Current = to, At = now, Reason = rsn, Deadline = dl\<rparr>;
            shut = committingShutdown to;
            s1 = (if shut then setLifecycleState old to (applyLocked now s to rsn dl) else s)
        in case dispatch_observers shut (observers s) change None of
             Inl err \<Rightarrow> (s1, Some err)
           | Inr firstErr \<Rightarrow>
               (if shut then s1
                else setLifecycleState old to (applyLocked now s1 to rsn dl), firstErr))"

definition markAllocated :: "StateStore \<Rightarrow> StateStore" where
  "markAllocated s = s\<lparr>allocated := True\<rparr>"

definition healthCode :: "State \<Rightarrow> int" where
  "healthCode s = (case s of StateStopping \<Rightarrow> 503 | StateStopped \<Rightarrow> 503 | StateFailed \<Rightarrow> 503
                   | _ \<Rightarrow> 200)"

definition readyCode :: "State \<Rightarrow> int" where
  "readyCode s = (case s of StateReady \<Rightarrow> 200 | StateAllocated \<Rightarrow> 200 | _ \<Rightarrow> 503)"

text \<open>\<open>/statez\<close>; times stay numbers here, the JSON rendering is not modelled.\<close>

record stateSnapshot =
  snapService :: string
  snapState :: State
  snapStartedAt :: int
  snapSince :: int
  snapReason :: string
  snapDrainDeadline :: int
  snapAllocated :: bool

definition snapshot :: "StateStore \<Rightarrow> string \<Rightarrow> stateSnapshot" where
  "snapshot s service = \<lparr>snapService = service, snapState = current s, snapStartedAt = startedAt s,
     snapSince = since s, snapReason = reason s, snapDrainDeadline = deadline s,
     snapAllocated = allocated s\<rparr>"

section \<open>Lemmas on the state machine\<close>

lemmas store_defs = applyLocked_def setLifecycleState_def Let_def

lemma dispatch_shutdown_Inr: "\<exists>r. dispatch_observers True obs ch f = Inr r"
  by (induction obs arbitrary: f) (auto split: option.splits)

lemma transition_illegal:
  "\<not> canTransition (current s) to \<Longrightarrow> transition now s to rsn dl = (s, Some ErrInvalidStateTransition)"
  by (simp add: transition_def)

lemma transition_current:
  "current (fst (transition now s to rsn dl)) = current s \<or>
   canTransition (current s) to \<and> current (fst (transition now s to rsn dl)) = to"
  by (auto simp: transition_def store_defs split: sum.splits)

lemma transition_shutdown_commits:
  assumes "canTransition (current s) to" and "committingShutdown to"
  shows "current (fst (transition now s to rsn dl)) = to"
  using assms by (auto simp: transition_def store_defs split: sum.splits)

lemma transition_none_commits:
  "snd (transition now s to rsn dl) = None \<Longrightarrow> current (fst (transition now s to rsn dl)) = to"
  by (auto simp: transition_def store_defs split: sum.splits if_splits)

lemma transition_gate_rejects:
  assumes "\<not> committingShutdown to" and "snd (transition now s to rsn dl) = Some e"
  shows "fst (transition now s to rsn dl) = s"
proof -
  have no_err: "dispatch_observers False obs ch None = Inr r \<Longrightarrow> r = None" for obs ch r
    by (induction obs) (auto split: option.splits)
  show ?thesis
    using assms by (auto simp: transition_def store_defs split: sum.splits if_splits dest: no_err)
qed

section \<open>Interleavings of transitions\<close>

text \<open>\<open>transitionMu\<close> serialises the transitions of all goroutines, so an execution is the list of
  the calls in the order in which they take it.\<close>

datatype store_op =
  OpTransition int State string int
| OpMarkAllocated
| OpAddObserver StateObserver

fun exec_store :: "StateStore \<Rightarrow> store_op \<Rightarrow> StateStore" where
  "exec_store s (OpTransition now to rsn dl) = fst (transition now s to rsn dl)"
| "exec_store s OpMarkAllocated = markAllocated s"
| "exec_store s (OpAddObserver ob) = AddObserver s ob"

definition gauge_ok :: "StateStore \<Rightarrow> bool" where
  "gauge_ok s \<longleftrightarrow> (\<forall>st. gauge s st = (if st = current s then 1 else 0))"

lemma NewStateStore_gauge [inv_rules]: "gauge_ok (NewStateStore now)"
  by (simp add: gauge_ok_def NewStateStore_def)

lemma transition_gauge [inv_rules]: "gauge_ok s \<Longrightarrow> gauge_ok (fst (transition now s to rsn dl))"
  by (auto simp: gauge_ok_def transition_def store_defs split: sum.splits)

lemma exec_store_gauge [inv_rules]: "gauge_ok s \<Longrightarrow> gauge_ok (exec_store s opn)"
  by (cases opn) (auto simp: inv_rules, auto simp: gauge_ok_def markAllocated_def AddObserver_def)

lemma exec_store_mono: "current s \<le> current (exec_store s opn)"
proof (cases opn)
  case (OpTransition now to rsn dl)
  then show ?thesis
    using transition_current [of now s to rsn dl] canTransition_less [of "current s" to] by auto
qed (simp_all add: markAllocated_def AddObserver_def)

interpretation store_order: op_monotone exec_store current
  by unfold_locales (rule exec_store_mono)

interpretation store_gauge: op_invariant exec_store gauge_ok
  by unfold_locales (rule exec_store_gauge)

text \<open>C1: Whatever the goroutines ask for, and whatever the observers answer, the lifecycle never
  goes back: of two moments of an execution the later one has the later state (in the order
  Starting, Ready, Allocated, Draining, Stopping, Stopped, Failed).  In particular no Ready that
  was decided before a Drain can be committed after it.\<close>

theorem lifecycle_never_back:
  "current (foldl exec_store s (take m ops)) \<le> current (foldl exec_store s (take (m + k) ops))"
  by (rule store_order.run_mono_later) simp

text \<open>From its construction on, through every execution, the metric
  \<open>goone_lifecycle_state\<close> is 1 for the current state and 0 for every other one, also when
  observers refuse a transition.\<close>

theorem lifecycle_gauge_exact:
  "gauge (foldl exec_store (NewStateStore now) ops) st
     = (if st = current (foldl exec_store (NewStateStore now) ops) then 1 else 0)"
  using store_gauge.run_inv [OF NewStateStore_gauge, of now ops] by (simp add: gauge_ok_def)

section \<open>The contract of a transition\<close>

definition first_refusal :: "StateObserver list \<Rightarrow> StateChange \<Rightarrow> rt_error option" where
  "first_refusal obs ch = (case List.map_filter (\<lambda>ob. ob ch) obs of [] \<Rightarrow> None | e # _ \<Rightarrow> Some e)"

lemma dispatch_gate:
  "dispatch_observers False obs ch None =
     (case first_refusal obs ch of None \<Rightarrow> Inr None | Some e \<Rightarrow> Inl e)"
  by (induction obs) (auto simp: first_refusal_def map_filter_simps split: option.splits)

lemma dispatch_shutdown:
  "dispatch_observers True obs ch f = Inr (if f = None then first_refusal obs ch else f)"
  by (induction obs arbitrary: f) (auto simp: first_refusal_def map_filter_simps split: option.splits)

text \<open>A transition that the table does not allow is refused with \<open>ErrInvalidStateTransition\<close>, the
  store untouched; an allowed one to Ready or Allocated is committed when no observer
  refuses and leaves the store as it was otherwise, an allowed one to a shutdown state is always
  committed; in both cases the error returned is that of the first observer that has one.\<close>

theorem transition_contract:
  "transition now s to rsn dl =
     (if \<not> canTransition (current s) to then (s, Some ErrInvalidStateTransition)
      else let r = first_refusal (observers s) \<lparr>Previous = current s, Current = to, At = now,
                     Reason = rsn, Deadline = dl\<rparr>
           in (if committingShutdown to \<or> r = None
               then s\<lparr>current := to, since := now, reason := rsn, deadline := dl,
                      allocated := (allocated s \<or> to = StateAllocated),
                      gauge := (gauge s)(current s := 0, to := 1)\<rparr>
               else s, r))"
  by (auto simp: transition_def dispatch_gate dispatch_shutdown store_defs split: option.splits)

end
