(* ===== verification/AppRun.thy ===== *)
theory AppRun
  imports Lifecycle
begin

text \<open>
  Assembly and execution of an application: \<open>component.go\<close>, \<open>tracker.go\<close>, \<open>registry.go\<close>, \<open>app.go\<close>,
  \<open>signal.go\<close> and \<open>run.go\<close> of \<open>lib/service/runtime\<close>.  A component is what its calls return in this
  run; every call of client code is recorded, in order, in the trace of \<open>Run\<close>.
\<close>

section \<open>Components (component.go)\<close>

text \<open>\<open>cQuiesce\<close> and \<open>cDrain\<close> are \<^const>\<open>None\<close> for a component that does not implement
  \<open>Quiescer\<close> or \<open>Drainer\<close>.\<close>

record Component =
  cName :: string
  cStart :: "rt_error option"
  cStop :: "rt_error option"
  cQuiesce :: "rt_error option option"
  cDrain :: "rt_error option option"

record ComponentFunc =
  ComponentName :: string
  OnStart :: "rt_error option option"
  OnStop :: "rt_error option option"

definition component_of_func :: "ComponentFunc \<Rightarrow> Component" where
  "component_of_func c = \<lparr>cName = ComponentName c,
     cStart = (case OnStart c of None \<Rightarrow> None | Some r \<Rightarrow> r),
     cStop = (case OnStop c of None \<Rightarrow> None | Some r \<Rightarrow> r),
     cQuiesce = None, cDrain = None\<rparr>"

section \<open>The component tracker (tracker.go)\<close>

datatype component_state =
  ComponentPending | ComponentStarting | ComponentStarted | ComponentStopping
  | ComponentStopped | ComponentFailed

record componentRecord =
  recState :: component_state
  recReady :: bool
  recStartedAt :: int
  recStoppedAt :: int
  recStartTook :: int
  recLastError :: "rt_error option"
  recMessage :: string

definition pending_record :: componentRecord where
  "pending_record = \<lparr>recState = ComponentPending, recReady = False, recStartedAt = 0,
     recStoppedAt = 0, recStartTook = 0, recLastError = None,
     recMessage = ''''\<rparr>"

record ComponentTracker =
  records :: "string \<Rightarrow> componentRecord option"
  ordering :: "string list"

definition NewComponentTracker :: "string list \<Rightarrow> ComponentTracker" where
  "NewComponentTracker ns = foldl (\<lambda>t n. \<lparr>records = (records t)(n \<mapsto> pending_record),
     ordering = ordering t @ [n]\<rparr>) \<lparr>records = Map.empty, ordering = []\<rparr> ns"

definition touch :: "ComponentTracker \<Rightarrow> string \<Rightarrow> ComponentTracker \<times> componentRecord" where
  "touch t n = (case records t n of
      Some r \<Rightarrow> (t, r)
    | None \<Rightarrow> (\<lparr>records = (records t)(n \<mapsto> pending_record), ordering = ordering t @ [n]\<rparr>,
               pending_record))"

text \<open>Every \<open>Mark\<close> of a call on the component touches the record and rewrites it.\<close>

definition update_record ::
  "ComponentTracker \<Rightarrow> string \<Rightarrow> (componentRecord \<Rightarrow> componentRecord) \<Rightarrow> ComponentTracker" where
  "update_record t n f = (let (t', r) = touch t n in t'\<lparr>records := (records t')(n \<mapsto> f r)\<rparr>)"

definition MarkPending :: "ComponentTracker \<Rightarrow> string \<Rightarrow> ComponentTracker" where
  "MarkPending t n = (if records t n \<noteq> None then t
     else \<lparr>records = (records t)(n \<mapsto> pending_record), ordering = ordering t @ [n]\<rparr>)"

definition MarkStarting :: "int \<Rightarrow> ComponentTracker \<Rightarrow> string \<Rightarrow> ComponentTracker" where
  "MarkStarting now t n = update_record t n (\<lambda>r. r\<lparr>recState := ComponentStarting,
     recReady := False, recStartedAt := now, recLastError := None, recMessage := ''starting''\<rparr>)"

definition MarkStarted :: "ComponentTracker \<Rightarrow> string \<Rightarrow> int \<Rightarrow> ComponentTracker" where
  "MarkStarted t n took = update_record t n (\<lambda>r. r\<lparr>recState := ComponentStarted,
     recReady := True, recStartTook := took, recMessage := ''started''\<rparr>)"

definition MarkStartFailed :: "ComponentTracker \<Rightarrow> string \<Rightarrow> rt_error \<Rightarrow> ComponentTracker" where
  "MarkStartFailed t n err = update_record t n (\<lambda>r. r\<lparr>recState := ComponentFailed,
     recReady := False, recLastError := Some err, recMessage := ''start failed''\<rparr>)"

definition MarkStopping :: "ComponentTracker \<Rightarrow> string \<Rightarrow> ComponentTracker" where
  "MarkStopping t n = update_record t n (\<lambda>r. r\<lparr>recState := ComponentStopping,
     recReady := False, recMessage := ''stopping''\<rparr>)"

definition MarkStopped :: "int \<Rightarrow> ComponentTracker \<Rightarrow> string \<Rightarrow> ComponentTracker" where
  "MarkStopped now t n = update_record t n (\<lambda>r. r\<lparr>recState := ComponentStopped,
     recReady := False, recStoppedAt := now, recMessage := ''stopped''\<rparr>)"

definition Report :: "ComponentTracker \<Rightarrow> (string \<times> componentRecord) list" where
  "Report t = List.map_filter (\<lambda>n. map_option (Pair n) (records t n)) (ordering t)"

section \<open>The registry of modules (registry.go)\<close>

record Registry =
  sealed :: bool
  modules :: "string set"
  regComponents :: "Component list"
  regNames :: "string set"

text \<open>A module is its name and its \<open>Register\<close> method, client code that works on the registry.\<close>

record Module =
  mName :: string
  mRegister :: "Registry \<Rightarrow> Registry \<times> rt_error option"

definition NewRegistry :: Registry where
  "NewRegistry = \<lparr>sealed = False, modules = {}, regComponents = [], regNames = {}\<rparr>"

definition RegisterModule :: "Registry \<Rightarrow> Module option \<Rightarrow> Registry \<times> rt_error option" where
  "RegisterModule r m0 = (case m0 of
      None \<Rightarrow> (r, Some ErrNilModule)
    | Some m \<Rightarrow>
        if mName m = '''' then (r, Some ErrEmptyComponentName)
        else if sealed r then (r, Some ErrRegistrySealed)
        else if mName m \<in> modules r then (r, Some ErrDuplicateModule)
        else case mRegister m (r\<lparr>modules := insert (mName m) (modules r)\<rparr>) of
               (r', None) \<Rightarrow> (r', None)
             | (r', Some err) \<Rightarrow> (r', Some (moduleError (mName m) err)))"

definition RegisterComponent :: "Registry \<Rightarrow> Component option \<Rightarrow> Registry \<times> rt_error option" where
  "RegisterComponent r c0 = (case c0 of
      None \<Rightarrow> (r, Some ErrNilComponent)
    | Some c \<Rightarrow>
        if cName c = '''' then (r, Some ErrEmptyComponentName)
        else if sealed r then (r, Some ErrRegistrySealed)
        else if cName c \<in> regNames r then (r, Some ErrDuplicateComponent)
        else (r\<lparr>regNames := insert (cName c) (regNames r),
                regComponents := regComponents r @ [c]\<rparr>, None))"

definition Seal :: "Registry \<Rightarrow> Registry \<times> Component list" where
  "Seal r = (r\<lparr>sealed := True\<rparr>, regComponents r)"

section \<open>The application (app.go)\<close>

record App =
  appName :: string
  components :: "Component list"
  names :: "string set"
  runStarted :: bool
  drainTimeout :: int
  stopTimeout :: int
  onLoadConfig :: "rt_error option option"
  onReload :: "rt_error option option"
  drainReason :: string
  stateStore :: StateStore
  appObservers :: "StateObserver list"
  tracker :: "ComponentTracker option"

type_synonym Option = "App \<Rightarrow> App"

definition DefaultDrainTimeout :: int where "DefaultDrainTimeout = 30 * 1000000000"
definition DefaultStopTimeout :: int where "DefaultStopTimeout = 10 * 1000000000"

definition WithDrainTimeout :: "int \<Rightarrow> Option" where
  "WithDrainTimeout d a = (if d > 0 then a\<lparr>drainTimeout := d\<rparr> else a)"

definition WithStopTimeout :: "int \<Rightarrow> Option" where
  "WithStopTimeout d a = (if d > 0 then a\<lparr>stopTimeout := d\<rparr> else a)"

definition WithReload :: "rt_error option option \<Rightarrow> Option" where
  "WithReload fn a = a\<lparr>onReload := fn\<rparr>"

definition WithLoadConfig :: "rt_error option option \<Rightarrow> Option" where
  "WithLoadConfig fn a = a\<lparr>onLoadConfig := fn\<rparr>"

definition WithStateObserver :: "StateObserver \<Rightarrow> Option" where
  "WithStateObserver ob a = a\<lparr>appObservers := appObservers a @ [ob]\<rparr>"

definition WithComponentTracker :: "ComponentTracker option \<Rightarrow> Option" where
  "WithComponentTracker t a = a\<lparr>tracker := t\<rparr>"

definition New :: "int \<Rightarrow> string \<Rightarrow> Option list \<Rightarrow> rt_error + App" where
  "New now nm opts = (if nm = '''' then Inl ErrEmptyName
     else Inr (foldl (\<lambda>a opt. opt a)
       \<lparr>appName = nm, components = [], names = {}, runStarted = False,
        drainTimeout = DefaultDrainTimeout, stopTimeout = DefaultStopTimeout,
        onLoadConfig = None, onReload = None, drainReason = '''',
        stateStore = NewStateStore now, appObservers = [],
        tracker = Some (NewComponentTracker [])\<rparr> opts))"

definition Register :: "App \<Rightarrow> Component option \<Rightarrow> App \<times> rt_error option" where
  "Register a c0 = (case c0 of
      None \<Rightarrow> (a, Some ErrNilComponent)
    | Some c \<Rightarrow>
        if cName c = '''' then (a, Some ErrEmptyComponentName)
        else if runStarted a then (a, Some ErrAlreadyRunning)
        else if cName c \<in> names a then (a, Some ErrDuplicateComponent)
        else (a\<lparr>names := insert (cName c) (names a), components := components a @ [c],
                tracker := map_option (\<lambda>t. MarkPending t (cName c)) (tracker a)\<rparr>, None))"

text \<open>\<open>MustRegister\<close> panics (\<open>Inl\<close>) at the first component that is refused.\<close>

fun MustRegister :: "App \<Rightarrow> Component option list \<Rightarrow> rt_error + App" where
  "MustRegister a [] = Inr a"
| "MustRegister a (c # cs) = (case Register a c of
      (a', None) \<Rightarrow> MustRegister a' cs
    | (a', Some err) \<Rightarrow> Inl err)"

fun register_modules :: "Registry \<Rightarrow> Module option list \<Rightarrow> rt_error + Registry" where
  "register_modules r [] = Inr r"
| "register_modules r (m # ms) = (case RegisterModule r m of
      (r', None) \<Rightarrow> register_modules r' ms
    | (r', Some err) \<Rightarrow> Inl err)"

definition NewFromModules ::
  "int \<Rightarrow> string \<Rightarrow> Module option list \<Rightarrow> Option list \<Rightarrow> rt_error + App" where
  "NewFromModules now nm ms opts = (case New now nm opts of
      Inl err \<Rightarrow> Inl err
    | Inr a \<Rightarrow> (case register_modules NewRegistry ms of
        Inl err \<Rightarrow> Inl err
      | Inr reg \<Rightarrow> MustRegister a (map Some (snd (Seal reg)))))"

definition Ready :: "App \<Rightarrow> bool" where
  "Ready a = (let st = current (stateStore a) in st = StateReady \<or> st = StateAllocated)"

definition Alive :: "App \<Rightarrow> bool" where
  "Alive a = (let st = current (stateStore a) in st \<noteq> StateStopped \<and> st \<noteq> StateFailed)"

definition Allocate :: "int \<Rightarrow> App \<Rightarrow> App \<times> rt_error option" where
  "Allocate now a = (case current (stateStore a) of
      StateReady \<Rightarrow>
        (let (s, r) = transition now (stateStore a) StateAllocated ''allocated'' 0
         in (a\<lparr>stateStore := s\<rparr>, r))
    | StateAllocated \<Rightarrow> (a, None)
    | _ \<Rightarrow> (a, Some ErrInvalidStateTransition))"

section \<open>Signals (signal.go)\<close>

datatype os_signal = SIGINT | SIGTERM | SIGUSR1

definition platformTermSignals :: "os_signal list" where
  "platformTermSignals = [SIGINT, SIGTERM]"

definition isTermSignal :: "os_signal \<Rightarrow> bool" where
  "isTermSignal s \<longleftrightarrow> s \<in> set platformTermSignals"

text \<open>The dispatcher goroutine: how many termination signals it counted, the buffered
  channel \<open>termOut\<close> and whether \<open>secondDone\<close> is closed.\<close>

record signalSource =
  sigCount :: nat
  termOut :: "os_signal option"
  secondDone :: bool

definition installSignals :: signalSource where
  "installSignals = \<lparr>sigCount = 0, termOut = None, secondDone = False\<rparr>"

definition dispatch_signal :: "signalSource \<Rightarrow> os_signal \<Rightarrow> signalSource" where
  "dispatch_signal src sg =
     (if \<not> isTermSignal sg then src
      else let n = sigCount src + 1 in
        if n = 1 then src\<lparr>sigCount := n,
                         termOut := (if termOut src = None then Some sg else termOut src)\<rparr>
        else src\<lparr>sigCount := n, secondDone := True\<rparr>)"

text \<open>What Run can meet while it is Ready, in the order of arrival.  \<open>EvAllocate\<close> is a call of
  \<open>Allocate\<close> by another goroutine, \<open>EvRuntimeError\<close> a non-nil error of a
  \<open>RuntimeErrorSource\<close>.\<close>

datatype ready_event =
  EvCtxDone | EvSignal os_signal | EvAllocate int | EvRuntimeError string rt_error

definition awaitRunReason :: "ready_event \<Rightarrow> string option" where
  "awaitRunReason ev = (case ev of
      EvCtxDone \<Rightarrow> Some ''ctx_done''
    | EvSignal sg \<Rightarrow> if isTermSignal sg then Some ''terminated'' else Some ''reload''
    | _ \<Rightarrow> None)"

section \<open>App.Run (run.go)\<close>

datatype call =
  CallLoadConfig | CallStart string | CallReload | CallQuiesce string | CallDrain string
  | CallStop string

text \<open>What the environment of one run decides: the clock, the text of an error, the cause of the
  signal context when all components have started, the events while Ready and the cause of the
  drain context when draining is over.\<close>

record run_env =
  clock :: "State \<Rightarrow> int"
  startClock :: "string \<Rightarrow> int"
  startTook :: "string \<Rightarrow> int"
  stopClock :: "string \<Rightarrow> int"
  errText :: "rt_error \<Rightarrow> string"
  signalCause :: "rt_error option"
  readyEvents :: "ready_event list"
  drainCause :: "rt_error option"

definition beginRun :: "App \<Rightarrow> App \<times> rt_error option" where
  "beginRun a = (if runStarted a then (a, Some ErrAlreadyRunning)
                 else (a\<lparr>runStarted := True\<rparr>, None))"

fun start_loop ::
  "run_env \<Rightarrow> Component list \<Rightarrow> ComponentTracker option \<Rightarrow> Component list \<Rightarrow> call list
   \<Rightarrow> Component list \<times> ComponentTracker option \<times> call list \<times> rt_error option" where
  "start_loop env [] t started tr = (started, t, tr, None)"
| "start_loop env (c # cs) t started tr =
     (let n = cName c;
          t1 = map_option (\<lambda>t. MarkStarting (startClock env n) t n) t;
          tr1 = tr @ [CallStart n]
      in case cStart c of
           Some err \<Rightarrow> (started, map_option (\<lambda>t. MarkStartFailed t n err) t1, tr1, Some err)
         | None \<Rightarrow> start_loop env cs (map_option (\<lambda>t. MarkStarted t n (startTook env n)) t1)
                     (started @ [c]) tr1)"

definition startComponents ::
  "run_env \<Rightarrow> App \<Rightarrow> call list \<Rightarrow> Component list \<times> App \<times> call list \<times> rt_error option" where
  "startComponents env a tr =
     (let (started, t, tr', r) = start_loop env (components a) (tracker a) [] tr
      in (started, a\<lparr>tracker := t\<rparr>, tr', r))"

text \<open>An error counts unless it is the cancellation of the phase itself.\<close>

definition counts_as_failure :: "rt_error option \<Rightarrow> bool" where
  "counts_as_failure r = (case r of None \<Rightarrow> False | Some e \<Rightarrow> \<not> errors_Is e ContextCanceled)"

fun stop_loop ::
  "run_env \<Rightarrow> Component list \<Rightarrow> ComponentTracker option \<Rightarrow> rt_error option list \<Rightarrow> call list
   \<Rightarrow> ComponentTracker option \<times> rt_error option list \<times> call list" where
  "stop_loop env [] t errs tr = (t, errs, tr)"
| "stop_loop env (c # cs) t errs tr =
     (let n = cName c;
          t1 = map_option (\<lambda>t. MarkStopping t n) t;
          errs1 = (if counts_as_failure (cStop c) then errs @ [cStop c] else errs)
      in stop_loop env cs (map_option (\<lambda>t. MarkStopped (stopClock env n) t n) t1) errs1
           (tr @ [CallStop n]))"

definition stopComponents ::
  "run_env \<Rightarrow> App \<Rightarrow> Component list \<Rightarrow> call list \<Rightarrow> App \<times> call list \<times> rt_error option" where
  "stopComponents env a started tr =
     (let (t, errs, tr') = stop_loop env (rev started) (tracker a) [] tr
      in (a\<lparr>tracker := t\<rparr>, tr', errors_Join errs))"

text \<open>The Quiesce loop and the Drain loop: \<open>view\<close> is \<open>quiescerOf\<close> or \<open>drainerOf\<close>.\<close>

fun phase_loop ::
  "(Component \<Rightarrow> rt_error option option) \<Rightarrow> (string \<Rightarrow> call) \<Rightarrow> Component list
   \<Rightarrow> rt_error option list \<Rightarrow> call list \<Rightarrow> rt_error option list \<times> call list" where
  "phase_loop view mk [] errs tr = (errs, tr)"
| "phase_loop view mk (c # cs) errs tr = (case view c of
      None \<Rightarrow> phase_loop view mk cs errs tr
    | Some r \<Rightarrow> phase_loop view mk cs (if counts_as_failure r then errs @ [r] else errs)
                  (tr @ [mk (cName c)]))"

definition drainComponents :: "run_env \<Rightarrow> App \<Rightarrow> call list \<Rightarrow> call list \<times> rt_error option" where
  "drainComponents env a tr =
     (let (errs1, tr1) = phase_loop cQuiesce CallQuiesce (rev (components a)) [] tr;
          (errs2, tr2) = phase_loop cDrain CallDrain (rev (components a)) errs1 tr1;
          errs3 = (if counts_as_failure (drainCause env) then errs2 @ [drainCause env] else errs2)
      in (tr2, errors_Join errs3))"

definition enterReady :: "run_env \<Rightarrow> App \<Rightarrow> App \<times> rt_error option" where
  "enterReady env a = (let (s, r) = transition (clock env StateReady) (stateStore a) StateReady
                            ''all components started'' 0
                       in (a\<lparr>stateStore := s\<rparr>, r))"

definition enterDraining :: "run_env \<Rightarrow> App \<Rightarrow> string \<Rightarrow> App" where
  "enterDraining env a rsn =
     a\<lparr>stateStore := fst (transition (clock env StateDraining) (stateStore a) StateDraining rsn
                          (clock env StateDraining + drainTimeout a)),
       drainReason := rsn\<rparr>"

definition enterStopping :: "run_env \<Rightarrow> App \<Rightarrow> App" where
  "enterStopping env a = a\<lparr>stateStore := fst (transition (clock env StateStopping) (stateStore a)
                             StateStopping ''stopping'' 0)\<rparr>"

definition markFailed :: "run_env \<Rightarrow> App \<Rightarrow> rt_error \<Rightarrow> App" where
  "markFailed env a err = a\<lparr>stateStore := fst (transition (clock env StateFailed) (stateStore a)
                              StateFailed (errText env err) 0)\<rparr>"

definition markStopped :: "run_env \<Rightarrow> App \<Rightarrow> App" where
  "markStopped env a = a\<lparr>stateStore := fst (transition (clock env StateStopped) (stateStore a)
                           StateStopped ''stopped'' 0)\<rparr>"

definition handleReload :: "App \<Rightarrow> call list \<Rightarrow> call list" where
  "handleReload a tr = (if onReload a = None then tr else tr @ [CallReload])"

text \<open>\<^const>\<open>None\<close>: no event ends the wait, so \<open>serveReady\<close> does not return.\<close>

fun serveReady ::
  "ready_event list \<Rightarrow> App \<Rightarrow> call list \<Rightarrow> (App \<times> call list \<times> rt_error option) option" where
  "serveReady [] a tr = None"
| "serveReady (ev # evs) a tr = (case ev of
      EvRuntimeError n err \<Rightarrow>
        Some (a\<lparr>drainReason := ''runtime_error''\<rparr>, tr, Some (RuntimeError n err))
    | EvAllocate now \<Rightarrow> serveReady evs (fst (Allocate now a)) tr
    | _ \<Rightarrow> (case awaitRunReason ev of
          None \<Rightarrow> serveReady evs a tr
        | Some rsn \<Rightarrow>
            if rsn = ''reload'' then serveReady evs a (handleReload a tr)
            else Some (a\<lparr>drainReason := rsn\<rparr>, tr, None)))"

definition attach_observers :: "App \<Rightarrow> App" where
  "attach_observers a = a\<lparr>stateStore := foldl AddObserver (stateStore a) (appObservers a)\<rparr>"

text \<open>The common exit of a run that does not get Ready: stop what was started, fail.\<close>

definition abort_startup ::
  "run_env \<Rightarrow> App \<Rightarrow> Component list \<Rightarrow> call list \<Rightarrow> rt_error \<Rightarrow> App \<times> call list \<times> rt_error option" where
  "abort_startup env a started tr err =
     (let (a1, tr1, stopErr) = stopComponents env a started tr
      in (markFailed env a1 err, tr1, errors_Join [Some err, stopErr]))"

definition shutdown ::
  "run_env \<Rightarrow> App \<Rightarrow> Component list \<Rightarrow> call list \<Rightarrow> rt_error option
   \<Rightarrow> App \<times> call list \<times> rt_error option" where
  "shutdown env a started tr runtimeErr =
     (let a1 = enterDraining env a (drainReason a);
          (tr1, drainErr0) = drainComponents env a1 tr;
          drainErr = (if runtimeErr \<noteq> None then errors_Join [drainErr0, runtimeErr] else drainErr0);
          a2 = enterStopping env a1;
          (a3, tr2, stopErr) = stopComponents env a2 started tr1
      in case errors_Join [runtimeErr, drainErr, stopErr] of
           Some terminalErr \<Rightarrow> (markFailed env a3 terminalErr, tr2, Some terminalErr)
         | None \<Rightarrow> (markStopped env a3, tr2, None))"

definition run_started ::
  "run_env \<Rightarrow> App \<Rightarrow> call list \<Rightarrow> (App \<times> call list \<times> rt_error option) option" where
  "run_started env a tr =
     (let (started, a1, tr1, startErr) = startComponents env a tr in
      case startErr of
        Some err \<Rightarrow> Some (abort_startup env a1 started tr1 err)
      | None \<Rightarrow> (case signalCause env of
          Some cause \<Rightarrow>
            Some (abort_startup env a1 started tr1
                    (if errors_Is cause ContextCanceled then ErrStartupInterrupted else cause))
        | None \<Rightarrow> (case enterReady env a1 of
            (a2, Some err) \<Rightarrow> Some (abort_startup env a2 started tr1 err)
          | (a2, None) \<Rightarrow> (case serveReady (readyEvents env) a2 tr1 of
              None \<Rightarrow> None
            | Some (a3, tr2, runtimeErr) \<Rightarrow> Some (shutdown env a3 started tr2 runtimeErr)))))"

definition Run :: "run_env \<Rightarrow> App \<Rightarrow> (App \<times> call list \<times> rt_error option) option" where
  "Run env a0 = (case beginRun a0 of
      (a, Some err) \<Rightarrow> Some (a, [], Some err)
    | (a, None) \<Rightarrow>
        (let a1 = attach_observers a in
         case onLoadConfig a1 of
           None \<Rightarrow> run_started env a1 []
         | Some (Some err) \<Rightarrow> Some (markFailed env a1 err, [CallLoadConfig], Some err)
         | Some None \<Rightarrow> run_started env a1 [CallLoadConfig]))"

section \<open>The loops over components\<close>

text \<open>The components that start, and those on which \<open>Start\<close> is called.\<close>

definition started_prefix :: "Component list \<Rightarrow> Component list" where
  "started_prefix cs = takeWhile (\<lambda>c. cStart c = None) cs"

definition attempted_prefix :: "Component list \<Rightarrow> Component list" where
  "attempted_prefix cs = take (Suc (length (started_prefix cs))) cs"

definition start_error :: "Component list \<Rightarrow> rt_error option" where
  "start_error cs = (case dropWhile (\<lambda>c. cStart c = None) cs of [] \<Rightarrow> None | c # _ \<Rightarrow> cStart c)"

lemma start_error_None_iff: "start_error cs = None \<longleftrightarrow> (\<forall>c\<in>set cs. cStart c = None)"
  by (induction cs) (auto simp: start_error_def)

lemma started_prefix_all: "start_error cs = None \<Longrightarrow> started_prefix cs = cs"
  by (simp add: start_error_None_iff started_prefix_def takeWhile_eq_all_conv)

lemma start_loop_result:
  "\<exists>t'. start_loop env cs t st tr =
     (st @ started_prefix cs, t', tr @ map (CallStart \<circ> cName) (attempted_prefix cs), start_error cs)"
proof (induction cs arbitrary: t st tr)
  case (Cons c cs)
  show ?case
  proof (cases "cStart c")
    case None
    then show ?thesis
      using Cons.IH [of "map_option (\<lambda>t. MarkStarted t (cName c) (startTook env (cName c)))
          (map_option (\<lambda>t. MarkStarting (startClock env (cName c)) t (cName c)) t)"
          "st @ [c]" "tr @ [CallStart (cName c)]"]
      by (auto simp: Let_def started_prefix_def attempted_prefix_def start_error_def)
  qed (simp add: Let_def started_prefix_def attempted_prefix_def start_error_def)
qed (simp add: started_prefix_def attempted_prefix_def start_error_def)

lemma stop_loop_result:
  "\<exists>t'. stop_loop env cs t errs tr =
     (t', errs @ filter counts_as_failure (map cStop cs), tr @ map (CallStop \<circ> cName) cs)"
proof (induction cs arbitrary: t errs tr)
  case (Cons c cs)
  show ?case
    using Cons.IH [of "map_option (\<lambda>t. MarkStopped (stopClock env (cName c)) t (cName c))
        (map_option (\<lambda>t. MarkStopping t (cName c)) t)"
        "if counts_as_failure (cStop c) then errs @ [cStop c] else errs" "tr @ [CallStop (cName c)]"]
    by (auto simp: Let_def)
qed simp

definition phase_errors :: "(Component \<Rightarrow> rt_error option option) \<Rightarrow> Component list \<Rightarrow> rt_error option list" where
  "phase_errors view cs = filter counts_as_failure (List.map_filter view cs)"

definition phase_calls ::
  "(Component \<Rightarrow> rt_error option option) \<Rightarrow> (string \<Rightarrow> call) \<Rightarrow> Component list \<Rightarrow> call list" where
  "phase_calls view mk cs = map (mk \<circ> cName) (filter (\<lambda>c. view c \<noteq> None) cs)"

lemma phase_loop_result:
  "phase_loop view mk cs errs tr = (errs @ phase_errors view cs, tr @ phase_calls view mk cs)"
  by (induction cs arbitrary: errs tr)
     (auto simp: phase_errors_def phase_calls_def map_filter_simps split: option.splits)

lemma counts_as_failure_None [simp]: "\<not> counts_as_failure None"
  by (simp add: counts_as_failure_def)

lemma counts_as_failureD: "counts_as_failure e \<Longrightarrow> e \<noteq> None"
  by (cases e) simp_all

lemma Join_failures:
  "errors_Join (filter counts_as_failure es) = None \<longleftrightarrow> (\<forall>e\<in>set es. \<not> counts_as_failure e)"
  using counts_as_failureD by (simp del: not_None_eq) blast

lemma stopComponents_result:
  "\<exists>t. stopComponents env a started tr =
     (a\<lparr>tracker := t\<rparr>, tr @ map (CallStop \<circ> cName) (rev started),
      errors_Join (filter counts_as_failure (map cStop (rev started))))"
  using stop_loop_result [of env "rev started" "tracker a" "[]" tr]
  by (auto simp: stopComponents_def)

lemma startComponents_result:
  "\<exists>t. startComponents env a tr =
     (started_prefix (components a), a\<lparr>tracker := t\<rparr>,
      tr @ map (CallStart \<circ> cName) (attempted_prefix (components a)), start_error (components a))"
  using start_loop_result [of env "components a" "tracker a" "[]" tr]
  by (auto simp: startComponents_def)

definition drain_errors :: "run_env \<Rightarrow> Component list \<Rightarrow> rt_error option list" where
  "drain_errors env cs = phase_errors cQuiesce (rev cs) @ phase_errors cDrain (rev cs)
     @ filter counts_as_failure [drainCause env]"

lemma drainComponents_result:
  "drainComponents env a tr =
     (tr @ phase_calls cQuiesce CallQuiesce (rev (components a))
         @ phase_calls cDrain CallDrain (rev (components a)),
      errors_Join (drain_errors env (components a)))"
  by (simp add: drainComponents_def phase_loop_result drain_errors_def)

section \<open>The phases of a run\<close>

text \<open>The event that ends the Ready phase, and with what.\<close>

fun ready_outcome :: "ready_event list \<Rightarrow> rt_error option option" where
  "ready_outcome [] = None"
| "ready_outcome (EvCtxDone # evs) = Some None"
| "ready_outcome (EvSignal sg # evs) = (if isTermSignal sg then Some None else ready_outcome evs)"
| "ready_outcome (EvAllocate now # evs) = ready_outcome evs"
| "ready_outcome (EvRuntimeError n err # evs) = Some (Some (RuntimeError n err))"

definition serving :: "App \<Rightarrow> bool" where
  "serving a \<longleftrightarrow> current (stateStore a) \<in> {StateReady, StateAllocated}"

lemma Allocate_frame:
  "components (fst (Allocate now a)) = components a"
  "runStarted (fst (Allocate now a)) = runStarted a"
  "onReload (fst (Allocate now a)) = onReload a"
  by (simp_all add: Allocate_def split: State.split prod.split)

lemma Allocate_serving: "serving a \<Longrightarrow> serving (fst (Allocate now a))"
  using transition_current [of now "stateStore a" StateAllocated "''allocated''" 0]
  by (auto simp: serving_def Allocate_def split: prod.split)

definition same_run :: "App \<Rightarrow> App \<Rightarrow> bool" where
  "same_run a b \<longleftrightarrow> components b = components a \<and> runStarted b = runStarted a"

lemma serveReady_None: "serveReady evs a tr = None \<longleftrightarrow> ready_outcome evs = None"
  by (induction evs arbitrary: a tr)
     (auto simp: awaitRunReason_def split: ready_event.splits os_signal.splits)

lemma serveReady_Some: "serveReady evs a tr = Some x \<Longrightarrow> \<exists>y. ready_outcome evs = Some y"
  using serveReady_None [of evs a tr] by auto

lemma serveReady_result:
  assumes "serveReady evs a tr = Some (b, tr', r)" and "serving a"
  shows "serving b \<and> same_run a b \<and> ready_outcome evs = Some r \<and> (\<exists>k. tr' = tr @ replicate k CallReload)"
  using assms
proof (induction evs arbitrary: a tr)
  case (Cons ev evs)
  show ?case
  proof (cases ev)
    case (EvAllocate now)
    with Cons show ?thesis
      using Cons.IH [of "fst (Allocate now a)" tr]
      by (simp add: Allocate_serving same_run_def Allocate_frame)
  next
    case (EvSignal sg)
    show ?thesis
    proof (cases "isTermSignal sg")
      case False
      have "serveReady evs a (handleReload a tr) = Some (b, tr', r)"
        using Cons.prems EvSignal False by (simp add: awaitRunReason_def)
      from Cons.IH [OF this Cons.prems(2)] obtain k
        where k: "serving b" "same_run a b" "ready_outcome evs = Some r"
          "tr' = handleReload a tr @ replicate k CallReload" by blast
      have "\<exists>k'. handleReload a tr @ replicate k CallReload = tr @ replicate k' CallReload"
        using exI [of _ k] exI [of _ "Suc k"] by (simp add: handleReload_def)
      with k show ?thesis using EvSignal False by auto
    qed (use Cons.prems EvSignal in
        \<open>auto simp: awaitRunReason_def serving_def same_run_def intro: exI [of _ 0]\<close>)
  qed (use Cons.prems in \<open>auto simp: awaitRunReason_def serving_def same_run_def intro: exI [of _ 0]\<close>)
qed simp

lemma abort_startup_result:
  assumes "current (stateStore a) = StateStarting"
  shows "\<exists>b r. abort_startup env a started tr err
           = (b, tr @ map (CallStop \<circ> cName) (rev started), Some r)
         \<and> current (stateStore b) = StateFailed \<and> same_run a b"
proof -
  obtain t where st: "stopComponents env a started tr =
     (a\<lparr>tracker := t\<rparr>, tr @ map (CallStop \<circ> cName) (rev started),
      errors_Join (filter counts_as_failure (map cStop (rev started))))"
    using stopComponents_result by blast
  obtain r where "errors_Join [Some err, errors_Join (filter counts_as_failure (map cStop (rev started)))]
      = Some r"
    by (cases "errors_Join [Some err, errors_Join (filter counts_as_failure (map cStop (rev started)))]")
       auto
  then show ?thesis
    using assms
    by (simp add: abort_startup_def st markFailed_def same_run_def transition_shutdown_commits
        canTransition_def committingShutdown_def del: errors_Join_None)
qed

lemma enterDraining_state:
  "serving a \<Longrightarrow> current (stateStore (enterDraining env a rsn)) = StateDraining"
  by (auto simp: serving_def enterDraining_def canTransition_def committingShutdown_def
      intro!: transition_shutdown_commits)

lemma enterStopping_state:
  "current (stateStore a) = StateDraining \<Longrightarrow> current (stateStore (enterStopping env a)) = StateStopping"
  by (auto simp: enterStopping_def canTransition_def committingShutdown_def
      intro!: transition_shutdown_commits)

lemma mark_terminal_state:
  assumes "current (stateStore a) = StateStopping"
  shows "current (stateStore (markStopped env a)) = StateStopped"
    and "current (stateStore (markFailed env a err)) = StateFailed"
  using assms by (auto simp: markStopped_def markFailed_def canTransition_def committingShutdown_def
      intro!: transition_shutdown_commits)

definition shutdown_calls :: "Component list \<Rightarrow> Component list \<Rightarrow> call list" where
  "shutdown_calls cs started = phase_calls cQuiesce CallQuiesce (rev cs)
     @ phase_calls cDrain CallDrain (rev cs) @ map (CallStop \<circ> cName) (rev started)"

definition shutdown_clean :: "run_env \<Rightarrow> Component list \<Rightarrow> Component list \<Rightarrow> bool" where
  "shutdown_clean env cs started \<longleftrightarrow> (\<forall>e\<in>set (drain_errors env cs). e = None)
     \<and> (\<forall>c\<in>set started. \<not> counts_as_failure (cStop c))"

lemma shutdown_result:
  assumes "serving a"
  shows "\<exists>b r. shutdown env a started tr runtimeErr = (b, tr @ shutdown_calls (components a) started, r)
     \<and> (r = None \<longleftrightarrow> runtimeErr = None \<and> shutdown_clean env (components a) started)
     \<and> current (stateStore b) = (if r = None then StateStopped else StateFailed) \<and> same_run a b"
proof -
  define a2 where "a2 = enterStopping env (enterDraining env a (drainReason a))"
  have a2: "current (stateStore a2) = StateStopping" "same_run a a2"
    by (simp_all add: a2_def enterStopping_state enterDraining_state assms same_run_def)
       (simp_all add: enterStopping_def enterDraining_def)
  have comps: "components (enterDraining env a (drainReason a)) = components a"
    by (simp add: enterDraining_def)
  define tr1 where "tr1 = tr @ phase_calls cQuiesce CallQuiesce (rev (components a))
         @ phase_calls cDrain CallDrain (rev (components a))"
  obtain t where st: "stopComponents env a2 started tr1 =
     (a2\<lparr>tracker := t\<rparr>, tr1 @ map (CallStop \<circ> cName) (rev started),
      errors_Join (filter counts_as_failure (map cStop (rev started))))"
    using stopComponents_result by blast
  define d where "d = errors_Join (drain_errors env (components a))"
  define e where "e = errors_Join [runtimeErr,
     if runtimeErr \<noteq> None then errors_Join [d, runtimeErr] else d,
     errors_Join (filter counts_as_failure (map cStop (rev started)))]"
  have "shutdown env a started tr runtimeErr =
     (case e of Some te \<Rightarrow> (markFailed env (a2\<lparr>tracker := t\<rparr>) te, tr1 @ map (CallStop \<circ> cName) (rev started), Some te)
      | None \<Rightarrow> (markStopped env (a2\<lparr>tracker := t\<rparr>), tr1 @ map (CallStop \<circ> cName) (rev started), None))"
    by (simp add: shutdown_def drainComponents_result comps st d_def e_def Let_def
        flip: a2_def tr1_def del: errors_Join_None)
  moreover have "e = None \<longleftrightarrow> runtimeErr = None \<and> shutdown_clean env (components a) started"
    by (auto simp: e_def d_def shutdown_clean_def Join_failures simp del: errors_Join_None)
       (auto simp: e_def d_def shutdown_clean_def Join_failures)
  moreover have "same_run a (markFailed env (a2\<lparr>tracker := t\<rparr>) te)"
    "same_run a (markStopped env (a2\<lparr>tracker := t\<rparr>))" for te
    using a2(2) by (simp_all add: same_run_def markFailed_def markStopped_def)
  ultimately show ?thesis
    using a2(1) mark_terminal_state [of "a2\<lparr>tracker := t\<rparr>"]
    by (cases e) (simp_all add: shutdown_calls_def tr1_def)
qed

section \<open>Run\<close>

definition ready_change :: "run_env \<Rightarrow> StateChange" where
  "ready_change env = \<lparr>Previous = StateStarting, Current = StateReady, At = clock env StateReady,
     Reason = ''all components started'', Deadline = 0\<rparr>"

text \<open>No observer refuses Ready, all components started and no signal came before.\<close>

definition reaches_ready :: "run_env \<Rightarrow> App \<Rightarrow> bool" where
  "reaches_ready env a \<longleftrightarrow> start_error (components a) = None \<and> signalCause env = None
     \<and> first_refusal (observers (stateStore a)) (ready_change env) = None"

definition load_failed :: "App \<Rightarrow> bool" where
  "load_failed a \<longleftrightarrow> (\<exists>err. onLoadConfig a = Some (Some err))"

definition load_calls :: "App \<Rightarrow> call list" where
  "load_calls a = (if onLoadConfig a = None then [] else [CallLoadConfig])"

lemma load_failed_code [code]:
  "load_failed a = (case onLoadConfig a of Some (Some err) \<Rightarrow> True | _ \<Rightarrow> False)"
  by (auto simp: load_failed_def split: option.splits)

lemma enterReady_result:
  assumes "current (stateStore a) = StateStarting"
  shows "enterReady env a = (let r = first_refusal (observers (stateStore a)) (ready_change env) in
     (if r = None then a\<lparr>stateStore := setLifecycleState StateStarting StateReady
        (applyLocked (clock env StateReady) (stateStore a) StateReady ''all components started'' 0)\<rparr>
      else a, r))"
  using assms
  by (simp add: enterReady_def transition_contract canTransition_def committingShutdown_def
      ready_change_def store_defs)

lemma run_started_result:
  assumes "current (stateStore a) = StateStarting" and "run_started env a tr = Some (b, tr', r)"
  shows "\<exists>k. tr' = tr @ map (CallStart \<circ> cName) (attempted_prefix (components a))
       @ (if reaches_ready env a
          then replicate k CallReload @ shutdown_calls (components a) (components a)
          else map (CallStop \<circ> cName) (rev (started_prefix (components a))))"
    and "r = None \<longleftrightarrow> reaches_ready env a \<and> ready_outcome (readyEvents env) = Some None
       \<and> shutdown_clean env (components a) (components a)"
    and "current (stateStore b) = (if r = None then StateStopped else StateFailed)"
    and "same_run a b"
proof -
  obtain t where sc: "startComponents env a tr =
     (started_prefix (components a), a\<lparr>tracker := t\<rparr>,
      tr @ map (CallStart \<circ> cName) (attempted_prefix (components a)), start_error (components a))"
    using startComponents_result by blast
  define a1 where "a1 = a\<lparr>tracker := t\<rparr>"
  define tr1 where "tr1 = tr @ map (CallStart \<circ> cName) (attempted_prefix (components a))"
  note unfold = run_started_def sc Let_def a1_def [symmetric] tr1_def [symmetric]
  have a1: "current (stateStore a1) = StateStarting" "components a1 = components a"
    "stateStore a1 = stateStore a" "runStarted a1 = runStarted a"
    using assms(1) by (simp_all add: a1_def)
  have "(\<exists>k. tr' = tr @ map (CallStart \<circ> cName) (attempted_prefix (components a))
       @ (if reaches_ready env a
          then replicate k CallReload @ shutdown_calls (components a) (components a)
          else map (CallStop \<circ> cName) (rev (started_prefix (components a)))))
     \<and> (r = None \<longleftrightarrow> reaches_ready env a \<and> ready_outcome (readyEvents env) = Some None
       \<and> shutdown_clean env (components a) (components a))
     \<and> current (stateStore b) = (if r = None then StateStopped else StateFailed)
     \<and> same_run a b"
  proof (cases "reaches_ready env a")
    case False
    then have "\<exists>err. run_started env a tr = Some (abort_startup env a1 (started_prefix (components a)) tr1 err)"
      using enterReady_result [OF a1(1), of env] a1
      by (auto simp: unfold reaches_ready_def split: option.splits prod.splits)
    then obtain err where "abort_startup env a1 (started_prefix (components a)) tr1 err = (b, tr', r)"
      using assms(2) by auto
    then show ?thesis
      using abort_startup_result [OF a1(1), of env "started_prefix (components a)" tr1 err] False a1
      by (auto simp: tr1_def same_run_def)
  next
    case True
    then have all: "start_error (components a) = None" "started_prefix (components a) = components a"
      by (simp_all add: reaches_ready_def started_prefix_all)
    obtain a2 where a2: "enterReady env a1 = (a2, None)" "serving a2" "same_run a1 a2"
      using enterReady_result [OF a1(1), of env] True a1
      by (simp add: reaches_ready_def serving_def same_run_def store_defs)
    obtain a3 tr3 e where sv: "serveReady (readyEvents env) a2 tr1 = Some (a3, tr3, e)"
        and sh: "shutdown env a3 (components a) tr3 e = (b, tr', r)"
      using assms(2) True all a2(1) by (auto simp: unfold reaches_ready_def split: option.splits)
    from serveReady_result [OF sv a2(2)] obtain k
      where k: "serving a3" "same_run a2 a3" "ready_outcome (readyEvents env) = Some e"
        "tr3 = tr1 @ replicate k CallReload" by blast
    from shutdown_result [OF k(1), of env "components a" tr3 e] sh k a2 a1 True show ?thesis
      by (auto simp: same_run_def tr1_def)
  qed
  then show "\<exists>k. tr' = tr @ map (CallStart \<circ> cName) (attempted_prefix (components a))
       @ (if reaches_ready env a
          then replicate k CallReload @ shutdown_calls (components a) (components a)
          else map (CallStop \<circ> cName) (rev (started_prefix (components a))))"
    and "r = None \<longleftrightarrow> reaches_ready env a \<and> ready_outcome (readyEvents env) = Some None
       \<and> shutdown_clean env (components a) (components a)"
    and "current (stateStore b) = (if r = None then StateStopped else StateFailed)"
    and "same_run a b"
    by simp_all
qed

lemma run_started_None:
  assumes "current (stateStore a) = StateStarting"
  shows "run_started env a tr = None \<longleftrightarrow> reaches_ready env a \<and> ready_outcome (readyEvents env) = None"
proof -
  obtain t where sc: "startComponents env a tr =
     (started_prefix (components a), a\<lparr>tracker := t\<rparr>,
      tr @ map (CallStart \<circ> cName) (attempted_prefix (components a)), start_error (components a))"
    using startComponents_result by blast
  show ?thesis
    using enterReady_result [of "a\<lparr>tracker := t\<rparr>" env] assms
    by (auto simp: run_started_def sc reaches_ready_def serveReady_None Let_def
        dest: serveReady_Some split: option.splits prod.splits if_splits)
qed

lemma foldl_AddObserver:
  "foldl AddObserver s obs = s\<lparr>observers := observers s @ obs\<rparr>"
  by (induction obs arbitrary: s) (simp_all add: AddObserver_def)

definition begun :: "App \<Rightarrow> App" where
  "begun a = attach_observers (a\<lparr>runStarted := True\<rparr>)"

lemma begun_simps [simp]:
  "components (begun a) = components a" "onLoadConfig (begun a) = onLoadConfig a"
  "runStarted (begun a)" "current (stateStore (begun a)) = current (stateStore a)"
  by (simp_all add: begun_def attach_observers_def foldl_AddObserver)

lemma Run_begun:
  assumes "\<not> runStarted a"
  shows "Run env a = (case onLoadConfig a of
      Some (Some err) \<Rightarrow> Some (markFailed env (begun a) err, [CallLoadConfig], Some err)
    | _ \<Rightarrow> run_started env (begun a) (load_calls a))"
  using assms
  by (simp add: Run_def beginRun_def load_calls_def Let_def attach_observers_def begun_def
      split: option.splits)

lemma markFailed_begun:
  "current (stateStore a) = StateStarting \<Longrightarrow> current (stateStore (markFailed env (begun a) err)) = StateFailed"
  by (auto simp: markFailed_def canTransition_def committingShutdown_def
      intro!: transition_shutdown_commits)

text \<open>A run in which nothing fails.\<close>

definition run_clean :: "run_env \<Rightarrow> App \<Rightarrow> bool" where
  "run_clean env a \<longleftrightarrow> \<not> load_failed a \<and> reaches_ready env (begun a)
     \<and> ready_outcome (readyEvents env) = Some None
     \<and> shutdown_clean env (components a) (components a)"

lemma Run_cases:
  assumes "\<not> runStarted a" and "Run env a = Some (b, tr, r)"
  obtains (load) err where "onLoadConfig a = Some (Some err)" "b = markFailed env (begun a) err"
      "tr = [CallLoadConfig]" "r = Some err" "load_failed a"
    | (start) "\<not> load_failed a" "run_started env (begun a) (load_calls a) = Some (b, tr, r)"
  using assms unfolding Run_begun [OF assms(1)]
  by (auto simp: load_failed_def split: option.splits)

text \<open>C2: A run that returns ends the application in a terminal state, \<open>Stopped\<close> exactly when it
  returns no error and \<open>Failed\<close> otherwise, and it returns no error exactly when nothing failed:
  the configuration hook, every \<open>Start\<close>, the startup signal, the Ready observers, the runtime
  error sources, every \<open>Quiesce\<close>, \<open>Drain\<close> and \<open>Stop\<close> and the drain deadline.  A second \<open>Run\<close> is
  refused and changes nothing.\<close>

theorem Run_outcome:
  assumes "\<not> runStarted a" and "current (stateStore a) = StateStarting"
    and "Run env a = Some (b, tr, r)"
  shows "current (stateStore b) = (if r = None then StateStopped else StateFailed)
     \<and> (r = None \<longleftrightarrow> run_clean env a)
     \<and> Run env' b = Some (b, [], Some ErrAlreadyRunning)"
  using assms(1,3)
proof (cases rule: Run_cases)
  case (load err)
  then show ?thesis
    using markFailed_begun [OF assms(2)]
    by (simp add: run_clean_def Run_def beginRun_def) (simp add: markFailed_def)
next
  case start
  have st: "current (stateStore (begun a)) = StateStarting" using assms(2) by simp
  show ?thesis
    using run_started_result(2,3,4) [OF st start(2)] start(1)
    by (simp add: run_clean_def same_run_def Run_def beginRun_def)
qed

text \<open>C3: The calls a run makes, in order: the configuration hook; \<open>Start\<close> in registration order up to
  the first failure; when Ready is reached, the reloads, \<open>Quiesce\<close> and then \<open>Drain\<close> of the components
  that have them in reverse order; and \<open>Stop\<close>, in reverse order, of exactly the components whose
  \<open>Start\<close> succeeded, whatever failed in between.\<close>

theorem Run_calls:
  assumes "\<not> runStarted a" and "current (stateStore a) = StateStarting"
    and "Run env a = Some (b, tr, r)"
  shows "\<exists>k. tr = load_calls a @
     (if load_failed a then []
      else map (CallStart \<circ> cName) (attempted_prefix (components a))
         @ (if reaches_ready env (begun a)
            then replicate k CallReload @ phase_calls cQuiesce CallQuiesce (rev (components a))
              @ phase_calls cDrain CallDrain (rev (components a)) else [])
         @ map (CallStop \<circ> cName) (rev (started_prefix (components a))))"
  using assms(1,3)
proof (cases rule: Run_cases)
  case (load err)
  then show ?thesis by (simp add: load_calls_def)
next
  case start
  have st: "current (stateStore (begun a)) = StateStarting" using assms(2) by simp
  from run_started_result(1) [OF st start(2), unfolded begun_simps] obtain k where
    k: "tr = load_calls a @ map (CallStart \<circ> cName) (attempted_prefix (components a))
       @ (if reaches_ready env (begun a)
          then replicate k CallReload @ shutdown_calls (components a) (components a)
          else map (CallStop \<circ> cName) (rev (started_prefix (components a))))" by blast
  have "reaches_ready env (begun a) \<Longrightarrow> started_prefix (components a) = components a"
    using started_prefix_all [of "components a"] by (simp add: reaches_ready_def)
  then show ?thesis
    using start(1) k by (intro exI [of _ k]) (simp add: shutdown_calls_def)
qed


section \<open>Assembly\<close>

text \<open>What \<open>Register\<close> maintains: the set of names is that of the components, no name is empty or
  used twice.\<close>

definition app_wf :: "App \<Rightarrow> bool" where
  "app_wf a \<longleftrightarrow> names a = cName ` set (components a) \<and> distinct (map cName (components a))
     \<and> '''' \<notin> names a"

lemma Register_wf [inv_rules]: "app_wf a \<Longrightarrow> app_wf (fst (Register a c))"
  by (auto simp: Register_def app_wf_def split: option.splits)

interpretation register: op_invariant "\<lambda>a c. fst (Register a c)" app_wf
  by unfold_locales (rule Register_wf)

lemma MustRegister_frame:
  "MustRegister a cs = Inr b \<Longrightarrow> map Some (components b) = map Some (components a) @ cs
     \<and> runStarted b = runStarted a \<and> stateStore b = stateStore a"
  by (induction cs arbitrary: a) (auto simp: Register_def split: option.splits if_splits prod.splits)

lemma MustRegister_run:
  "MustRegister a cs = Inr b \<Longrightarrow> b = foldl (\<lambda>a c. fst (Register a c)) a cs"
  by (induction cs arbitrary: a) (auto split: prod.splits option.splits)

definition plain_option :: "Option \<Rightarrow> bool" where
  "plain_option opt \<longleftrightarrow> (\<forall>a. components (opt a) = components a \<and> names (opt a) = names a
     \<and> runStarted (opt a) = runStarted a \<and> stateStore (opt a) = stateStore a)"

lemma options_plain:
  "plain_option (WithDrainTimeout d)" "plain_option (WithStopTimeout d)"
  "plain_option (WithReload h)" "plain_option (WithLoadConfig h)"
  "plain_option (WithStateObserver ob)" "plain_option (WithComponentTracker t)"
  by (simp_all add: plain_option_def WithDrainTimeout_def WithStopTimeout_def WithReload_def
      WithLoadConfig_def WithStateObserver_def WithComponentTracker_def)

lemma foldl_options:
  "\<forall>opt\<in>set opts. plain_option opt \<Longrightarrow>
   components (foldl (\<lambda>a opt. opt a) a opts) = components a \<and> names (foldl (\<lambda>a opt. opt a) a opts) = names a
   \<and> runStarted (foldl (\<lambda>a opt. opt a) a opts) = runStarted a
   \<and> stateStore (foldl (\<lambda>a opt. opt a) a opts) = stateStore a"
  by (induction opts arbitrary: a) (auto simp: plain_option_def)

lemma New_wf:
  "New now nm opts = Inr a \<Longrightarrow> \<forall>opt\<in>set opts. plain_option opt \<Longrightarrow>
   app_wf a \<and> components a = [] \<and> \<not> runStarted a \<and> stateStore a = NewStateStore now"
  using foldl_options [of opts] by (auto simp: New_def app_wf_def split: if_splits)

text \<open>An application that \<open>New\<close> (with the options the package has) and \<open>MustRegister\<close> build
  without a panic has exactly the given components in the given order, none of them nil or unnamed
  and no two of the same name, and it is ready to run: \<open>Starting\<close>, and not run before.\<close>

theorem assembly_correct:
  assumes "New now nm opts = Inr a0" and "\<forall>opt\<in>set opts. plain_option opt"
    and "MustRegister a0 cs = Inr a"
  shows "map Some (components a) = cs \<and> distinct (map cName (components a))
     \<and> (\<forall>c\<in>set (components a). cName c \<noteq> '''')
     \<and> \<not> runStarted a \<and> current (stateStore a) = StateStarting"
proof -
  note a0 = New_wf [OF assms(1,2)]
  have "app_wf a"
    using register.run_inv [of a0 cs] a0 MustRegister_run [OF assms(3)] by simp
  moreover have "map Some (components a) = cs"
    using MustRegister_frame [OF assms(3)] a0 by simp
  moreover have "\<forall>c\<in>set (components a). cName c \<noteq> ''''"
    using \<open>app_wf a\<close> unfolding app_wf_def by (metis imageI)
  ultimately show ?thesis
    using a0 MustRegister_frame [OF assms(3)] by (simp add: app_wf_def NewStateStore_def)
qed

section \<open>Signals\<close>

text \<open>The dispatcher hands the first termination signal to the run and escalates the drain from
  the second one on: a single SIGTERM never escalates, and a reload signal never counts.\<close>

theorem dispatch_signals_correct:
  "let src = foldl dispatch_signal installSignals sgs; terms = filter isTermSignal sgs in
     sigCount src = length terms
   \<and> termOut src = (case terms of [] \<Rightarrow> None | sg # _ \<Rightarrow> Some sg)
   \<and> (secondDone src \<longleftrightarrow> length terms \<ge> 2)"
proof -
  have "sigCount src = length terms \<and> termOut src = (case terms of [] \<Rightarrow> None | sg # _ \<Rightarrow> Some sg)
      \<and> (secondDone src \<longleftrightarrow> length terms \<ge> 2)"
    if "src = foldl dispatch_signal installSignals sgs" "terms = filter isTermSignal sgs"
    for src terms
    using that
  proof (induction sgs arbitrary: src terms rule: rev_induct)
    case Nil
    then show ?case by (simp add: installSignals_def)
  next
    case (snoc sg sgs)
    then show ?case
      by (cases "filter isTermSignal sgs") (auto simp: dispatch_signal_def Let_def)
  qed
  then show ?thesis by (simp add: Let_def)
qed

section \<open>A sample run\<close>

definition sample_env :: run_env where
  "sample_env = \<lparr>clock = (\<lambda>st. 5), startClock = (\<lambda>n. 1), startTook = (\<lambda>n. 2),
     stopClock = (\<lambda>n. 3), errText = (\<lambda>e. ''error''), signalCause = None,
     readyEvents = [EvSignal SIGUSR1, EvAllocate 7, EvSignal SIGTERM], drainCause = None\<rparr>"

definition sample_component :: "string \<Rightarrow> rt_error option \<Rightarrow> Component" where
  "sample_component n stop = \<lparr>cName = n, cStart = None, cStop = stop, cQuiesce = Some None,
     cDrain = None\<rparr>"

definition sample_components :: "Component option list" where
  "sample_components = [Some (sample_component ''bus'' None),
     Some (sample_component ''gate'' (Some (ClientError ''x'')))]"

definition sample_app :: App where
  "sample_app = (case New 1 ''svr'' [WithStopTimeout 3, WithReload (Some None)] of
      Inr a \<Rightarrow> (case MustRegister a sample_components of Inr b \<Rightarrow> b | _ \<Rightarrow> a))"

lemma sample_app_fresh: "\<not> runStarted sample_app" "current (stateStore sample_app) = StateStarting"
  by code_simp+

lemma sample_run:
  "case Run sample_env sample_app of None \<Rightarrow> False | Some (b, tr, r) \<Rightarrow> r \<noteq> None
     \<and> tr = [CallStart ''bus'', CallStart ''gate'', CallReload, CallQuiesce ''gate'',
             CallQuiesce ''bus'', CallStop ''gate'', CallStop ''bus'']"
  by code_simp

lemma sample_assembled:
  "case New 1 ''svr'' [WithStopTimeout 3, WithReload (Some None)] of Inl _ \<Rightarrow> False
   | Inr a \<Rightarrow> (case MustRegister a sample_components of Inl _ \<Rightarrow> False | Inr b \<Rightarrow> True)"
  by code_simp

theorem Run_outcome_witness:
  "\<exists>b tr r. Run sample_env sample_app = Some (b, tr, r) \<and> r \<noteq> None
     \<and> current (stateStore b) = StateFailed"
proof -
  obtain b tr r where run: "Run sample_env sample_app = Some (b, tr, r)" "r \<noteq> None"
    using sample_run by (auto split: option.splits)
  show ?thesis
    using Run_outcome [OF sample_app_fresh run(1), of sample_env] run by auto
qed

theorem Run_calls_witness:
  "\<exists>b tr r k. Run sample_env sample_app = Some (b, tr, r) \<and>
     tr = map (CallStart \<circ> cName) (components sample_app) @ replicate k CallReload
       @ [CallQuiesce ''gate'', CallQuiesce ''bus''] @ [CallStop ''gate'', CallStop ''bus'']"
proof -
  obtain b tr r where run: "Run sample_env sample_app = Some (b, tr, r)"
    using sample_run by (auto split: option.splits)
  have sample: "map cName (components sample_app) = [''bus'', ''gate'']"
    "map cName (attempted_prefix (components sample_app)) = [''bus'', ''gate'']"
    "map cName (rev (started_prefix (components sample_app))) = [''gate'', ''bus'']"
    "load_calls sample_app = []" "\<not> load_failed sample_app"
    "reaches_ready sample_env (begun sample_app)"
    "phase_calls cQuiesce CallQuiesce (rev (components sample_app)) = [CallQuiesce ''gate'', CallQuiesce ''bus'']"
    "phase_calls cDrain CallDrain (rev (components sample_app)) = []"
    by code_simp+
  show ?thesis
    using Run_calls [OF sample_app_fresh run] run by (simp add: sample flip: map_map)
qed


theorem assembly_correct_witness:
  "\<exists>a0 a. New 1 ''svr'' [WithStopTimeout 3, WithReload (Some None)] = Inr a0
     \<and> MustRegister a0 sample_components = Inr a \<and> map Some (components a) = sample_components"
proof -
  obtain a0 a where a: "New 1 ''svr'' [WithStopTimeout 3, WithReload (Some None)] = Inr a0"
      "MustRegister a0 sample_components = Inr a"
    using sample_assembled by (auto split: sum.splits)
  have "\<forall>opt\<in>set [WithStopTimeout 3, WithReload (Some None)]. plain_option opt"
    by (simp add: options_plain)
  from assembly_correct [OF a(1) this a(2)] a show ?thesis by blast
qed

end
