(* ===== verification/Bytes.thy ===== *)
theory Bytes
  imports GoPrelude
begin

text \<open>
  Big-endian integers in byte slices (Go's \<open>encoding/binary\<close>): a writer overwrites a window of a
  buffer, a reader reads one.  The locale \<open>byte_codec\<close> is the interface the packet headers use; it
  is interpreted on the 16, 32 and 64 bit integers and on fixed-size byte arrays.
\<close>

type_synonym byte = "8 word"
type_synonym bytes = "byte list"

fun be_enc :: "nat \<Rightarrow> nat \<Rightarrow> bytes" where
  "be_enc 0 v = []"
| "be_enc (Suc n) v = word_of_nat (v div 256 ^ n) # be_enc n v"

definition be_dec :: "bytes \<Rightarrow> nat" where
  "be_dec bs = foldl (\<lambda>a b. a * 256 + unat b) 0 bs"

lemma length_be_enc [simp]: "length (be_enc n v) = n"
  by (induction n) simp_all

lemma foldl_be: "foldl (\<lambda>a b. a * 256 + unat b) c bs = c * 256 ^ length bs + be_dec bs"
proof (induction bs arbitrary: c)
  case (Cons b bs)
  show ?case
    by (simp add: be_dec_def Cons.IH [of "c * 256 + unat b"] Cons.IH [of "unat b"]) (simp add: algebra_simps)
qed (simp add: be_dec_def)

lemma be_dec_Cons: "be_dec (b # bs) = unat b * 256 ^ length bs + be_dec bs"
  using foldl_be [of "unat b" bs] by (simp add: be_dec_def)

lemma be_dec_Nil [simp]: "be_dec [] = 0"
  by (simp add: be_dec_def)

lemma unat_of_nat_byte: "unat (word_of_nat v :: byte) = v mod 256"
  by (simp add: unat_of_nat)

lemma be_dec_enc: "be_dec (be_enc n v) = v mod 256 ^ n"
proof (induction n)
  case (Suc n)
  have "v mod 256 ^ Suc n = (v div 256 ^ n mod 256) * 256 ^ n + v mod 256 ^ n"
    by (metis mod_mult2_eq mult.commute power_Suc2 add.commute)
  then show ?case using Suc by (simp add: be_dec_Cons unat_of_nat_byte)
qed simp

lemma unat_word_less: "unat (w :: 'a::len word) < 2 ^ LENGTH('a)"
  by (rule unsigned_less)

lemma be_dec_less: "be_dec bs < 256 ^ length bs"
proof (induction bs)
  case (Cons b bs)
  have "unat b < 256" using unat_word_less [of b] by simp
  then have "unat b * 256 ^ length bs + be_dec bs < (unat b + 1) * 256 ^ length bs"
    using Cons by simp
  also have "\<dots> \<le> 256 * 256 ^ length bs" using \<open>unat b < 256\<close> by (intro mult_right_mono) auto
  finally show ?case by (simp add: be_dec_Cons)
qed simp

lemma byte_256: "(256 :: byte) = 0"
  by simp

lemma be_enc_mod: "be_enc n (v + c * 256 ^ n) = be_enc n v"
proof (induction n arbitrary: c)
  case (Suc n)
  have "(v + c * 256 ^ Suc n) div 256 ^ n = v div 256 ^ n + c * 256"
    using div_mult_self1 [of "256 ^ n" v "c * 256"] by (simp add: mult.assoc)
  then have "(word_of_nat ((v + c * 256 ^ Suc n) div 256 ^ n) :: byte) = word_of_nat (v div 256 ^ n)"
    by (simp add: byte_256)
  moreover have "be_enc n (v + c * 256 ^ Suc n) = be_enc n v"
    using Suc [of "c * 256"] by (simp add: mult.assoc)
  ultimately show ?case by simp
qed simp

lemma be_enc_dec: "be_enc (length bs) (be_dec bs) = bs"
proof (induction bs)
  case (Cons b bs)
  have "be_dec (b # bs) div 256 ^ length bs = unat b"
    using be_dec_less [of bs] by (simp add: be_dec_Cons)
  moreover have "be_enc (length bs) (be_dec (b # bs)) = be_enc (length bs) (be_dec bs)"
    using be_enc_mod [of "length bs" "be_dec bs" "unat b"] by (simp add: be_dec_Cons add.commute)
  ultimately show ?case using Cons by simp
qed simp

section \<open>Readers and writers\<close>

definition PutUint16 :: "16 word \<Rightarrow> bytes" where "PutUint16 v = be_enc 2 (unat v)"
definition PutUint32 :: "32 word \<Rightarrow> bytes" where "PutUint32 v = be_enc 4 (unat v)"
definition PutUint64 :: "64 word \<Rightarrow> bytes" where "PutUint64 v = be_enc 8 (unat v)"

definition Uint16 :: "bytes \<Rightarrow> 16 word" where "Uint16 b = word_of_nat (be_dec (take 2 b))"
definition Uint32 :: "bytes \<Rightarrow> 32 word" where "Uint32 b = word_of_nat (be_dec (take 4 b))"
definition Uint64 :: "bytes \<Rightarrow> 64 word" where "Uint64 b = word_of_nat (be_dec (take 8 b))"

text \<open>Writing at a position of a buffer: \<open>PutUintN(b[pos:], v)\<close> and \<open>copy(b[pos:], src)\<close> when the
  buffer has room.\<close>

definition put_at :: "nat \<Rightarrow> bytes \<Rightarrow> bytes \<Rightarrow> bytes" where
  "put_at pos bs b = take pos b @ bs @ drop (pos + length bs) b"

lemma put_at_append:
  "pos = length p \<Longrightarrow> put_at pos bs (p @ r) = p @ bs @ drop (length bs) r"
  by (simp add: put_at_def)

lemma length_put_at: "pos + length bs \<le> length b \<Longrightarrow> length (put_at pos bs b) = length b"
  by (simp add: put_at_def)

locale byte_codec =
  fixes enc :: "'a \<Rightarrow> bytes" and dec :: "bytes \<Rightarrow> 'a" and size :: nat and dom :: "'a \<Rightarrow> bool"
  assumes length_enc: "dom x \<Longrightarrow> length (enc x) = size"
    and dec_enc: "dom x \<Longrightarrow> dec (enc x @ r) = x"
    and enc_dec: "size \<le> length b \<Longrightarrow> enc (dec b) = take size b"
    and dec_dom: "size \<le> length b \<Longrightarrow> dom (dec b)"
begin

lemma dec_at: "dom x \<Longrightarrow> pos = length p \<Longrightarrow> dec (drop pos (p @ enc x @ r)) = x"
  by (simp add: dec_enc)

lemma enc_injective: "dom x \<Longrightarrow> dom y \<Longrightarrow> enc x = enc y \<Longrightarrow> x = y"
  by (metis dec_enc)

lemma dec_put_at:
  "dom x \<Longrightarrow> pos + size \<le> length b \<Longrightarrow> dec (drop pos (put_at pos (enc x) b)) = x"
  by (simp add: put_at_def dec_enc)

end

text \<open>The integers: all widths follow from the two directions of the positional notation.\<close>

lemma enc_dec_take: "n \<le> length b \<Longrightarrow> be_enc n (be_dec (take n b)) = take n b"
  using be_enc_dec [of "take n b"] by simp

lemma be_dec_take_less: "n \<le> length b \<Longrightarrow> be_dec (take n b) < 256 ^ n"
  using be_dec_less [of "take n b"] by simp

interpretation codec16: byte_codec PutUint16 Uint16 2 "\<lambda>_. True"
proof unfold_locales
  fix x :: "16 word" and r :: bytes
  show "Uint16 (PutUint16 x @ r) = x"
    using unat_word_less [of x] by (simp add: Uint16_def PutUint16_def be_dec_enc)
next
  fix b :: bytes
  assume "2 \<le> length b"
  then show "PutUint16 (Uint16 b) = take 2 b"
    using be_dec_take_less [of 2 b] by (simp add: Uint16_def PutUint16_def enc_dec_take unat_of_nat)
qed (simp_all add: PutUint16_def)

interpretation codec32: byte_codec PutUint32 Uint32 4 "\<lambda>_. True"
proof unfold_locales
  fix x :: "32 word" and r :: bytes
  show "Uint32 (PutUint32 x @ r) = x"
    using unat_word_less [of x] by (simp add: Uint32_def PutUint32_def be_dec_enc)
next
  fix b :: bytes
  assume "4 \<le> length b"
  then show "PutUint32 (Uint32 b) = take 4 b"
    using be_dec_take_less [of 4 b] by (simp add: Uint32_def PutUint32_def enc_dec_take unat_of_nat)
qed (simp_all add: PutUint32_def)

interpretation codec64: byte_codec PutUint64 Uint64 8 "\<lambda>_. True"
proof unfold_locales
  fix x :: "64 word" and r :: bytes
  show "Uint64 (PutUint64 x @ r) = x"
    using unat_word_less [of x] by (simp add: Uint64_def PutUint64_def be_dec_enc)
next
  fix b :: bytes
  assume "8 \<le> length b"
  then show "PutUint64 (Uint64 b) = take 8 b"
    using be_dec_take_less [of 8 b] by (simp add: Uint64_def PutUint64_def enc_dec_take unat_of_nat)
qed (simp_all add: PutUint64_def)

text \<open>A fixed-size array is copied as it is.\<close>

interpretation array16: byte_codec "\<lambda>x. x" "take 16" 16 "\<lambda>x. length x = 16"
  by unfold_locales simp_all

interpretation array8: byte_codec "\<lambda>x. x" "take 8" 8 "\<lambda>x. length x = 8"
  by unfold_locales simp_all

lemmas length_puts [simp] =
  codec16.length_enc [OF TrueI] codec32.length_enc [OF TrueI] codec64.length_enc [OF TrueI]

lemmas read_puts [simp] =
  codec16.dec_enc [OF TrueI] codec32.dec_enc [OF TrueI] codec64.dec_enc [OF TrueI]

lemmas read_puts_end [simp] =
  codec16.dec_enc [OF TrueI, where r = "[]", simplified]
  codec32.dec_enc [OF TrueI, where r = "[]", simplified]
  codec64.dec_enc [OF TrueI, where r = "[]", simplified]

text \<open>Consecutive windows of a buffer make up one window.\<close>

fun windows :: "nat \<Rightarrow> nat list \<Rightarrow> bytes \<Rightarrow> bytes" where
  "windows k [] b = []"
| "windows k (n # ns) b = take n (drop k b) @ windows (k + n) ns b"

lemma windows_take: "windows k ns b = take (sum_list ns) (drop k b)"
  by (induction ns arbitrary: k) (simp_all add: take_add add.commute)

lemmas put_reads = codec16.enc_dec codec32.enc_dec codec64.enc_dec

end
