(* ===== verification/SsPacket.thy ===== *)
theory SsPacket
  imports Bytes
begin

text \<open>
  The packet headers: \<open>SSPacketHeader\<close> between services (86 bytes, \<open>ss_packet.go\<close> and \<open>trace.go\<close> of
  \<open>lib/api/sharedstruct\<close>), \<open>CSPacketHeader\<close> between client and gateway (28 bytes, \<open>cs_packet.go\<close>) and
  the bus frame of \<open>lib/service/bus/internal/wire\<close> (12 bytes).  Writers work on a buffer as the
  code does, so the lemmas also say what happens to the bytes behind the header.
\<close>

section \<open>The header between services\<close>

record SSPacketHeader =
  SrcBusID :: "32 word"
  DstBusID :: "32 word"
  SrcTransID :: "32 word"
  DstTransID :: "32 word"
  Uid :: "64 word"
  RouterID :: "64 word"
  Cmd :: "32 word"
  Zone :: "32 word"
  Ip :: "32 word"
  Flag :: "32 word"
  BodyLen :: "32 word"
  CmdSeq :: "16 word"
  TraceID :: bytes
  SpanID :: bytes
  DeadlineUnixMs :: "64 word"

record SSPacket =
  Header :: SSPacketHeader
  Body :: bytes

text \<open>The fixed sizes of the two arrays of the Go struct.\<close>

definition ss_header_wf :: "SSPacketHeader \<Rightarrow> bool" where
  "ss_header_wf h \<longleftrightarrow> length (TraceID h) = 16 \<and> length (SpanID h) = 8"

definition ByteLenOfSSPacketHeader :: nat where "ByteLenOfSSPacketHeader = 86"

definition HasTrace :: "SSPacketHeader \<Rightarrow> bool" where
  "HasTrace h \<longleftrightarrow> (\<exists>b\<in>set (TraceID h). b \<noteq> 0)"

text \<open>\<^const>\<open>None\<close> is the error "buffer is too small".\<close>

definition SSPacketHeader_To :: "SSPacketHeader \<Rightarrow> bytes \<Rightarrow> bytes option" where
  "SSPacketHeader_To h b =
     (if length b < ByteLenOfSSPacketHeader then None
      else let b = put_at 0 (PutUint32 (SrcBusID h)) b;
               b = put_at 4 (PutUint32 (DstBusID h)) b;
               b = put_at 8 (PutUint32 (SrcTransID h)) b;
               b = put_at 12 (PutUint32 (DstTransID h)) b;
               b = put_at 16 (PutUint64 (Uid h)) b;
               b = put_at 24 (PutUint64 (RouterID h)) b;
               b = put_at 32 (PutUint32 (Cmd h)) b;
               b = put_at 36 (PutUint32 (Zone h)) b;
               b = put_at 40 (PutUint32 (Ip h)) b;
               b = put_at 44 (PutUint32 (Flag h)) b;
               b = put_at 48 (PutUint32 (BodyLen h)) b;
               b = put_at 52 (PutUint16 (CmdSeq h)) b;
               b = put_at 54 (TraceID h) b;
               b = put_at 70 (SpanID h) b;
               b = put_at 78 (PutUint64 (DeadlineUnixMs h)) b
           in Some b)"

definition SSPacketHeader_From :: "bytes \<Rightarrow> SSPacketHeader option" where
  "SSPacketHeader_From b =
     (if length b < ByteLenOfSSPacketHeader then None
      else Some \<lparr>SrcBusID = Uint32 b, DstBusID = Uint32 (drop 4 b), SrcTransID = Uint32 (drop 8 b),
             DstTransID = Uint32 (drop 12 b), Uid = Uint64 (drop 16 b), RouterID = Uint64 (drop 24 b),
             Cmd = Uint32 (drop 32 b), Zone = Uint32 (drop 36 b), Ip = Uint32 (drop 40 b),
             Flag = Uint32 (drop 44 b), BodyLen = Uint32 (drop 48 b), CmdSeq = Uint16 (drop 52 b),
             TraceID = take 16 (drop 54 b), SpanID = take 8 (drop 70 b),
             DeadlineUnixMs = Uint64 (drop 78 b)\<rparr>)"

definition SSPacketHeader_ToBytes :: "SSPacketHeader \<Rightarrow> bytes" where
  "SSPacketHeader_ToBytes h =
     (let buf = replicate ByteLenOfSSPacketHeader 0
      in case SSPacketHeader_To h buf of None \<Rightarrow> buf | Some b \<Rightarrow> b)"

text \<open>\<open>SendToChan\<close>: the channel takes the packet if it has room now, or when a receiver makes room
  before the timeout (\<open>room_later\<close>).\<close>

definition SendToChan :: "nat \<Rightarrow> 'a list \<Rightarrow> bool \<Rightarrow> 'a \<Rightarrow> 'a list \<times> bool" where
  "SendToChan cap ch room_later p =
     (if length ch < cap \<or> room_later then (ch @ [p], True) else (ch, False))"

text \<open>The fields one after the other.\<close>

definition ss_layout :: "SSPacketHeader \<Rightarrow> bytes" where
  "ss_layout h = PutUint32 (SrcBusID h) @ PutUint32 (DstBusID h) @ PutUint32 (SrcTransID h)
     @ PutUint32 (DstTransID h) @ PutUint64 (Uid h) @ PutUint64 (RouterID h) @ PutUint32 (Cmd h)
     @ PutUint32 (Zone h) @ PutUint32 (Ip h) @ PutUint32 (Flag h) @ PutUint32 (BodyLen h)
     @ PutUint16 (CmdSeq h) @ TraceID h @ SpanID h @ PutUint64 (DeadlineUnixMs h)"

lemma length_ss_layout: "ss_header_wf h \<Longrightarrow> length (ss_layout h) = 86"
  by (simp add: ss_layout_def ss_header_wf_def)

lemma drop_drop_num: "drop n (drop m xs) = drop (m + n) xs"
  by (simp add: add.commute)

lemma put_at_start: "put_at 0 bs b = bs @ drop (length bs) b"
  by (simp add: put_at_def)

lemma put_at_next:
  "length p = pos \<Longrightarrow> put_at pos bs (p @ drop n b) = (p @ bs) @ drop (length bs + n) b"
  by (simp add: put_at_def)

lemmas write_fields = put_at_start put_at_next

lemma SSPacketHeader_To_layout:
  assumes "ss_header_wf h" and "86 \<le> length b"
  shows "SSPacketHeader_To h b = Some (ss_layout h @ drop 86 b)"
  using assms
  by (simp add: SSPacketHeader_To_def ByteLenOfSSPacketHeader_def ss_header_wf_def
      write_fields Let_def del: append_assoc) (simp add: ss_layout_def)

lemma SSPacketHeader_From_layout:
  assumes "ss_header_wf h"
  shows "SSPacketHeader_From (ss_layout h @ r) = Some h"
  using assms length_ss_layout [OF assms]
  by (simp add: SSPacketHeader_From_def ByteLenOfSSPacketHeader_def)
     (simp add: ss_layout_def ss_header_wf_def)

lemma ss_layout_From:
  assumes "SSPacketHeader_From b = Some h"
  shows "ss_header_wf h" "86 \<le> length b" "ss_layout h = take 86 b"
proof -
  show len: "86 \<le> length b" and "ss_header_wf h"
    using assms
    by (auto simp: SSPacketHeader_From_def ByteLenOfSSPacketHeader_def ss_header_wf_def split: if_splits)
  have "ss_layout h = windows 0 [4,4,4,4,8,8,4,4,4,4,4,2,16,8,8] b"
    using assms len
    by (simp add: SSPacketHeader_From_def ByteLenOfSSPacketHeader_def ss_layout_def put_reads
        split: if_splits) (auto simp: ss_layout_def put_reads)
  then show "ss_layout h = take 86 b" by (simp add: windows_take)
qed

text \<open>C5: The header of a packet between services survives the wire in both directions.  Reading
  succeeds with \<open>h\<close> exactly when \<open>h\<close> is well formed and writing it leaves the buffer as it was; writing
  a well-formed header fails only in a buffer of less than 86 bytes, changes no byte behind the
  header, and reading gives the header back.\<close>

theorem ss_header_roundtrip:
  "(SSPacketHeader_From b = Some h \<longleftrightarrow> ss_header_wf h \<and> SSPacketHeader_To h b = Some b)
   \<and> (SSPacketHeader_To h b = None \<longleftrightarrow> length b < 86)
   \<and> (\<forall>b'. ss_header_wf h \<and> SSPacketHeader_To h b = Some b' \<longrightarrow>
        SSPacketHeader_From b' = Some h \<and> length b' = length b \<and> drop 86 b' = drop 86 b)"
proof (intro conjI allI impI)
  have None: "SSPacketHeader_To h b = None \<longleftrightarrow> length b < 86"
    by (simp add: SSPacketHeader_To_def ByteLenOfSSPacketHeader_def Let_def)
  then show "SSPacketHeader_To h b = None \<longleftrightarrow> length b < 86" .
  show "SSPacketHeader_From b = Some h \<longleftrightarrow> ss_header_wf h \<and> SSPacketHeader_To h b = Some b"
  proof
    assume "SSPacketHeader_From b = Some h"
    from ss_layout_From [OF this] show "ss_header_wf h \<and> SSPacketHeader_To h b = Some b"
      by (simp add: SSPacketHeader_To_layout)
  next
    assume h: "ss_header_wf h \<and> SSPacketHeader_To h b = Some b"
    then have "ss_layout h @ drop 86 b = b"
      using SSPacketHeader_To_layout [of h b] None by (simp add: not_less)
    with h SSPacketHeader_From_layout [of h "drop 86 b"] show "SSPacketHeader_From b = Some h" by simp
  qed
  fix b' assume h: "ss_header_wf h \<and> SSPacketHeader_To h b = Some b'"
  then have "86 \<le> length b" using None by (metis not_less option.distinct(1))
  then have b': "b' = ss_layout h @ drop 86 b" using h SSPacketHeader_To_layout [of h b] by simp
  then show "SSPacketHeader_From b' = Some h" using h SSPacketHeader_From_layout by simp
  show "length b' = length b" "drop 86 b' = drop 86 b"
    using b' h \<open>86 \<le> length b\<close> length_ss_layout [of h] by simp_all
qed

lemma SSPacketHeader_ToBytes_layout:
  "ss_header_wf h \<Longrightarrow> SSPacketHeader_ToBytes h = ss_layout h"
  by (simp add: SSPacketHeader_ToBytes_def ByteLenOfSSPacketHeader_def SSPacketHeader_To_layout)

section \<open>Trace and deadline (trace.go)\<close>

record TraceContext =
  tcTraceID :: bytes
  tcSpanID :: bytes
  tcDeadlineUnixMs :: "64 word"

definition NewTraceID :: "64 word \<Rightarrow> 64 word \<Rightarrow> bytes" where
  "NewTraceID r1 r2 = put_at 8 (PutUint64 r2) (put_at 0 (PutUint64 r1) (replicate 16 0))"

definition NewSpanID :: "64 word \<Rightarrow> bytes" where
  "NewSpanID r = put_at 0 (PutUint64 r) (replicate 8 0)"

definition ApplyTo :: "TraceContext \<Rightarrow> SSPacketHeader \<Rightarrow> SSPacketHeader" where
  "ApplyTo tc h = h\<lparr>TraceID := tcTraceID tc, SpanID := tcSpanID tc,
     DeadlineUnixMs := tcDeadlineUnixMs tc\<rparr>"

definition hex_digit :: "nat \<Rightarrow> char" where
  "hex_digit n = ''0123456789abcdef'' ! n"

definition hex_encode :: "bytes \<Rightarrow> string" where
  "hex_encode bs = concat (map (\<lambda>b. [hex_digit (unat b div 16), hex_digit (unat b mod 16)]) bs)"

definition TraceIDHex :: "SSPacketHeader \<Rightarrow> string" where
  "TraceIDHex h = (if \<not> HasTrace h then '''' else hex_encode (TraceID h))"

definition SpanIDHex :: "SSPacketHeader \<Rightarrow> string" where
  "SpanIDHex h = hex_encode (SpanID h)"

definition Deadline :: "SSPacketHeader \<Rightarrow> int option" where
  "Deadline h = (if sint (DeadlineUnixMs h) \<le> 0 then None else Some (sint (DeadlineUnixMs h)))"

definition DeadlineExceeded :: "SSPacketHeader \<Rightarrow> int \<Rightarrow> bool" where
  "DeadlineExceeded h nowMs \<longleftrightarrow> sint (DeadlineUnixMs h) > 0 \<and> nowMs > sint (DeadlineUnixMs h)"

lemma DeadlineExceeded_iff: "DeadlineExceeded h now \<longleftrightarrow> (\<exists>d. Deadline h = Some d \<and> now > d)"
  by (simp add: DeadlineExceeded_def Deadline_def)

lemma length_new_ids [simp]: "length (NewTraceID r1 r2) = 16" "length (NewSpanID r) = 8"
  by (simp_all add: NewTraceID_def NewSpanID_def length_put_at)

lemma length_hex_encode: "length (hex_encode bs) = 2 * length bs"
  by (induction bs) (simp_all add: hex_encode_def)

section \<open>The header between client and gateway (cs_packet.go)\<close>

record CSPacketHeader =
  csVersion :: "16 word"
  csPassCode :: "16 word"
  csSeq :: "32 word"
  csUid :: "64 word"
  csAppVersion :: "32 word"
  csCmd :: "32 word"
  csBodyLen :: "32 word"

definition MaxByteLenOfCSPacketBody :: int where
  "MaxByteLenOfCSPacketBody = 4 * 1024 * 1024"

definition ByteLenOfCSPacketHeader :: nat where "ByteLenOfCSPacketHeader = 28"

definition ByteLenOfCSPacketBody :: "bytes \<Rightarrow> int" where
  "ByteLenOfCSPacketBody header =
     (if length header < ByteLenOfCSPacketHeader then - 1
      else let bodyLen = uint (Uint32 (drop (ByteLenOfCSPacketHeader - 4) header))
           in if bodyLen > MaxByteLenOfCSPacketBody then - 1 else bodyLen)"

text \<open>Without a length check: \<^const>\<open>None\<close> is the panic of an index out of range.\<close>

definition CSPacketHeader_From :: "bytes \<Rightarrow> CSPacketHeader option" where
  "CSPacketHeader_From b =
     (if length b < 28 then None
      else Some \<lparr>csVersion = Uint16 b, csPassCode = Uint16 (drop 2 b), csSeq = Uint32 (drop 4 b),
             csUid = Uint64 (drop 8 b), csAppVersion = Uint32 (drop 16 b),
             csCmd = Uint32 (drop 20 b), csBodyLen = Uint32 (drop 24 b)\<rparr>)"

definition CSPacketHeader_To :: "CSPacketHeader \<Rightarrow> bytes \<Rightarrow> bytes option" where
  "CSPacketHeader_To h b =
     (if length b < 28 then None
      else let b = put_at 0 (PutUint16 (csVersion h)) b;
               b = put_at 2 (PutUint16 (csPassCode h)) b;
               b = put_at 4 (PutUint32 (csSeq h)) b;
               b = put_at 8 (PutUint64 (csUid h)) b;
               b = put_at 16 (PutUint32 (csAppVersion h)) b;
               b = put_at 20 (PutUint32 (csCmd h)) b;
               b = put_at 24 (PutUint32 (csBodyLen h)) b
           in Some b)"

definition CSPacketHeader_ToBytes :: "CSPacketHeader \<Rightarrow> bytes" where
  "CSPacketHeader_ToBytes h =
     (let buf = replicate ByteLenOfCSPacketHeader 0
      in case CSPacketHeader_To h buf of None \<Rightarrow> buf | Some b \<Rightarrow> b)"

definition cs_layout :: "CSPacketHeader \<Rightarrow> bytes" where
  "cs_layout h = PutUint16 (csVersion h) @ PutUint16 (csPassCode h) @ PutUint32 (csSeq h)
     @ PutUint64 (csUid h) @ PutUint32 (csAppVersion h) @ PutUint32 (csCmd h) @ PutUint32 (csBodyLen h)"

lemma length_cs_layout [simp]: "length (cs_layout h) = 28"
  by (simp add: cs_layout_def)

lemma CSPacketHeader_To_layout:
  "28 \<le> length b \<Longrightarrow> CSPacketHeader_To h b = Some (cs_layout h @ drop 28 b)"
  by (simp add: CSPacketHeader_To_def write_fields Let_def del: append_assoc) (simp add: cs_layout_def)

lemma CSPacketHeader_From_layout: "CSPacketHeader_From (cs_layout h @ r) = Some h"
  using length_cs_layout [of h] by (simp add: CSPacketHeader_From_def) (simp add: cs_layout_def)

lemma CSPacketHeader_ToBytes_layout: "CSPacketHeader_ToBytes h = cs_layout h"
  by (simp add: CSPacketHeader_ToBytes_def ByteLenOfCSPacketHeader_def CSPacketHeader_To_layout)

lemma cs_layout_From:
  assumes "CSPacketHeader_From b = Some h"
  shows "cs_layout h = take 28 b"
proof -
  have "cs_layout h = windows 0 [2,2,4,8,4,4,4] b"
    using assms by (auto simp: CSPacketHeader_From_def cs_layout_def put_reads
        numeral_2_eq_2 [symmetric] simp del: drop_Suc_Cons split: if_splits)
  then show ?thesis by (simp add: windows_take)
qed

lemma ByteLenOfCSPacketBody_layout:
  "ByteLenOfCSPacketBody (cs_layout h @ r) =
     (if uint (csBodyLen h) > MaxByteLenOfCSPacketBody then - 1 else uint (csBodyLen h))"
  using length_cs_layout [of h]
  by (simp add: ByteLenOfCSPacketBody_def ByteLenOfCSPacketHeader_def) (simp add: cs_layout_def)

section \<open>The bus frame (wire.go)\<close>

definition PassCode :: "16 word" where "PassCode = 0xFEED"

record BusHeader =
  bhVersion :: "16 word"
  bhPassCode :: "16 word"
  bhSrcBusID :: "32 word"
  bhDstBusID :: "32 word"

definition HeaderLen :: nat where "HeaderLen = 12"

definition BusHeader_From :: "bytes \<Rightarrow> BusHeader" where
  "BusHeader_From b = \<lparr>bhVersion = Uint16 b, bhPassCode = Uint16 (drop 2 b),
     bhSrcBusID = Uint32 (drop 4 b), bhDstBusID = Uint32 (drop 8 b)\<rparr>"

definition BusHeader_To :: "BusHeader \<Rightarrow> bytes \<Rightarrow> bytes" where
  "BusHeader_To h b =
     (let b = put_at 0 (PutUint16 (bhVersion h)) b;
          b = put_at 2 (PutUint16 (bhPassCode h)) b;
          b = put_at 4 (PutUint32 (bhSrcBusID h)) b;
          b = put_at 8 (PutUint32 (bhDstBusID h)) b
      in b)"

text \<open>\<open>pooled\<close> is the buffer that \<open>GetFrameBuf\<close> returns: of the right length, with whatever an
  earlier frame left in it.\<close>

definition BuildFrame :: "bytes \<Rightarrow> 32 word \<Rightarrow> 32 word \<Rightarrow> bytes \<Rightarrow> bytes \<Rightarrow> bytes" where
  "BuildFrame pooled srcBusId dstBusId data1 data2 =
     (let header = \<lparr>bhVersion = 0, bhPassCode = PassCode, bhSrcBusID = srcBusId,
                    bhDstBusID = dstBusId\<rparr>;
          frame = BusHeader_To header pooled;
          pos = HeaderLen;
          frame = put_at pos data1 frame;
          pos = pos + length data1
      in put_at pos data2 frame)"

text \<open>What every driver does with a message: \<^const>\<open>None\<close> when it is skipped.\<close>

definition bus_receive :: "bytes \<Rightarrow> (32 word \<times> bytes) option" where
  "bus_receive msg =
     (if length msg < HeaderLen then None
      else let header = BusHeader_From msg
           in if bhPassCode header \<noteq> PassCode then None
              else Some (bhSrcBusID header, drop HeaderLen msg))"

lemma BusHeader_To_layout:
  "12 \<le> length b \<Longrightarrow> BusHeader_To h b = (PutUint16 (bhVersion h) @ PutUint16 (bhPassCode h)
     @ PutUint32 (bhSrcBusID h) @ PutUint32 (bhDstBusID h)) @ drop 12 b"
  by (simp add: BusHeader_To_def write_fields Let_def del: append_assoc)

lemma BuildFrame_layout:
  assumes "length pooled = HeaderLen + length data1 + length data2"
  shows "BuildFrame pooled src dst data1 data2 =
     (PutUint16 0 @ PutUint16 PassCode @ PutUint32 src @ PutUint32 dst) @ data1 @ data2"
  using assms
  by (simp add: BuildFrame_def HeaderLen_def BusHeader_To_layout Let_def put_at_def)

text \<open>C6: A bus frame reaches the receiver as it was sent, whatever the recycled buffer held: the
  driver hands on the sender and exactly the two data parts.\<close>

theorem bus_frame_roundtrip:
  assumes "length pooled = HeaderLen + length data1 + length data2"
  shows "bus_receive (BuildFrame pooled src dst data1 data2) = Some (src, data1 @ data2)"
  by (simp add: BuildFrame_layout [OF assms] bus_receive_def HeaderLen_def BusHeader_From_def)

theorem bus_frame_roundtrip_witness:
  "bus_receive (BuildFrame (replicate 15 7) 5 6 [1] [2, 3]) = Some (5, [1, 2, 3])"
  using bus_frame_roundtrip [of "replicate 15 7" "[1]" "[2, 3]" 5 6] by (simp add: HeaderLen_def)

definition sample_header :: SSPacketHeader where
  "sample_header = \<lparr>SrcBusID = 1, DstBusID = 2, SrcTransID = 3, DstTransID = 0, Uid = 10001,
     RouterID = 7, Cmd = 0x10001, Zone = 1, Ip = 0, Flag = 0, BodyLen = 5, CmdSeq = 9,
     TraceID = replicate 16 1, SpanID = replicate 8 2, DeadlineUnixMs = 1000\<rparr>"

theorem ss_header_roundtrip_witness:
  "\<exists>b'. SSPacketHeader_To sample_header (replicate 90 0) = Some b'
     \<and> SSPacketHeader_From b' = Some sample_header \<and> length b' = 90"
proof -
  have "ss_header_wf sample_header" by (simp add: ss_header_wf_def sample_header_def)
  then show ?thesis
    using ss_header_roundtrip [of "replicate 90 0" sample_header]
    by (cases "SSPacketHeader_To sample_header (replicate 90 0)") auto
qed

end
