(* ===== verification/TcpFraming.thy ===== *)
theory TcpFraming
  imports SsPacket
begin

text \<open>
  Cutting the byte stream of a client connection into packets: \<open>TcpPacketSvr.OnRead\<close> and \<open>OnRead2\<close>
  (\<open>lib/net/tcp_server/tcp_packet.go\<close>) and the read buffer of \<open>TcpSvr.runConnRead\<close>
  (\<open>tcp_server.go\<close>).  The header length and the function that reads the body length are parameters,
  as in the code; the gateway uses them with the header of \<open>cs_packet.go\<close>.
\<close>

record TcpPacketInfo =
  tpHeaderLen :: nat
  tpBodyLen :: "bytes \<Rightarrow> int"

text \<open>The loop of \<open>OnRead\<close>: the bytes consumed, the packets handed to the handler and whether the
  connection was closed because of an invalid header.\<close>

partial_function (option) OnRead_loop ::
  "TcpPacketInfo \<Rightarrow> bytes \<Rightarrow> nat \<Rightarrow> bytes list \<Rightarrow> (nat \<times> bytes list \<times> bool) option" where
  "OnRead_loop pinfo data consumed packets =
     (if length data \<ge> consumed + tpHeaderLen pinfo then
        (if tpBodyLen pinfo (take (tpHeaderLen pinfo) (drop consumed data)) < 0
         then Some (length data, packets, True)
         else if length data \<ge> consumed + tpHeaderLen pinfo
                   + nat (tpBodyLen pinfo (take (tpHeaderLen pinfo) (drop consumed data)))
         then OnRead_loop pinfo data
                (consumed + (tpHeaderLen pinfo
                   + nat (tpBodyLen pinfo (take (tpHeaderLen pinfo) (drop consumed data)))))
                (packets @ [take (tpHeaderLen pinfo
                   + nat (tpBodyLen pinfo (take (tpHeaderLen pinfo) (drop consumed data))))
                   (drop consumed data)])
         else Some (consumed, packets, False))
      else Some (consumed, packets, False))"

definition OnRead :: "TcpPacketInfo \<Rightarrow> bytes \<Rightarrow> (nat \<times> bytes list \<times> bool) option" where
  "OnRead pinfo data = OnRead_loop pinfo data 0 []"

text \<open>\<open>OnRead2\<close> has a four-byte length and hands on the body only.\<close>

definition len4_info :: TcpPacketInfo where
  "len4_info = \<lparr>tpHeaderLen = 4, tpBodyLen = (\<lambda>h. uint (Uint32 h))\<rparr>"

definition OnRead2 :: "bytes \<Rightarrow> (nat \<times> bytes list) option" where
  "OnRead2 data = (case OnRead_loop len4_info data 0 [] of
      None \<Rightarrow> None
    | Some (n, packets, _) \<Rightarrow> Some (n, map (drop 4) packets))"

text \<open>One connection: the unread rest, the packets delivered so far, and closed.\<close>

record TcpConn =
  buff :: bytes
  delivered :: "bytes list"
  connClosed :: bool

definition new_conn :: TcpConn where
  "new_conn = \<lparr>buff = [], delivered = [], connClosed = False\<rparr>"

definition conn_read :: "TcpPacketInfo \<Rightarrow> TcpConn \<Rightarrow> bytes \<Rightarrow> TcpConn option" where
  "conn_read pinfo c chunk =
     (if connClosed c then Some c
      else let data = buff c @ chunk in
        case OnRead pinfo data of
          None \<Rightarrow> None
        | Some (consumedLen, packets, cl) \<Rightarrow>
            Some \<lparr>buff = (if consumedLen > 0 then drop consumedLen data else data),
                  delivered = delivered c @ packets, connClosed = cl\<rparr>)"

fun runConnRead :: "TcpPacketInfo \<Rightarrow> TcpConn \<Rightarrow> bytes list \<Rightarrow> TcpConn option" where
  "runConnRead pinfo c [] = Some c"
| "runConnRead pinfo c (chunk # cs) = (case conn_read pinfo c chunk of
      None \<Rightarrow> None
    | Some c' \<Rightarrow> runConnRead pinfo c' cs)"

section \<open>The stream as a sequence of frames\<close>

text \<open>\<open>framing pinfo d fs r cl\<close>: the bytes \<open>d\<close> are the frames \<open>fs\<close>, then the rest \<open>r\<close>, which is an
  incomplete frame, or nothing when an invalid header follows the frames (\<open>cl\<close>).\<close>

inductive framing ::
  "TcpPacketInfo \<Rightarrow> bytes \<Rightarrow> bytes list \<Rightarrow> bytes \<Rightarrow> bool \<Rightarrow> bool" for pinfo where
  short: "length d < tpHeaderLen pinfo \<Longrightarrow> framing pinfo d [] d False"
| partial: "length d \<ge> tpHeaderLen pinfo \<Longrightarrow> 0 \<le> tpBodyLen pinfo (take (tpHeaderLen pinfo) d)
     \<Longrightarrow> length d < tpHeaderLen pinfo + nat (tpBodyLen pinfo (take (tpHeaderLen pinfo) d))
     \<Longrightarrow> framing pinfo d [] d False"
| invalid: "length d \<ge> tpHeaderLen pinfo \<Longrightarrow> tpBodyLen pinfo (take (tpHeaderLen pinfo) d) < 0
     \<Longrightarrow> framing pinfo d [] [] True"
| frame: "length d \<ge> tpHeaderLen pinfo \<Longrightarrow> 0 \<le> tpBodyLen pinfo (take (tpHeaderLen pinfo) d)
     \<Longrightarrow> n = tpHeaderLen pinfo + nat (tpBodyLen pinfo (take (tpHeaderLen pinfo) d))
     \<Longrightarrow> n \<le> length d \<Longrightarrow> framing pinfo (drop n d) fs r cl
     \<Longrightarrow> framing pinfo d (take n d # fs) r cl"

lemma framing_exists:
  assumes "0 < tpHeaderLen pinfo"
  shows "\<exists>fs r cl. framing pinfo d fs r cl"
proof (induction d rule: length_induct)
  case (1 d)
  let ?h = "tpHeaderLen pinfo"
  let ?b = "tpBodyLen pinfo (take ?h d)"
  show ?case
  proof (cases "length d \<ge> ?h \<and> 0 \<le> ?b \<and> ?h + nat ?b \<le> length d")
    case True
    with 1 assms obtain fs r cl where "framing pinfo (drop (?h + nat ?b) d) fs r cl"
      by (metis (no_types, lifting) add_gr_0 diff_less length_drop less_le_trans)
    with True show ?thesis by (blast intro: framing.frame)
  qed (metis framing.short framing.partial framing.invalid not_le)
qed

text \<open>The loop computes the framing of what is left.\<close>

lemma OnRead_loop_framing:
  assumes "framing pinfo d fs r cl"
    and "consumed \<le> length data" and "d = drop consumed data"
  shows "\<exists>n. OnRead_loop pinfo data consumed packets = Some (n, packets @ fs, cl)
     \<and> n \<le> length data \<and> drop n data = r"
  using assms
proof (induction arbitrary: consumed packets)
  case (short d)
  then show ?case by (subst OnRead_loop.simps) auto
next
  case (partial d)
  then show ?case by (subst OnRead_loop.simps) auto
next
  case (invalid d)
  then show ?case by (subst OnRead_loop.simps) auto
next
  case (frame d n fs r cl)
  have "drop n d = drop (consumed + n) data" "consumed + n \<le> length data"
    using frame by (auto simp: add.commute)
  with frame.IH [of "consumed + n" "packets @ [take n d]"]
  have "\<exists>m. OnRead_loop pinfo data (consumed + n) (packets @ [take n d]) = Some (m, (packets @ [take n d]) @ fs, cl)
     \<and> m \<le> length data \<and> drop m data = r" by blast
  then show ?case
    using frame.hyps frame.prems by (subst OnRead_loop.simps) auto
qed

lemma framing_extend:
  assumes "framing pinfo d1 fs1 r1 cl1" and "\<not> cl1" and "framing pinfo (r1 @ d2) fs2 r2 cl2"
  shows "framing pinfo (d1 @ d2) (fs1 @ fs2) r2 cl2"
  using assms
proof (induction rule: framing.induct)
  case (frame d n fs r cl)
  let ?h = "tpHeaderLen pinfo"
  have "framing pinfo (drop n d @ d2) (fs @ fs2) r2 cl2" using frame by blast
  moreover have "drop n d @ d2 = drop n (d @ d2)" "take n (d @ d2) = take n d" "take ?h (d @ d2) = take ?h d"
    using frame.hyps by simp_all
  ultimately show ?case
    using frame.hyps framing.frame [of pinfo "d @ d2" n "fs @ fs2" r2 cl2] by simp
qed simp_all

lemma framing_closed_extend:
  assumes "framing pinfo d1 fs1 r1 True"
  shows "framing pinfo (d1 @ d2) fs1 [] True"
  using assms
proof (induction d1 fs1 r1 True rule: framing.induct)
  case (invalid d)
  then show ?case by (intro framing.invalid) auto
next
  case (frame d n fs r)
  let ?h = "tpHeaderLen pinfo"
  have "drop n d @ d2 = drop n (d @ d2)" "take n (d @ d2) = take n d" "take ?h (d @ d2) = take ?h d"
    using frame.hyps by simp_all
  then show ?case
    using frame framing.frame [of pinfo "d @ d2" n "fs" "[]" True] by simp
qed simp_all

lemma framing_rest_rest: "framing pinfo d fs r cl \<Longrightarrow> \<not> cl \<Longrightarrow> framing pinfo r [] r False"
  by (induction rule: framing.induct) (auto intro: framing.short framing.partial)

lemma framing_closed_rest: "framing pinfo d fs r True \<Longrightarrow> r = []"
  by (induction d fs r True rule: framing.induct) simp_all

lemma framing_concat: "framing pinfo d fs r False \<Longrightarrow> concat fs @ r = d"
  by (induction d fs r False rule: framing.induct) simp_all

lemma framing_det:
  assumes "framing pinfo d fs r cl" and "framing pinfo d fs' r' cl'"
  shows "fs' = fs \<and> r' = r \<and> cl' = cl"
  using OnRead_loop_framing [OF assms(1), of 0 d "[]"] OnRead_loop_framing [OF assms(2), of 0 d "[]"]
  by auto

text \<open>After any sequence of reads the connection is in the state of the framing of all that came.\<close>

definition conn_of :: "TcpPacketInfo \<Rightarrow> bytes \<Rightarrow> TcpConn \<Rightarrow> bool" where
  "conn_of pinfo d c \<longleftrightarrow> framing pinfo d (delivered c) (buff c) (connClosed c)"

lemma conn_of_fun: "conn_of pinfo d c \<Longrightarrow> conn_of pinfo d c' \<Longrightarrow> c = c'"
  unfolding conn_of_def using framing_det by (cases c; cases c') (auto dest: framing_det)

lemma conn_read_framing:
  assumes "0 < tpHeaderLen pinfo" and "conn_of pinfo d c"
  shows "\<exists>c'. conn_read pinfo c chunk = Some c' \<and> conn_of pinfo (d @ chunk) c'"
proof (cases "connClosed c")
  case True
  then show ?thesis
    using assms(2) framing_closed_extend framing_closed_rest
    unfolding conn_of_def conn_read_def by (metis (full_types))
next
  case False
  obtain fs r cl where f: "framing pinfo (buff c @ chunk) fs r cl"
    using framing_exists [OF assms(1)] by blast
  then obtain n where n: "OnRead pinfo (buff c @ chunk) = Some (n, fs, cl)"
      "drop n (buff c @ chunk) = r"
    using OnRead_loop_framing [OF f, of 0 "buff c @ chunk" "[]"] by (auto simp: OnRead_def)
  then have "conn_read pinfo c chunk = Some \<lparr>buff = r, delivered = delivered c @ fs, connClosed = cl\<rparr>"
    using False by (auto simp: conn_read_def Let_def)
  moreover have "framing pinfo (d @ chunk) (delivered c @ fs) r cl"
    using framing_extend [OF _ _ f] assms(2) False unfolding conn_of_def by blast
  ultimately show ?thesis by (simp add: conn_of_def)
qed

lemma runConnRead_framing:
  assumes "0 < tpHeaderLen pinfo" and "conn_of pinfo d c"
  shows "\<exists>c'. runConnRead pinfo c cs = Some c' \<and> conn_of pinfo (d @ concat cs) c'"
  using assms(2)
proof (induction cs arbitrary: d c)
  case (Cons chunk cs)
  obtain c1 where "conn_read pinfo c chunk = Some c1" "conn_of pinfo (d @ chunk) c1"
    using conn_read_framing [OF assms(1) Cons.prems] by blast
  with Cons.IH [of "d @ chunk" c1] show ?case by simp
qed simp

lemma new_conn_of: "0 < tpHeaderLen pinfo \<Longrightarrow> conn_of pinfo [] new_conn"
  by (simp add: conn_of_def new_conn_def framing.short)

text \<open>C7: How the network cuts the stream into reads does not matter: for every two ways to cut the
  same bytes, the loop of every read ends, and the handler gets the same packets, the connection is
  closed or not, and the same bytes stay buffered.\<close>

theorem framing_chunking_invariant:
  assumes "0 < tpHeaderLen pinfo" and "concat chunks = concat chunks'"
  shows "\<exists>c. runConnRead pinfo new_conn chunks = Some c \<and> runConnRead pinfo new_conn chunks' = Some c"
  using runConnRead_framing [OF assms(1) new_conn_of [OF assms(1)], of chunks]
    runConnRead_framing [OF assms(1) new_conn_of [OF assms(1)], of chunks'] assms(2)
  by (metis append_Nil conn_of_fun)

section \<open>The packets of the gateway\<close>

definition cs_packet_info :: TcpPacketInfo where
  "cs_packet_info = \<lparr>tpHeaderLen = ByteLenOfCSPacketHeader, tpBodyLen = ByteLenOfCSPacketBody\<rparr>"

text \<open>A packet as a client writes it: the header with the length of the body, at most 4 MiB.\<close>

definition cs_packet :: "CSPacketHeader \<times> bytes \<Rightarrow> bytes" where
  "cs_packet p = CSPacketHeader_ToBytes (fst p) @ snd p"

definition cs_packet_ok :: "CSPacketHeader \<times> bytes \<Rightarrow> bool" where
  "cs_packet_ok p \<longleftrightarrow> uint (csBodyLen (fst p)) = int (length (snd p))
     \<and> int (length (snd p)) \<le> MaxByteLenOfCSPacketBody"

lemma cs_framing:
  assumes "\<forall>p\<in>set ps. cs_packet_ok p"
  shows "framing cs_packet_info (concat (map cs_packet ps)) (map cs_packet ps) [] False"
  using assms
proof (induction ps)
  case Nil
  then show ?case
    by (simp add: framing.short cs_packet_info_def ByteLenOfCSPacketHeader_def)
next
  case (Cons p ps)
  let ?d = "concat (map cs_packet (p # ps))"
  let ?n = "28 + length (snd p)"
  have body: "ByteLenOfCSPacketBody (take 28 ?d) = int (length (snd p))"
    using Cons.prems ByteLenOfCSPacketBody_layout [of "fst p" "[]"]
    by (simp add: cs_packet_def CSPacketHeader_ToBytes_layout cs_packet_ok_def)
  have cut: "take ?n ?d = cs_packet p" "drop ?n ?d = concat (map cs_packet ps)"
    and len: "28 \<le> length ?d" "?n \<le> length ?d"
    by (simp_all add: cs_packet_def CSPacketHeader_ToBytes_layout)
  have rest: "framing cs_packet_info (drop ?n ?d) (map cs_packet ps) [] False"
    unfolding cut using Cons by simp
  have pinfo: "tpHeaderLen cs_packet_info = 28" "tpBodyLen cs_packet_info = ByteLenOfCSPacketBody"
    by (simp_all add: cs_packet_info_def ByteLenOfCSPacketHeader_def)
  have "framing cs_packet_info ?d (take ?n ?d # map cs_packet ps) [] False"
    by (rule framing.frame [OF _ _ _ _ rest]) (simp_all only: pinfo body len of_nat_0_le_iff nat_int)
  then show ?case unfolding cut by simp
qed

text \<open>C8: The gateway delivers exactly the packets that a client sends, each whole and in order,
  however the stream is cut, and keeps nothing back.\<close>

theorem cs_stream_delivered:
  assumes "\<forall>p\<in>set ps. cs_packet_ok p" and "concat chunks = concat (map cs_packet ps)"
  shows "runConnRead cs_packet_info new_conn chunks
     = Some \<lparr>buff = [], delivered = map cs_packet ps, connClosed = False\<rparr>"
proof -
  have pos: "0 < tpHeaderLen cs_packet_info"
    by (simp add: cs_packet_info_def ByteLenOfCSPacketHeader_def)
  have "conn_of cs_packet_info (concat chunks) \<lparr>buff = [], delivered = map cs_packet ps, connClosed = False\<rparr>"
    using cs_framing [OF assms(1)] assms(2) by (simp add: conn_of_def)
  then show ?thesis
    using runConnRead_framing [OF pos new_conn_of [OF pos], of chunks] conn_of_fun by fastforce
qed

definition sample_cs_packets :: "(CSPacketHeader \<times> bytes) list" where
  "sample_cs_packets =
     [(\<lparr>csVersion = 1, csPassCode = 2, csSeq = 3, csUid = 4, csAppVersion = 5, csCmd = 6, csBodyLen = 2\<rparr>,
       [7, 8]),
      (\<lparr>csVersion = 1, csPassCode = 2, csSeq = 4, csUid = 4, csAppVersion = 5, csCmd = 6, csBodyLen = 0\<rparr>,
       [])]"

lemma sample_cs_ok: "\<forall>p\<in>set sample_cs_packets. cs_packet_ok p"
  by (simp add: sample_cs_packets_def cs_packet_ok_def MaxByteLenOfCSPacketBody_def)

theorem framing_chunking_invariant_witness:
  "\<exists>c. runConnRead cs_packet_info new_conn [take 5 (concat (map cs_packet sample_cs_packets)),
        drop 5 (concat (map cs_packet sample_cs_packets))] = Some c
     \<and> runConnRead cs_packet_info new_conn [concat (map cs_packet sample_cs_packets)] = Some c"
  by (rule framing_chunking_invariant)
     (simp_all only: concat.simps append_Nil2 append_take_drop_id cs_packet_info_def
      TcpPacketInfo.simps ByteLenOfCSPacketHeader_def zero_less_numeral)

theorem cs_stream_delivered_witness:
  "runConnRead cs_packet_info new_conn
     [take 20 (concat (map cs_packet sample_cs_packets)), drop 20 (concat (map cs_packet sample_cs_packets))]
   = Some \<lparr>buff = [], delivered = map cs_packet sample_cs_packets, connClosed = False\<rparr>"
  using cs_stream_delivered [OF sample_cs_ok,
      of "[take 20 (concat (map cs_packet sample_cs_packets)), drop 20 (concat (map cs_packet sample_cs_packets))]"]
  by (simp only: concat.simps append_Nil2 append_take_drop_id simp_thms)

end
