(* ===== verification/TransMgr.thy ===== *)
theory TransMgr
  imports SsPacket
begin

text \<open>
  The transaction manager (\<open>lib/service/transaction\<close>): configuration, registration of command
  handlers, the choice of a shard, the shard's handling of packets and of finished transactions with
  its per-key serialisation, and the parts of a transaction that decide something (deadline of a
  downstream call, matching of a response).  A handler runs in its own goroutine; the model has its
  start and the moment its shard sees it return.  Times are milliseconds.
\<close>

section \<open>Configuration (transaction_config.go)\<close>

record TransactionMgrConfig =
  MaxTrans :: int
  ShardCount :: int
  MaxPendingPerKey :: int

definition DefaultMaxPendingPerKey :: int where "DefaultMaxPendingPerKey = 100"

text \<open>\<open>procs\<close> is \<open>runtime.GOMAXPROCS(0)\<close>.\<close>

definition DefaultShardCount :: "int \<Rightarrow> int" where
  "DefaultShardCount procs = (if procs \<le> 0 then 1 else if procs > 32 then 32 else procs)"

definition normalizeConfig :: "int \<Rightarrow> TransactionMgrConfig \<Rightarrow> TransactionMgrConfig" where
  "normalizeConfig procs cfg =
     (let cfg = (if MaxTrans cfg \<le> 0 then cfg\<lparr>MaxTrans := 1\<rparr> else cfg);
          cfg = (if ShardCount cfg \<le> 0 then cfg\<lparr>ShardCount := DefaultShardCount procs\<rparr> else cfg);
          cfg = (if ShardCount cfg \<le> 0 then cfg\<lparr>ShardCount := 1\<rparr> else cfg)
      in if MaxPendingPerKey cfg \<le> 0 then cfg\<lparr>MaxPendingPerKey := DefaultMaxPendingPerKey\<rparr> else cfg)"

definition perShardBufferSize :: "int \<Rightarrow> int \<Rightarrow> int" where
  "perShardBufferSize maxTrans shardCount =
     (if shardCount \<le> 0 then 1
      else let size = maxTrans div shardCount;
               size = (if maxTrans mod shardCount \<noteq> 0 then size + 1 else size)
           in if size \<le> 0 then 1 else size)"

section \<open>State (transaction_mgr_impl.go)\<close>

record Transaction =
  OriPacketHeader :: SSPacketHeader
  transID :: "32 word"
  sendSeq :: "16 word"
  chanIn :: "SSPacket list"

definition newTransaction :: "32 word \<Rightarrow> SSPacketHeader \<Rightarrow> Transaction" where
  "newTransaction tid h = \<lparr>OriPacketHeader = h, transID = tid, sendSeq = 0, chanIn = []\<rparr>"

record transactionShard =
  nextTransID :: "32 word"
  transIDStep :: "32 word"
  transMap :: "32 word \<Rightarrow> Transaction option"
  keyInProcess :: "64 word set"
  pendingPackets :: "64 word \<Rightarrow> SSPacket list option"

record TransactionMgr =
  started :: bool
  cmdHandlers :: "32 word set"
  config :: TransactionMgrConfig
  useSerialKey :: bool
  maxTransNum :: int
  shards :: "transactionShard list"
  roundRobin :: "32 word"
  activeTransactions :: int
  pendingCount :: int
  droppedPackets :: int
  closing :: bool

definition new_mgr :: TransactionMgr where
  "new_mgr = \<lparr>started = False, cmdHandlers = {},
     config = \<lparr>MaxTrans = 0, ShardCount = 0, MaxPendingPerKey = 0\<rparr>, useSerialKey = False,
     maxTransNum = 0, shards = [], roundRobin = 0, activeTransactions = 0, pendingCount = 0,
     droppedPackets = 0, closing = False\<rparr>"

definition new_shard :: "int \<Rightarrow> nat \<Rightarrow> transactionShard" where
  "new_shard shardCount i = \<lparr>nextTransID = word_of_nat (i + 1), transIDStep = word_of_int shardCount,
     transMap = Map.empty, keyInProcess = {}, pendingPackets = Map.empty\<rparr>"

definition InitAndRunWithConfig ::
  "int \<Rightarrow> TransactionMgrConfig \<Rightarrow> TransactionMgr \<Rightarrow> TransactionMgr" where
  "InitAndRunWithConfig procs cfg m =
     (if started m then m
      else let cfg = normalizeConfig procs cfg
           in m\<lparr>started := True, config := cfg, useSerialKey := True, maxTransNum := MaxTrans cfg,
                shards := map (new_shard (ShardCount cfg)) [0..<nat (ShardCount cfg)]\<rparr>)"

datatype register_error = ErrNilCmdHandler | ErrRegisterAfterStart | ErrDuplicateCmd

text \<open>The handlers are client code; the manager keeps which commands have one.\<close>

definition RegisterCmdE ::
  "TransactionMgr \<Rightarrow> 32 word \<Rightarrow> bool \<Rightarrow> TransactionMgr \<times> register_error option" where
  "RegisterCmdE m cmd handler_nil =
     (if handler_nil then (m, Some ErrNilCmdHandler)
      else if started m then (m, Some ErrRegisterAfterStart)
      else if cmd \<in> cmdHandlers m then (m, Some ErrDuplicateCmd)
      else (m\<lparr>cmdHandlers := insert cmd (cmdHandlers m)\<rparr>, None))"

section \<open>Choosing the shard\<close>

definition serialKeyFromHeader :: "TransactionMgr \<Rightarrow> SSPacketHeader \<Rightarrow> 64 word option" where
  "serialKeyFromHeader m h =
     (if \<not> useSerialKey m then None
      else if RouterID h \<noteq> 0 then Some (RouterID h)
      else if Uid h \<noteq> 0 then Some (Uid h)
      else None)"

definition selectShard :: "TransactionMgr \<Rightarrow> SSPacket \<Rightarrow> TransactionMgr \<times> nat option" where
  "selectShard m packet =
     (let n = length (shards m); h = Header packet in
      if n = 0 then (m, None)
      else if n = 1 then (m, Some 0)
      else if DstTransID h \<noteq> 0 then (m, Some (unat (DstTransID h - 1) mod n))
      else case serialKeyFromHeader m h of
        Some key \<Rightarrow> (m, Some (unat key mod n))
      | None \<Rightarrow> (let nxt = roundRobin m + 1
                 in (m\<lparr>roundRobin := nxt\<rparr>, Some (unat (nxt - 1) mod n))))"

definition tryAcquireTransSlot :: "TransactionMgr \<Rightarrow> TransactionMgr option" where
  "tryAcquireTransSlot m =
     (if activeTransactions m \<ge> maxTransNum m then None
      else Some (m\<lparr>activeTransactions := activeTransactions m + 1\<rparr>))"

definition releaseTransSlot :: "TransactionMgr \<Rightarrow> TransactionMgr" where
  "releaseTransSlot m = m\<lparr>activeTransactions := activeTransactions m - 1\<rparr>"

definition onPacketDropped :: "TransactionMgr \<Rightarrow> TransactionMgr" where
  "onPacketDropped m = m\<lparr>droppedPackets := droppedPackets m + 1\<rparr>"

definition onPendingPacketAdded :: "TransactionMgr \<Rightarrow> TransactionMgr" where
  "onPendingPacketAdded m = m\<lparr>pendingCount := pendingCount m + 1\<rparr>"

definition onPendingPacketRemoved :: "TransactionMgr \<Rightarrow> TransactionMgr" where
  "onPendingPacketRemoved m = m\<lparr>pendingCount := pendingCount m - 1\<rparr>"

section \<open>The shard\<close>

text \<open>A shard works on its own state and on the manager's counters.  The result code is that of
  the source; the last component is the transaction that was started.\<close>

type_synonym shard_result =
  "TransactionMgr \<times> transactionShard \<times> int \<times> (32 word \<times> SSPacket) option"

definition start_transaction ::
  "TransactionMgr \<Rightarrow> transactionShard \<Rightarrow> SSPacket \<Rightarrow> 64 word option \<Rightarrow> shard_result" where
  "start_transaction m s packet key =
     (let tid = nextTransID s in
      (m, s\<lparr>nextTransID := nextTransID s + transIDStep s,
            transMap := (transMap s)(tid \<mapsto> newTransaction tid (Header packet)),
            keyInProcess := (case key of Some k \<Rightarrow> insert k (keyInProcess s) | None \<Rightarrow> keyInProcess s)\<rparr>,
       0, Some (tid, packet)))"

definition processSSPacket ::
  "int \<Rightarrow> bool \<Rightarrow> TransactionMgr \<Rightarrow> transactionShard \<Rightarrow> SSPacket \<Rightarrow> shard_result" where
  "processSSPacket nowMs room_later m s packet =
     (let h = Header packet; dst = DstTransID h in
      if dst \<noteq> 0 then
        (case transMap s dst of
           None \<Rightarrow> (m, s, - 3, None)
         | Some tr \<Rightarrow>
             (case SendToChan 1 (chanIn tr) room_later packet of
                (ch, False) \<Rightarrow> (m, s, - 4, None)
              | (ch, True) \<Rightarrow> (m, s\<lparr>transMap := (transMap s)(dst \<mapsto> tr\<lparr>chanIn := ch\<rparr>)\<rparr>, 0, None)))
      else if DeadlineExceeded h nowMs then (onPacketDropped m, s, - 6, None)
      else let key = serialKeyFromHeader m h in
        if (case key of Some k \<Rightarrow> k \<in> keyInProcess s | None \<Rightarrow> False) then
          (let k = the key; packets = (case pendingPackets s k of Some ps \<Rightarrow> ps | None \<Rightarrow> []) in
           if int (length packets) \<ge> MaxPendingPerKey (config m) then (onPacketDropped m, s, - 1, None)
           else (onPendingPacketAdded m,
                 s\<lparr>pendingPackets := (pendingPackets s)(k \<mapsto> packets @ [packet])\<rparr>, 0, None))
        else if Cmd h \<notin> cmdHandlers m then (m, s, - 2, None)
        else case tryAcquireTransSlot m of
          None \<Rightarrow> (m, s, - 5, None)
        | Some m1 \<Rightarrow> start_transaction m1 s packet key)"

text \<open>A finished transaction: \<^const>\<open>None\<close> in the last component when no queued packet follows.\<close>

definition processTransactionRet ::
  "int \<Rightarrow> bool \<Rightarrow> TransactionMgr \<Rightarrow> transactionShard \<Rightarrow> 32 word
   \<Rightarrow> TransactionMgr \<times> transactionShard \<times> (int \<times> (32 word \<times> SSPacket) option) option" where
  "processTransactionRet nowMs room_later m s tid =
     (case transMap s tid of
        None \<Rightarrow> (m, s, None)
      | Some tr \<Rightarrow>
          let s1 = s\<lparr>transMap := (transMap s)(tid := None)\<rparr>;
              m1 = releaseTransSlot m
          in case serialKeyFromHeader m1 (OriPacketHeader tr) of
               None \<Rightarrow> (m1, s1, None)
             | Some k \<Rightarrow>
                 let s2 = s1\<lparr>keyInProcess := keyInProcess s1 - {k}\<rparr> in
                 (case pendingPackets s2 k of
                    None \<Rightarrow> (m1, s2, None)
                  | Some [] \<Rightarrow> (m1, s2\<lparr>pendingPackets := (pendingPackets s2)(k := None)\<rparr>, None)
                  | Some (nextPacket # rest) \<Rightarrow>
                      let s3 = s2\<lparr>pendingPackets :=
                                 (pendingPackets s2)(k := (if rest = [] then None else Some rest))\<rparr>;
                          m2 = onPendingPacketRemoved m1;
                          (m3, s4, code, run) = processSSPacket nowMs room_later m2 s3 nextPacket
                      in (m3, s4, Some (code, run))))"

text \<open>\<open>canStop\<close> also asks for empty channels, the two arguments.\<close>

definition canStop :: "transactionShard \<Rightarrow> 'a list \<Rightarrow> 'b list \<Rightarrow> bool" where
  "canStop s inPackets rets \<longleftrightarrow> inPackets = [] \<and> rets = [] \<and> dom (transMap s) = {}
     \<and> dom (pendingPackets s) = {}"

text \<open>The entry point: the packet is rejected while closing, dropped when there is no shard or its
  queue stays full, and otherwise reaches the shard.\<close>

datatype entry_result = EntryNil | EntryRejected | EntryNoShard | EntryQueueFull nat | EntryQueued nat

definition ProcessSSPacket ::
  "(nat \<Rightarrow> bool) \<Rightarrow> TransactionMgr \<Rightarrow> SSPacket option \<Rightarrow> TransactionMgr \<times> entry_result" where
  "ProcessSSPacket has_room m packet0 = (case packet0 of
      None \<Rightarrow> (m, EntryNil)
    | Some packet \<Rightarrow>
        if closing m \<and> DstTransID (Header packet) = 0 then (m, EntryRejected)
        else case selectShard m packet of
          (m1, None) \<Rightarrow> (m1, EntryNoShard)
        | (m1, Some i) \<Rightarrow>
            if has_room i then (m1, EntryQueued i) else (onPacketDropped m1, EntryQueueFull i))"

section \<open>Executions\<close>

text \<open>What a shard's goroutine does next, with the clock and whether a transaction's channel gets
  room in time.\<close>

datatype shard_op =
  ShardPacket int bool SSPacket
| ShardRet int bool "32 word"

fun exec_on_shard ::
  "TransactionMgr \<Rightarrow> transactionShard \<Rightarrow> shard_op \<Rightarrow> TransactionMgr \<times> transactionShard" where
  "exec_on_shard m s (ShardPacket now room p) =
     (case processSSPacket now room m s p of (m', s', _, _) \<Rightarrow> (m', s'))"
| "exec_on_shard m s (ShardRet now room tid) =
     (case processTransactionRet now room m s tid of (m', s', _) \<Rightarrow> (m', s'))"

text \<open>One step of the manager: shard \<open>i\<close> takes an operation.\<close>

definition exec_mgr :: "TransactionMgr \<Rightarrow> nat \<times> shard_op \<Rightarrow> TransactionMgr" where
  "exec_mgr m a = (let i = fst a in
     if i < length (shards m) then
       (case exec_on_shard m (shards m ! i) (snd a) of (m', s') \<Rightarrow> m'\<lparr>shards := (shards m)[i := s']\<rparr>)
     else m)"

section \<open>The invariant\<close>

abbreviation trans_key :: "TransactionMgr \<Rightarrow> Transaction \<Rightarrow> 64 word option" where
  "trans_key m tr \<equiv> serialKeyFromHeader m (OriPacketHeader tr)"

text \<open>Ids of shard \<open>i\<close> are those with \<open>(id - 1) mod n = i\<close>; \<open>j\<close> bounds how many were given out.\<close>

definition ids_ok :: "nat \<Rightarrow> nat \<Rightarrow> nat \<Rightarrow> transactionShard \<Rightarrow> bool" where
  "ids_ok n i j s \<longleftrightarrow> i < n \<and> transIDStep s = word_of_nat n
     \<and> 0 < unat (nextTransID s) \<and> unat (nextTransID s) \<le> n * Suc j
     \<and> (unat (nextTransID s) - 1) mod n = i
     \<and> (\<forall>tid tr. transMap s tid = Some tr \<longrightarrow> 0 < unat tid \<and> unat tid < unat (nextTransID s)
          \<and> (unat tid - 1) mod n = i \<and> transID tr = tid)"

definition keys_ok :: "TransactionMgr \<Rightarrow> transactionShard \<Rightarrow> bool" where
  "keys_ok m s \<longleftrightarrow>
     (\<forall>k. k \<in> keyInProcess s \<longleftrightarrow> (\<exists>tid tr. transMap s tid = Some tr \<and> trans_key m tr = Some k))
   \<and> (\<forall>tid tid' tr tr' k. transMap s tid = Some tr \<and> transMap s tid' = Some tr'
        \<and> trans_key m tr = Some k \<and> trans_key m tr' = Some k \<longrightarrow> tid = tid')"

definition pending_ok :: "TransactionMgr \<Rightarrow> transactionShard \<Rightarrow> bool" where
  "pending_ok m s \<longleftrightarrow> (\<forall>k ps. pendingPackets s k = Some ps \<longrightarrow>
      ps \<noteq> [] \<and> int (length ps) \<le> MaxPendingPerKey (config m)
    \<and> (\<forall>p\<in>set ps. serialKeyFromHeader m (Header p) = Some k \<and> DstTransID (Header p) = 0))"

definition finite_ok :: "transactionShard \<Rightarrow> bool" where
  "finite_ok s \<longleftrightarrow> finite (dom (transMap s)) \<and> finite (dom (pendingPackets s))"

definition shard_inv :: "nat \<Rightarrow> nat \<Rightarrow> nat \<Rightarrow> TransactionMgr \<Rightarrow> transactionShard \<Rightarrow> bool" where
  "shard_inv n i j m s \<longleftrightarrow> ids_ok n i j s \<and> keys_ok m s \<and> pending_ok m s \<and> finite_ok s"

definition n_active :: "transactionShard \<Rightarrow> int" where
  "n_active s = map_sum (\<lambda>_. 1) (transMap s)"

definition n_pending :: "transactionShard \<Rightarrow> int" where
  "n_pending s = map_sum (\<lambda>ps. int (length ps)) (pendingPackets s)"

text \<open>How an operation of a shard may change the manager: only the counters, and by what changes
  in the shard.\<close>

definition mgr_frame :: "TransactionMgr \<Rightarrow> TransactionMgr \<Rightarrow> bool" where
  "mgr_frame m m' \<longleftrightarrow> config m' = config m \<and> useSerialKey m' = useSerialKey m
     \<and> maxTransNum m' = maxTransNum m \<and> shards m' = shards m \<and> cmdHandlers m' = cmdHandlers m"

definition counted :: "TransactionMgr \<Rightarrow> transactionShard \<Rightarrow> TransactionMgr \<Rightarrow> transactionShard \<Rightarrow> bool" where
  "counted m s m' s' \<longleftrightarrow> mgr_frame m m'
     \<and> activeTransactions m' = activeTransactions m + n_active s' - n_active s
     \<and> pendingCount m' = pendingCount m + n_pending s' - n_pending s
     \<and> (activeTransactions m \<le> maxTransNum m \<longrightarrow> activeTransactions m' \<le> maxTransNum m)"

lemma counted_trans:
  "counted m s m1 s1 \<Longrightarrow> counted m1 s1 m2 s2 \<Longrightarrow> counted m s m2 s2"
  by (auto simp: counted_def mgr_frame_def)

lemma frame_key: "mgr_frame m m' \<Longrightarrow> serialKeyFromHeader m' h = serialKeyFromHeader m h"
  by (simp add: mgr_frame_def serialKeyFromHeader_def)

lemma frame_shard_inv: "mgr_frame m m' \<Longrightarrow> shard_inv n i j m' s = shard_inv n i j m s"
  using frame_key [of m m'] by (simp add: shard_inv_def keys_ok_def pending_ok_def mgr_frame_def)

lemma shard_inv_more: "shard_inv n i j m s \<Longrightarrow> j \<le> j' \<Longrightarrow> shard_inv n i j' m s"
proof -
  assume "j \<le> j'"
  then have "n * Suc j \<le> n * Suc j'" by simp
  then show "shard_inv n i j m s \<Longrightarrow> shard_inv n i j' m s"
    unfolding shard_inv_def ids_ok_def by (meson le_trans)
qed

lemma counted_refl: "mgr_frame m m' \<Longrightarrow> activeTransactions m' = activeTransactions m \<Longrightarrow>
    pendingCount m' = pendingCount m \<Longrightarrow> n_active s' = n_active s \<Longrightarrow> n_pending s' = n_pending s
    \<Longrightarrow> counted m s m' s'"
  by (simp add: counted_def)

section \<open>Preservation by the operations of a shard\<close>

lemma deliver_inv:
  assumes "shard_inv n i j m s" and "transMap s dst = Some tr"
  shows "shard_inv n i j m (s\<lparr>transMap := (transMap s)(dst \<mapsto> tr\<lparr>chanIn := ch\<rparr>)\<rparr>)"
    and "counted m s m (s\<lparr>transMap := (transMap s)(dst \<mapsto> tr\<lparr>chanIn := ch\<rparr>)\<rparr>)"
proof -
  let ?s = "s\<lparr>transMap := (transMap s)(dst \<mapsto> tr\<lparr>chanIn := ch\<rparr>)\<rparr>"
  have fin: "finite (dom (transMap s))" using assms(1) by (simp add: shard_inv_def finite_ok_def)
  have "ids_ok n i j ?s" using assms by (auto simp: shard_inv_def ids_ok_def)
  moreover have "keys_ok m ?s"
  proof -
    have keys: "(\<exists>tid t. transMap ?s tid = Some t \<and> trans_key m t = Some k)
       \<longleftrightarrow> (\<exists>tid t. transMap s tid = Some t \<and> trans_key m t = Some k)" for k
      using assms(2) by (auto split: if_splits) (metis option.inject)
    show ?thesis
      using assms unfolding shard_inv_def keys_ok_def keys
      by (auto split: if_splits)
  qed
  moreover have "pending_ok m ?s" "finite_ok ?s"
    using assms by (auto simp: shard_inv_def pending_ok_def finite_ok_def)
  ultimately show "shard_inv n i j m ?s" by (simp add: shard_inv_def)
  show "counted m s m ?s"
    using assms(2) fin by (auto simp: counted_def mgr_frame_def n_active_def n_pending_def map_sum_upd)
qed

lemma enqueue_inv:
  assumes "shard_inv n i j m s"
    and "serialKeyFromHeader m (Header p) = Some k" and "DstTransID (Header p) = 0"
    and "ps = (case pendingPackets s k of Some ps \<Rightarrow> ps | None \<Rightarrow> [])"
    and "int (length ps) < MaxPendingPerKey (config m)"
  shows "shard_inv n i j m (s\<lparr>pendingPackets := (pendingPackets s)(k \<mapsto> ps @ [p])\<rparr>)"
    and "counted m s (onPendingPacketAdded m) (s\<lparr>pendingPackets := (pendingPackets s)(k \<mapsto> ps @ [p])\<rparr>)"
proof -
  let ?s = "s\<lparr>pendingPackets := (pendingPackets s)(k \<mapsto> ps @ [p])\<rparr>"
  have fin: "finite (dom (pendingPackets s))" using assms(1) by (simp add: shard_inv_def finite_ok_def)
  have old: "\<forall>q\<in>set ps. serialKeyFromHeader m (Header q) = Some k \<and> DstTransID (Header q) = 0"
    using assms(1,4) by (auto simp: shard_inv_def pending_ok_def split: option.splits)
  then have "pending_ok m ?s"
    using assms unfolding shard_inv_def pending_ok_def by auto
  then show "shard_inv n i j m ?s"
    using assms(1) by (auto simp: shard_inv_def ids_ok_def keys_ok_def finite_ok_def)
  show "counted m s (onPendingPacketAdded m) ?s"
    using assms(4) fin
    by (auto simp: counted_def mgr_frame_def onPendingPacketAdded_def n_active_def n_pending_def
        map_sum_upd split: option.splits)
qed

lemma next_id_step:
  assumes "ids_ok n i j s" and "n * Suc (Suc j) < 2 ^ 32"
  shows "unat (nextTransID s + transIDStep s) = unat (nextTransID s) + n"
proof -
  have "unat (word_of_nat n :: 32 word) = n"
    using assms(2) by (simp add: unat_of_nat)
  moreover have "unat (nextTransID s) + n < 2 ^ LENGTH(32)"
    using assms by (simp add: ids_ok_def)
  ultimately show ?thesis
    using assms(1) by (simp add: ids_ok_def unat_add_lem [THEN iffD1])
qed

lemma start_inv:
  assumes inv: "shard_inv n i j m s" and room: "n * Suc (Suc j) < 2 ^ 32"
    and key: "key = serialKeyFromHeader m (Header p)" "\<And>k. key = Some k \<Longrightarrow> k \<notin> keyInProcess s"
    and slot: "tryAcquireTransSlot m = Some m1"
    and res: "start_transaction m1 s p key = (m', s', code, run)"
  shows "shard_inv n i (Suc j) m s' \<and> counted m s m' s'"
proof -
  let ?t = "nextTransID s"
  have m': "m' = m\<lparr>activeTransactions := activeTransactions m + 1\<rparr>" "activeTransactions m < maxTransNum m"
    using slot res by (auto simp: tryAcquireTransSlot_def start_transaction_def Let_def split: if_splits)
  have s': "s' = s\<lparr>nextTransID := ?t + transIDStep s,
      transMap := (transMap s)(?t \<mapsto> newTransaction ?t (Header p)),
      keyInProcess := (case key of Some k \<Rightarrow> insert k (keyInProcess s) | None \<Rightarrow> keyInProcess s)\<rparr>"
    using res by (simp add: start_transaction_def Let_def)
  have ids: "ids_ok n i j s" and keys: "keys_ok m s" and pend: "pending_ok m s" and fin: "finite_ok s"
    using inv by (simp_all add: shard_inv_def)
  have fresh: "transMap s ?t = None"
    using ids unfolding ids_ok_def by (metis less_irrefl not_None_eq)
  have pos: "0 < unat ?t" using ids by (simp add: ids_ok_def)
  then have "unat ?t + n - 1 = (unat ?t - 1) + n" by simp
  then have modn: "(unat ?t + n - 1) mod n = (unat ?t - 1) mod n" by (metis mod_add_self2)
  have less: "unat tid < unat ?t + n" if "transMap s tid = Some tr" for tid tr
    using ids that by (auto simp: ids_ok_def intro: trans_less_add1)
  have "ids_ok n i (Suc j) s'"
    using ids next_id_step [OF ids room] modn pos less
    unfolding s' ids_ok_def newTransaction_def by auto
  moreover have "keys_ok m s'"
    using keys key fresh
    by (auto simp: keys_ok_def s' newTransaction_def split: option.splits if_splits) (metis option.distinct(1))+
  moreover have "pending_ok m s'" "finite_ok s'"
    using pend fin by (simp_all add: s' pending_ok_def finite_ok_def)
  moreover have "counted m s m' s'"
    using fresh fin m'(2)
    by (simp add: counted_def mgr_frame_def m'(1) s' n_active_def n_pending_def map_sum_upd finite_ok_def)
  ultimately show ?thesis by (simp add: shard_inv_def)
qed

lemma counted_drop: "counted m s (onPacketDropped m) s"
  by (simp add: counted_def mgr_frame_def onPacketDropped_def)

lemma counted_same: "counted m s m s"
  by (simp add: counted_def mgr_frame_def)

lemma processSSPacket_inv:
  assumes inv: "shard_inv n i j m s" and room: "n * Suc (Suc j) < 2 ^ 32"
    and res: "processSSPacket now later m s p = (m', s', code, run)"
  shows "shard_inv n i (Suc j) m s' \<and> counted m s m' s'"
proof -
  let ?h = "Header p"
  let ?key = "serialKeyFromHeader m ?h"
  note more = shard_inv_more [OF _ le_SucI [OF le_refl]]
  consider
      (resp) "DstTransID ?h \<noteq> 0"
    | (late) "DstTransID ?h = 0" "DeadlineExceeded ?h now"
    | (busy) k where "DstTransID ?h = 0" "\<not> DeadlineExceeded ?h now" "?key = Some k" "k \<in> keyInProcess s"
    | (free) "DstTransID ?h = 0" "\<not> DeadlineExceeded ?h now" "\<And>k. ?key = Some k \<Longrightarrow> k \<notin> keyInProcess s"
    by blast
  then show ?thesis
  proof cases
    case resp
    then have "s' = s \<and> m' = m \<or> (\<exists>tr ch. transMap s (DstTransID ?h) = Some tr \<and> m' = m
        \<and> s' = s\<lparr>transMap := (transMap s)(DstTransID ?h \<mapsto> tr\<lparr>chanIn := ch\<rparr>)\<rparr>)"
      using res by (auto simp: processSSPacket_def Let_def split: option.splits prod.splits bool.splits)
    then show ?thesis using inv more counted_same deliver_inv by metis
  next
    case late
    then show ?thesis
      using res inv more counted_drop by (auto simp: processSSPacket_def Let_def)
  next
    case (busy k)
    let ?ps = "case pendingPackets s k of Some ps \<Rightarrow> ps | None \<Rightarrow> []"
    show ?thesis
    proof (cases "int (length ?ps) \<ge> MaxPendingPerKey (config m)")
      case True
      then show ?thesis
        using busy res inv more counted_drop by (auto simp: processSSPacket_def Let_def)
    next
      case False
      then have "s' = s\<lparr>pendingPackets := (pendingPackets s)(k \<mapsto> ?ps @ [p])\<rparr>" "m' = onPendingPacketAdded m"
        using busy res by (auto simp: processSSPacket_def Let_def)
      then show ?thesis
        using enqueue_inv [OF inv busy(3,1) refl] False more by simp
    qed
  next
    case free
    then have notbusy: "\<not> (case ?key of Some k \<Rightarrow> k \<in> keyInProcess s | None \<Rightarrow> False)"
      by (auto split: option.splits)
    show ?thesis
    proof (cases "Cmd ?h \<in> cmdHandlers m \<and> tryAcquireTransSlot m \<noteq> None")
      case True
      then obtain m1 where m1: "tryAcquireTransSlot m = Some m1" by blast
      then have "start_transaction m1 s p ?key = (m', s', code, run)"
        using res free notbusy True by (simp add: processSSPacket_def Let_def)
      then show ?thesis using start_inv [OF inv room refl _ m1] free(3) by blast
    next
      case False
      then have "m' = m \<and> s' = s"
        using res free notbusy by (auto simp: processSSPacket_def Let_def split: option.splits if_splits)
      then show ?thesis using inv more counted_same by simp
    qed
  qed
qed

text \<open>A transaction leaves: its entry, its key and its slot are free again.\<close>

definition leave :: "TransactionMgr \<Rightarrow> transactionShard \<Rightarrow> 32 word \<Rightarrow> Transaction \<Rightarrow> transactionShard" where
  "leave m s tid tr = (case trans_key m tr of
      None \<Rightarrow> s\<lparr>transMap := (transMap s)(tid := None)\<rparr>
    | Some k \<Rightarrow> s\<lparr>transMap := (transMap s)(tid := None), keyInProcess := keyInProcess s - {k}\<rparr>)"

lemma leave_simps [simp]:
  "transMap (leave m s tid tr) = (transMap s)(tid := None)"
  "keyInProcess (leave m s tid tr) =
     (case trans_key m tr of Some k \<Rightarrow> keyInProcess s - {k} | None \<Rightarrow> keyInProcess s)"
  "pendingPackets (leave m s tid tr) = pendingPackets s"
  "nextTransID (leave m s tid tr) = nextTransID s" "transIDStep (leave m s tid tr) = transIDStep s"
  by (simp_all add: leave_def split: option.splits)

lemma leave_inv:
  assumes "shard_inv n i j m s" and "transMap s tid = Some tr"
  shows "shard_inv n i j m (leave m s tid tr)" and "counted m s (releaseTransSlot m) (leave m s tid tr)"
proof -
  have ids: "ids_ok n i j s" and keys: "keys_ok m s" and pend: "pending_ok m s" and fin: "finite_ok s"
    using assms(1) by (simp_all add: shard_inv_def)
  have "ids_ok n i j (leave m s tid tr)" using ids by (auto simp: ids_ok_def)
  moreover have "keys_ok m (leave m s tid tr)"
  proof -
    have owned: "(\<exists>t' tr'. ((transMap s)(tid := None)) t' = Some tr' \<and> trans_key m tr' = Some k)
        \<longleftrightarrow> k \<in> keyInProcess s \<and> trans_key m tr \<noteq> Some k" (is "?L \<longleftrightarrow> ?R") for k
    proof
      assume ?L
      then obtain t' tr' where "t' \<noteq> tid" "transMap s t' = Some tr'" "trans_key m tr' = Some k"
        by (auto split: if_splits)
      with keys assms(2) show ?R unfolding keys_ok_def by blast
    next
      assume ?R
      then obtain t' tr' where "transMap s t' = Some tr'" "trans_key m tr' = Some k" "t' \<noteq> tid"
        using keys assms(2) unfolding keys_ok_def by (metis option.inject)
      then show ?L by auto
    qed
    have inproc: "k \<in> keyInProcess (leave m s tid tr) \<longleftrightarrow> k \<in> keyInProcess s \<and> trans_key m tr \<noteq> Some k" for k
      by (auto simp: split: option.splits)
    have table: "transMap (leave m s tid tr) = (transMap s)(tid := None)" by (simp add:)
    have unique: "\<forall>t t' u u' k. ((transMap s)(tid := None)) t = Some u \<and> ((transMap s)(tid := None)) t' = Some u'
        \<and> trans_key m u = Some k \<and> trans_key m u' = Some k \<longrightarrow> t = t'"
      using keys unfolding keys_ok_def by (metis (no_types, lifting) fun_upd_apply option.distinct(1))
    show ?thesis unfolding keys_ok_def table using inproc owned unique by (intro conjI allI) blast+
  qed
  moreover have "pending_ok m (leave m s tid tr)" "finite_ok (leave m s tid tr)"
    using pend fin by (simp_all add: pending_ok_def finite_ok_def)
  ultimately show "shard_inv n i j m (leave m s tid tr)" by (simp add: shard_inv_def)
  show "counted m s (releaseTransSlot m) (leave m s tid tr)"
    using assms(2) fin
    by (simp add: counted_def mgr_frame_def releaseTransSlot_def n_active_def n_pending_def
        map_sum_upd finite_ok_def)
qed

lemma unqueue_inv:
  assumes "shard_inv n i j m s" and "pendingPackets s k = Some (p # rest)"
  shows "shard_inv n i j m (s\<lparr>pendingPackets := (pendingPackets s)(k := (if rest = [] then None else Some rest))\<rparr>)"
    and "counted m s (onPendingPacketRemoved m)
       (s\<lparr>pendingPackets := (pendingPackets s)(k := (if rest = [] then None else Some rest))\<rparr>)"
proof -
  have pend: "pending_ok m s" and fin: "finite_ok s" using assms(1) by (simp_all add: shard_inv_def)
  have "pending_ok m (s\<lparr>pendingPackets := (pendingPackets s)(k := (if rest = [] then None else Some rest))\<rparr>)"
    using pend assms(2) by (fastforce simp: pending_ok_def)
  then show "shard_inv n i j m (s\<lparr>pendingPackets := (pendingPackets s)(k := (if rest = [] then None else Some rest))\<rparr>)"
    using assms(1) by (auto simp: shard_inv_def ids_ok_def keys_ok_def finite_ok_def)
  show "counted m s (onPendingPacketRemoved m)
       (s\<lparr>pendingPackets := (pendingPackets s)(k := (if rest = [] then None else Some rest))\<rparr>)"
    using assms(2) fin
    by (auto simp: counted_def mgr_frame_def onPendingPacketRemoved_def n_active_def n_pending_def
        map_sum_upd finite_ok_def)
qed

lemma processTransactionRet_inv:
  assumes inv: "shard_inv n i j m s" and room: "n * Suc (Suc j) < 2 ^ 32"
    and res: "processTransactionRet now later m s tid = (m', s', out)"
  shows "shard_inv n i (Suc j) m s' \<and> counted m s m' s'"
proof (cases "transMap s tid")
  case None
  then show ?thesis
    using res inv shard_inv_more [OF inv, of "Suc j"] counted_same by (simp add: processTransactionRet_def)
next
  case (Some tr)
  let ?s = "leave m s tid tr" and ?m = "releaseTransSlot m"
  note left = leave_inv [OF inv Some]
  have frame: "mgr_frame m ?m" by (simp add: mgr_frame_def releaseTransSlot_def)
  note key = frame_key [OF frame]
  have inv1: "shard_inv n i j ?m ?s" using left(1) frame_shard_inv [OF frame] by simp
  consider (last) "m' = ?m" "s' = ?s"
    | (next_packet) k p rest where "pendingPackets ?s k = Some (p # rest)"
        "processSSPacket now later (onPendingPacketRemoved ?m)
           (?s\<lparr>pendingPackets := (pendingPackets ?s)(k := (if rest = [] then None else Some rest))\<rparr>) p
         = (m', s', fst (the out), snd (the out))"
    | (empty) k where "pendingPackets ?s k = Some []"
    using res Some
    by (auto simp: processTransactionRet_def Let_def key leave_def split: option.splits list.splits prod.splits)
  then show ?thesis
  proof cases
    case last
    then show ?thesis using left shard_inv_more [of n i j m ?s "Suc j"] by simp
  next
    case (empty k)
    then show ?thesis using left(1) by (auto simp: shard_inv_def pending_ok_def)
  next
    case (next_packet k p rest)
    let ?s2 = "?s\<lparr>pendingPackets := (pendingPackets ?s)(k := (if rest = [] then None else Some rest))\<rparr>"
    let ?m2 = "onPendingPacketRemoved ?m"
    note unq = unqueue_inv [OF inv1 next_packet(1)]
    have frame2: "mgr_frame ?m ?m2" by (simp add: mgr_frame_def onPendingPacketRemoved_def)
    have inv2: "shard_inv n i j ?m2 ?s2" using unq(1) frame_shard_inv [OF frame2] by simp
    from processSSPacket_inv [OF inv2 room next_packet(2)]
    have "shard_inv n i (Suc j) ?m2 s'" "counted ?m2 ?s2 m' s'" by simp_all
    then show ?thesis
      using counted_trans [OF counted_trans [OF left(2) unq(2)]]
        frame_shard_inv [OF frame] frame_shard_inv [OF frame2] by metis
  qed
qed

section \<open>Keys stay in their shard\<close>

definition keys_routed :: "nat \<Rightarrow> nat \<Rightarrow> transactionShard \<Rightarrow> bool" where
  "keys_routed n i s \<longleftrightarrow> (\<forall>k. k \<in> keyInProcess s \<or> pendingPackets s k \<noteq> None \<longrightarrow> unat k mod n = i)"

text \<open>A request comes to the shard that \<open>selectShard\<close> names for it.\<close>

definition routed :: "nat \<Rightarrow> nat \<Rightarrow> TransactionMgr \<Rightarrow> SSPacket \<Rightarrow> bool" where
  "routed n i m p \<longleftrightarrow> (DstTransID (Header p) = 0 \<longrightarrow>
     (\<forall>k. serialKeyFromHeader m (Header p) = Some k \<longrightarrow> unat k mod n = i))"

lemma processSSPacket_routed:
  assumes "keys_routed n i s" and "routed n i m p"
    and "processSSPacket now later m s p = (m', s', code, run)"
  shows "keys_routed n i s'"
  using assms
  by (auto simp: processSSPacket_def start_transaction_def keys_routed_def routed_def Let_def
      split: option.splits if_splits prod.splits bool.splits)

lemma processTransactionRet_routed:
  assumes routed: "keys_routed n i s" and pend: "pending_ok m s"
    and res: "processTransactionRet now later m s tid = (m', s', out)"
  shows "keys_routed n i s'"
proof (cases "transMap s tid")
  case None
  then show ?thesis using res routed by (simp add: processTransactionRet_def)
next
  case (Some tr)
  have key: "serialKeyFromHeader (releaseTransSlot m) h = serialKeyFromHeader m h"
    "serialKeyFromHeader (onPendingPacketRemoved (releaseTransSlot m)) h = serialKeyFromHeader m h" for h
    by (simp_all add: serialKeyFromHeader_def releaseTransSlot_def onPendingPacketRemoved_def)
  let ?m = "onPendingPacketRemoved (releaseTransSlot m)"
  consider (plain) "keys_routed n i s'"
    | (next_packet) k p rest s2 where "pendingPackets s k = Some (p # rest)"
        "s2 = s\<lparr>transMap := (transMap s)(tid := None), keyInProcess := keyInProcess s - {k},
           pendingPackets := (pendingPackets s)(k := (if rest = [] then None else Some rest))\<rparr>"
        "processSSPacket now later ?m s2 p = (m', s', fst (the out), snd (the out))"
    using res Some routed
    by (auto simp: processTransactionRet_def Let_def key keys_routed_def
        split: option.splits list.splits prod.splits)
  then show ?thesis
  proof cases
    case (next_packet k p rest s2)
    have "keys_routed n i s2"
      using routed next_packet(1) unfolding next_packet(2) keys_routed_def by auto
    moreover have "routed n i ?m p"
      using pend routed next_packet(1) unfolding routed_def pending_ok_def keys_routed_def key
      by (metis list.set_intros(1) option.distinct(1) option.inject)
    ultimately show ?thesis using processSSPacket_routed [OF _ _ next_packet(3)] by blast
  qed simp
qed

section \<open>Executions of the manager\<close>

definition mgr_inv :: "nat \<Rightarrow> TransactionMgr \<Rightarrow> bool" where
  "mgr_inv j m \<longleftrightarrow>
     (\<forall>i<length (shards m). shard_inv (length (shards m)) i j m (shards m ! i)
        \<and> keys_routed (length (shards m)) i (shards m ! i))
   \<and> activeTransactions m = sum_list (map n_active (shards m))
   \<and> pendingCount m = sum_list (map n_pending (shards m))
   \<and> activeTransactions m \<le> maxTransNum m"

definition op_routed :: "TransactionMgr \<Rightarrow> nat \<times> shard_op \<Rightarrow> bool" where
  "op_routed m a = (case a of
      (i, ShardPacket now later p) \<Rightarrow> routed (length (shards m)) i m p
    | (i, ShardRet now later tid) \<Rightarrow> True)"

lemma exec_on_shard_inv:
  assumes "shard_inv n i j m s" and "keys_routed n i s" and "n * Suc (Suc j) < 2 ^ 32"
    and "case a of ShardPacket now later p \<Rightarrow> routed n i m p | _ \<Rightarrow> True"
    and "exec_on_shard m s a = (m', s')"
  shows "shard_inv n i (Suc j) m s' \<and> counted m s m' s' \<and> keys_routed n i s'"
proof (cases a)
  case (ShardPacket now later p)
  then obtain code run where "processSSPacket now later m s p = (m', s', code, run)"
    using assms(5) by (auto split: prod.splits)
  then show ?thesis
    using processSSPacket_inv [OF assms(1,3)] processSSPacket_routed [OF assms(2)] assms(4) ShardPacket
    by auto
next
  case (ShardRet now later tid)
  then obtain out where "processTransactionRet now later m s tid = (m', s', out)"
    using assms(5) by (auto split: prod.splits)
  moreover have "pending_ok m s" using assms(1) by (simp add: shard_inv_def)
  ultimately show ?thesis
    using processTransactionRet_inv [OF assms(1,3)] processTransactionRet_routed [OF assms(2)] by blast
qed

lemma exec_mgr_inv:
  assumes inv: "mgr_inv j m" and room: "length (shards m) * Suc (Suc j) < 2 ^ 32"
    and rt: "op_routed m a"
  shows "mgr_inv (Suc j) (exec_mgr m a) \<and> mgr_frame (m\<lparr>shards := shards (exec_mgr m a)\<rparr>) (exec_mgr m a)
     \<and> length (shards (exec_mgr m a)) = length (shards m)"
proof (cases "fst a < length (shards m)")
  case False
  then show ?thesis
    using inv shard_inv_more [of _ _ j m _ "Suc j"]
    by (simp add: exec_mgr_def Let_def mgr_inv_def mgr_frame_def)
next
  case True
  let ?n = "length (shards m)" and ?i = "fst a" and ?s = "shards m ! fst a"
  obtain m1 s1 where res: "exec_on_shard m ?s (snd a) = (m1, s1)" by fastforce
  have "shard_inv ?n ?i j m ?s" "keys_routed ?n ?i ?s" using inv True by (simp_all add: mgr_inv_def)
  moreover have "case snd a of ShardPacket now later p \<Rightarrow> routed ?n ?i m p | _ \<Rightarrow> True"
    using rt by (cases a) (auto simp: op_routed_def split: shard_op.splits)
  ultimately have step: "shard_inv ?n ?i (Suc j) m s1" "counted m ?s m1 s1" "keys_routed ?n ?i s1"
    using exec_on_shard_inv [OF _ _ room _ res] by simp_all
  define m' where "m' = m1\<lparr>shards := (shards m)[?i := s1]\<rparr>"
  have m': "exec_mgr m a = m'" using True res by (simp add: exec_mgr_def Let_def m'_def)
  have frame: "mgr_frame m m1" using step(2) by (simp add: counted_def)
  have same: "shard_inv ?n i k m' s = shard_inv ?n i k m s" for i k s
    using frame_key [OF frame] frame
    by (simp add: shard_inv_def keys_ok_def pending_ok_def m'_def mgr_frame_def serialKeyFromHeader_def)
  have "shard_inv ?n i (Suc j) m' ((shards m)[?i := s1] ! i)
      \<and> keys_routed ?n i ((shards m)[?i := s1] ! i)" if "i < ?n" for i
    using that True inv step shard_inv_more [of ?n i j m "shards m ! i" "Suc j"]
    by (cases "i = ?i") (auto simp: same mgr_inv_def)
  moreover have "activeTransactions m' = sum_list (map n_active ((shards m)[?i := s1]))"
    "pendingCount m' = sum_list (map n_pending ((shards m)[?i := s1]))"
    "activeTransactions m' \<le> maxTransNum m'"
    using inv step(2) frame True
    by (simp_all add: m'_def counted_def mgr_inv_def sum_list_map_update mgr_frame_def)
  ultimately show ?thesis
    using frame unfolding m' by (simp add: mgr_inv_def m'_def mgr_frame_def)
qed

lemma run_mgr_inv:
  assumes "mgr_inv j m" and "length (shards m) * (j + length ops + 2) < 2 ^ 32"
    and "\<forall>a\<in>set ops. op_routed m a"
  shows "mgr_inv (j + length ops) (foldl exec_mgr m ops) \<and> config (foldl exec_mgr m ops) = config m
     \<and> useSerialKey (foldl exec_mgr m ops) = useSerialKey m
     \<and> maxTransNum (foldl exec_mgr m ops) = maxTransNum m
     \<and> length (shards (foldl exec_mgr m ops)) = length (shards m)"
  using assms
proof (induction ops arbitrary: j m)
  case (Cons a ops)
  have "length (shards m) * Suc (Suc j) \<le> length (shards m) * (j + length (a # ops) + 2)"
    by (intro mult_le_mono2) simp
  then have room: "length (shards m) * Suc (Suc j) < 2 ^ 32" using Cons.prems(2) by simp
  note step = exec_mgr_inv [OF Cons.prems(1) room, of a]
  have "op_routed m a" using Cons.prems(3) by simp
  from step [OF this] have
    s: "mgr_inv (Suc j) (exec_mgr m a)" "length (shards (exec_mgr m a)) = length (shards m)"
       "config (exec_mgr m a) = config m" "useSerialKey (exec_mgr m a) = useSerialKey m"
       "maxTransNum (exec_mgr m a) = maxTransNum m"
    by (auto simp: mgr_frame_def)
  have "op_routed (exec_mgr m a) b = op_routed m b" for b
    using s by (auto simp: op_routed_def routed_def serialKeyFromHeader_def split: prod.splits shard_op.splits)
  with Cons.IH [OF s(1)] Cons.prems s show ?case by simp
qed simp

definition init_mgr :: "int \<Rightarrow> TransactionMgrConfig \<Rightarrow> 32 word set \<Rightarrow> TransactionMgr" where
  "init_mgr procs cfg handlers = InitAndRunWithConfig procs cfg (new_mgr\<lparr>cmdHandlers := handlers\<rparr>)"

definition n_shards :: "int \<Rightarrow> TransactionMgrConfig \<Rightarrow> nat" where
  "n_shards procs cfg = nat (ShardCount (normalizeConfig procs cfg))"

lemma normalizeConfig_pos:
  "0 < MaxTrans (normalizeConfig procs cfg)" "0 < ShardCount (normalizeConfig procs cfg)"
  "0 < MaxPendingPerKey (normalizeConfig procs cfg)"
  by (auto simp: normalizeConfig_def Let_def DefaultMaxPendingPerKey_def)

lemma init_mgr_simps:
  "length (shards (init_mgr procs cfg H)) = n_shards procs cfg"
  "i < n_shards procs cfg \<Longrightarrow> shards (init_mgr procs cfg H) ! i = new_shard (int (n_shards procs cfg)) i"
  "config (init_mgr procs cfg H) = normalizeConfig procs cfg"
  "maxTransNum (init_mgr procs cfg H) = MaxTrans (normalizeConfig procs cfg)"
  "useSerialKey (init_mgr procs cfg H)"
  using normalizeConfig_pos(2) [of procs cfg]
  by (simp_all add: init_mgr_def InitAndRunWithConfig_def new_mgr_def n_shards_def Let_def)

lemma init_mgr_inv:
  assumes "n_shards procs cfg * 2 < 2 ^ 32"
  shows "mgr_inv 0 (init_mgr procs cfg H)"
proof -
  let ?n = "n_shards procs cfg" and ?m = "init_mgr procs cfg H"
  have "shard_inv ?n i 0 ?m (new_shard (int ?n) i) \<and> keys_routed ?n i (new_shard (int ?n) i)"
    if "i < ?n" for i
  proof -
    have "unat (word_of_nat (i + 1) :: 32 word) = i + 1"
      using that assms by (subst unat_of_nat) simp
    then show ?thesis
      using that
      by (simp add: shard_inv_def ids_ok_def keys_ok_def pending_ok_def finite_ok_def keys_routed_def
          new_shard_def)
  qed
  moreover have "sum_list (map n_active (shards ?m)) = 0" "sum_list (map n_pending (shards ?m)) = 0"
    using normalizeConfig_pos(2) [of procs cfg]
    by (simp_all add: init_mgr_def InitAndRunWithConfig_def new_mgr_def Let_def new_shard_def
        n_active_def n_pending_def o_def)
  moreover have "activeTransactions ?m = 0" "pendingCount ?m = 0"
    by (simp_all add: init_mgr_def InitAndRunWithConfig_def new_mgr_def Let_def)
  ultimately show ?thesis
    using normalizeConfig_pos(1) [of procs cfg] by (simp add: mgr_inv_def init_mgr_simps)
qed

lemma execution_inv:
  assumes "n_shards procs cfg * (length ops + 2) < 2 ^ 32"
    and "\<forall>a\<in>set ops. op_routed (init_mgr procs cfg H) a"
  shows "mgr_inv (length ops) (foldl exec_mgr (init_mgr procs cfg H) ops)"
    and "config (foldl exec_mgr (init_mgr procs cfg H) ops) = normalizeConfig procs cfg"
    and "useSerialKey (foldl exec_mgr (init_mgr procs cfg H) ops)"
    and "maxTransNum (foldl exec_mgr (init_mgr procs cfg H) ops) = MaxTrans (normalizeConfig procs cfg)"
    and "length (shards (foldl exec_mgr (init_mgr procs cfg H) ops)) = n_shards procs cfg"
proof -
  have "n_shards procs cfg * 2 \<le> n_shards procs cfg * (length ops + 2)" by (intro mult_le_mono2) simp
  then have "mgr_inv 0 (init_mgr procs cfg H)" using assms(1) by (intro init_mgr_inv) simp
  note run = run_mgr_inv [OF this _ assms(2)]
  show "mgr_inv (length ops) (foldl exec_mgr (init_mgr procs cfg H) ops)"
    and "config (foldl exec_mgr (init_mgr procs cfg H) ops) = normalizeConfig procs cfg"
    and "useSerialKey (foldl exec_mgr (init_mgr procs cfg H) ops)"
    and "maxTransNum (foldl exec_mgr (init_mgr procs cfg H) ops) = MaxTrans (normalizeConfig procs cfg)"
    and "length (shards (foldl exec_mgr (init_mgr procs cfg H) ops)) = n_shards procs cfg"
    using run assms(1) by (simp_all add: init_mgr_simps)
qed


text \<open>C10: The response to a transaction in flight reaches the shard that runs it: \<open>selectShard\<close> computes
  the owner from the transaction id alone, and no id in flight is 0, the mark of a request.\<close>

theorem responses_reach_owner:
  assumes "n_shards procs cfg * (length ops + 2) < 2 ^ 32"
    and "\<forall>a\<in>set ops. op_routed (init_mgr procs cfg H) a"
    and "m = foldl exec_mgr (init_mgr procs cfg H) ops"
    and "i < n_shards procs cfg" and "transMap (shards m ! i) tid = Some tr"
    and "DstTransID (Header p) = tid"
  shows "tid \<noteq> 0 \<and> selectShard m p = (m, Some i)"
proof -
  note ex = execution_inv [OF assms(1,2), folded assms(3)]
  have "ids_ok (n_shards procs cfg) i (length ops) (shards m ! i)"
    using ex(1,5) assms(4) by (simp add: mgr_inv_def shard_inv_def)
  then have tid: "0 < unat tid" "(unat tid - 1) mod n_shards procs cfg = i"
    using assms(5) by (auto simp: ids_ok_def)
  then have nz: "tid \<noteq> 0" by auto
  have "unat (tid - 1) = unat tid - 1" using nz by (simp add: unat_minus_one)
  then show ?thesis
    using tid nz assms(4,6) ex(5) by (auto simp: selectShard_def Let_def)
qed

section \<open>Order within a key\<close>

text \<open>A shard with its history: the requests it accepted, those it started a transaction for, and how
  many it took from a queue and then refused.  Between two operations the other shards may set the
  shared counter of active transactions to anything (\<open>act\<close>).\<close>

record shard_history =
  hMgr :: TransactionMgr
  hShard :: transactionShard
  accepted :: "SSPacket list"
  begun :: "SSPacket list"
  lost :: nat

definition begin_run :: "(32 word \<times> SSPacket) option \<Rightarrow> SSPacket list" where
  "begin_run run = (case run of Some (tid, q) \<Rightarrow> [q] | None \<Rightarrow> [])"

fun exec_history :: "shard_history \<Rightarrow> int \<times> shard_op \<Rightarrow> shard_history" where
  "exec_history h (act, ShardPacket now later p) =
     (case processSSPacket now later ((hMgr h)\<lparr>activeTransactions := act\<rparr>) (hShard h) p of
        (m', s', code, run) \<Rightarrow>
          h\<lparr>hMgr := m', hShard := s', begun := begun h @ begin_run run,
            accepted := accepted h @ (if code = 0 \<and> DstTransID (Header p) = 0 then [p] else [])\<rparr>)"
| "exec_history h (act, ShardRet now later tid) =
     (case processTransactionRet now later ((hMgr h)\<lparr>activeTransactions := act\<rparr>) (hShard h) tid of
        (m', s', None) \<Rightarrow> h\<lparr>hMgr := m', hShard := s'\<rparr>
      | (m', s', Some (code, run)) \<Rightarrow>
          h\<lparr>hMgr := m', hShard := s', begun := begun h @ begin_run run,
            lost := lost h + (if code = 0 then 0 else 1)\<rparr>)"

definition of_key :: "TransactionMgr \<Rightarrow> 64 word \<Rightarrow> SSPacket list \<Rightarrow> SSPacket list" where
  "of_key m k ps = filter (\<lambda>p. serialKeyFromHeader m (Header p) = Some k) ps"

definition queue_of :: "transactionShard \<Rightarrow> 64 word \<Rightarrow> SSPacket list" where
  "queue_of s k = (case pendingPackets s k of Some ps \<Rightarrow> ps | None \<Rightarrow> [])"

text \<open>The keys of queued packets, without the bound on their number.\<close>

definition queue_keys :: "TransactionMgr \<Rightarrow> transactionShard \<Rightarrow> bool" where
  "queue_keys m s \<longleftrightarrow> (\<forall>k ps. pendingPackets s k = Some ps \<longrightarrow> ps \<noteq> []
     \<and> (\<forall>p\<in>set ps. serialKeyFromHeader m (Header p) = Some k \<and> DstTransID (Header p) = 0))"

definition fifo_inv :: "bool \<Rightarrow> shard_history \<Rightarrow> bool" where
  "fifo_inv serial h \<longleftrightarrow> useSerialKey (hMgr h) = serial \<and> queue_keys (hMgr h) (hShard h)
     \<and> (lost h = 0 \<longrightarrow>
          (\<forall>k. pendingPackets (hShard h) k \<noteq> None \<longrightarrow> k \<in> keyInProcess (hShard h))
        \<and> (\<forall>k. of_key (hMgr h) k (accepted h)
               = of_key (hMgr h) k (begun h) @ queue_of (hShard h) k))"

lemma key_only_flag: "useSerialKey m' = useSerialKey m \<Longrightarrow> serialKeyFromHeader m' = serialKeyFromHeader m"
  by (rule ext) (simp add: serialKeyFromHeader_def)

lemma of_key_append: "of_key m k (xs @ ys) = of_key m k xs @ of_key m k ys"
  by (simp add: of_key_def)

lemma processSSPacket_flag:
  "processSSPacket now later m s p = (m', s', code, run) \<Longrightarrow> useSerialKey m' = useSerialKey m"
  by (auto simp: processSSPacket_def start_transaction_def Let_def onPacketDropped_def
      onPendingPacketAdded_def tryAcquireTransSlot_def split: if_splits option.splits prod.splits bool.splits)

text \<open>The three outcomes of a request without response address.\<close>

lemma request_cases:
  assumes "processSSPacket now later m s p = (m', s', code, run)" and "DstTransID (Header p) = 0"
  obtains (queued) k where "serialKeyFromHeader m (Header p) = Some k" "k \<in> keyInProcess s"
      "code = 0" "run = None" "s' = s\<lparr>pendingPackets := (pendingPackets s)(k \<mapsto> queue_of s k @ [p])\<rparr>"
    | (running) tid key where "key = serialKeyFromHeader m (Header p)"
      "\<And>k. key = Some k \<Longrightarrow> k \<notin> keyInProcess s" "code = 0" "run = Some (tid, p)"
      "pendingPackets s' = pendingPackets s"
      "keyInProcess s' = (case key of Some k \<Rightarrow> insert k (keyInProcess s) | None \<Rightarrow> keyInProcess s)"
    | (refused) "code \<noteq> 0" "run = None" "s' = s"
proof -
  let ?key = "serialKeyFromHeader m (Header p)"
  let ?busy = "case ?key of Some k \<Rightarrow> k \<in> keyInProcess s | None \<Rightarrow> False"
  consider "DeadlineExceeded (Header p) now"
    | "\<not> DeadlineExceeded (Header p) now" "?busy"
    | "\<not> DeadlineExceeded (Header p) now" "\<not> ?busy" "Cmd (Header p) \<notin> cmdHandlers m \<or> tryAcquireTransSlot m = None"
    | m1 where "\<not> DeadlineExceeded (Header p) now" "\<not> ?busy" "Cmd (Header p) \<in> cmdHandlers m"
        "tryAcquireTransSlot m = Some m1"
    by blast
  then show thesis
  proof cases
    case 1
    then show thesis using assms refused by (simp add: processSSPacket_def Let_def)
  next
    case 2
    then obtain k where k: "?key = Some k" "k \<in> keyInProcess s" by (cases ?key) simp_all
    with 2 assms show thesis
      using refused queued [of k]
      by (cases "int (length (queue_of s k)) \<ge> MaxPendingPerKey (config m)")
         (simp_all add: processSSPacket_def Let_def queue_of_def)
  next
    case 3
    then show thesis
      using assms refused by (cases "Cmd (Header p) \<in> cmdHandlers m") (simp_all add: processSSPacket_def Let_def)
  next
    case (4 m1)
    then have "start_transaction m1 s p ?key = (m', s', code, run)"
      using assms by (simp add: processSSPacket_def Let_def)
    then show thesis
      using running [of ?key "nextTransID s"] 4(2)
      by (auto simp: start_transaction_def Let_def split: option.splits)
  qed
qed

lemma response_cases:
  assumes "processSSPacket now later m s p = (m', s', code, run)" and "DstTransID (Header p) \<noteq> 0"
  shows "run = None \<and> pendingPackets s' = pendingPackets s \<and> keyInProcess s' = keyInProcess s"
  using assms
  by (auto simp: processSSPacket_def Let_def split: option.splits prod.splits bool.splits)

lemma packet_fifo:
  assumes "fifo_inv serial h"
  shows "fifo_inv serial (exec_history h (act, ShardPacket now later p))"
proof -
  let ?m = "(hMgr h)\<lparr>activeTransactions := act\<rparr>" and ?s = "hShard h"
  obtain m' s' code run where res: "processSSPacket now later ?m ?s p = (m', s', code, run)"
    by (metis prod_cases4)
  have keym: "serialKeyFromHeader ?m = serialKeyFromHeader (hMgr h)" by (rule key_only_flag) simp
  have key: "serialKeyFromHeader m' = serialKeyFromHeader (hMgr h)"
    using processSSPacket_flag [OF res] by (intro key_only_flag) simp
  have flag: "useSerialKey m' = serial"
    using processSSPacket_flag [OF res] assms by (simp add: fifo_inv_def)
  have ok: "of_key m' = of_key (hMgr h)" by (intro ext) (simp add: of_key_def key)
  show ?thesis
  proof (cases "DstTransID (Header p) = 0")
    case False
    from response_cases [OF res False] show ?thesis
      using assms False flag
      by (simp add: res fifo_inv_def begin_run_def ok queue_of_def queue_keys_def key)
  next
    case True
    from res True show ?thesis
    proof (cases rule: request_cases)
      case (queued k)
      then show ?thesis
        using assms True flag
        by (auto simp: res fifo_inv_def begin_run_def ok of_key_append queue_of_def queue_keys_def key
            keym of_key_def split: option.splits)
    next
      case (running tid ky)
      then show ?thesis
        using assms True flag
        by (auto simp: res fifo_inv_def begin_run_def ok of_key_append queue_of_def queue_keys_def key
            keym of_key_def split: option.splits)
    next
      case refused
      then show ?thesis
        using assms True flag
        by (simp add: res fifo_inv_def begin_run_def ok queue_keys_def key)
    qed
  qed
qed

text \<open>The outcomes of a returning transaction.\<close>

lemma return_cases:
  assumes "processTransactionRet now later m s tid = (m', s', out)" and "queue_keys m s"
  obtains (unknown) "transMap s tid = None" "m' = m" "s' = s" "out = None"
    | (keyless) tr where "transMap s tid = Some tr" "trans_key m tr = None" "out = None"
      "m' = releaseTransSlot m" "s' = leave m s tid tr"
    | (no_queue) tr k where "transMap s tid = Some tr" "trans_key m tr = Some k" "out = None"
      "pendingPackets s k = None" "m' = releaseTransSlot m" "s' = leave m s tid tr"
    | (queue) tr k p rest code run where "transMap s tid = Some tr" "trans_key m tr = Some k"
      "pendingPackets s k = Some (p # rest)" "out = Some (code, run)"
      "processSSPacket now later (onPendingPacketRemoved (releaseTransSlot m))
         ((leave m s tid tr)\<lparr>pendingPackets :=
            (pendingPackets s)(k := (if rest = [] then None else Some rest))\<rparr>) p = (m', s', code, run)"
proof (cases "transMap s tid")
  case None
  show thesis by (rule unknown) (use assms(1) None in \<open>simp_all add: processTransactionRet_def\<close>)
next
  case (Some tr)
  have flag: "serialKeyFromHeader (releaseTransSlot m) = serialKeyFromHeader m"
    by (rule key_only_flag) (simp add: releaseTransSlot_def)
  show thesis
  proof (cases "trans_key m tr")
    case None
    show thesis
      by (rule keyless [OF Some None])
         (use assms(1) Some None in \<open>simp_all add: processTransactionRet_def Let_def flag leave_def\<close>)
  next
    case key: (Some k)
    show thesis
    proof (cases "pendingPackets s k")
      case None
      show thesis
        by (rule no_queue [OF Some key _ None])
           (use assms(1) Some key None in \<open>simp_all add: processTransactionRet_def Let_def flag leave_def\<close>)
    next
      case q: (Some ps)
      then obtain p rest where ps: "ps = p # rest"
        using assms(2) by (cases ps) (auto simp: queue_keys_def)
      have dom_upd: "(leave m s tid tr)\<lparr>pendingPackets :=
            (pendingPackets s)(k := (if rest = [] then None else Some rest))\<rparr>
          = s\<lparr>transMap := (transMap s)(tid := None), keyInProcess := keyInProcess s - {k},
              pendingPackets := (pendingPackets s)(k := (if rest = [] then None else Some rest))\<rparr>"
        using key by (simp add: leave_def)
      define s2 where "s2 = (leave m s tid tr)\<lparr>pendingPackets :=
            (pendingPackets s)(k := (if rest = [] then None else Some rest))\<rparr>"
      obtain m3 s4 code run where pr: "processSSPacket now later
          (onPendingPacketRemoved (releaseTransSlot m)) s2 p = (m3, s4, code, run)"
        by (metis prod_cases4)
      have "processTransactionRet now later m s tid = (m3, s4, Some (code, run))"
        using Some key q pr
        by (simp add: processTransactionRet_def Let_def flag ps s2_def dom_upd cong: if_cong)
      then show thesis
        using assms(1) pr q by (intro queue [OF Some key, of p rest code run]) (simp_all add: ps s2_def)
    qed
  qed
qed

lemma return_fifo:
  assumes inv: "fifo_inv serial h"
  shows "fifo_inv serial (exec_history h (act, ShardRet now later tid))"
proof -
  let ?m = "(hMgr h)\<lparr>activeTransactions := act\<rparr>" and ?s = "hShard h"
  have keym: "serialKeyFromHeader ?m = serialKeyFromHeader (hMgr h)" by (rule key_only_flag) simp
  have qk: "queue_keys ?m ?s" using inv by (simp add: fifo_inv_def queue_keys_def keym)
  obtain m' s' out where res: "processTransactionRet now later ?m ?s tid = (m', s', out)"
    by (metis prod_cases3)
  have of_m: "of_key (?m) = of_key (hMgr h)" by (intro ext) (simp add: of_key_def keym)
  have rel: "serialKeyFromHeader (releaseTransSlot ?m) = serialKeyFromHeader (hMgr h)"
    "serialKeyFromHeader (onPendingPacketRemoved (releaseTransSlot ?m)) = serialKeyFromHeader (hMgr h)"
    by (rule key_only_flag, simp add: releaseTransSlot_def onPendingPacketRemoved_def)+
  have of_rel: "of_key (releaseTransSlot ?m) = of_key (hMgr h)" by (intro ext) (simp add: of_key_def rel)
  have flag: "useSerialKey (hMgr h) = serial" using inv by (simp add: fifo_inv_def)
  from res qk show ?thesis
  proof (cases rule: return_cases)
    case unknown
    then show ?thesis
      using inv by (simp add: res fifo_inv_def queue_keys_def keym of_m)
  next
    case (keyless tr)
    then show ?thesis
      using inv
      by (simp add: res fifo_inv_def queue_keys_def rel of_rel queue_of_def)
         (simp add: releaseTransSlot_def)
  next
    case (no_queue tr k)
    have "k' \<in> keyInProcess (leave ?m ?s tid tr) \<longleftrightarrow> k' \<in> keyInProcess ?s \<and> k' \<noteq> k" for k'
      using no_queue(2) by simp
    then show ?thesis
      using inv no_queue
      by (auto simp: res fifo_inv_def queue_keys_def rel of_rel queue_of_def)
         (simp_all add: releaseTransSlot_def)
  next
    case (queue tr k p rest code run)
    let ?s2 = "(leave ?m ?s tid tr)\<lparr>pendingPackets :=
       (pendingPackets ?s)(k := (if rest = [] then None else Some rest))\<rparr>"
    note pr = queue(5)
    have dst: "DstTransID (Header p) = 0" and pkey: "serialKeyFromHeader (hMgr h) (Header p) = Some k"
      using qk queue(3) by (auto simp: queue_keys_def keym)
    have inproc: "keyInProcess ?s2 = keyInProcess ?s - {k}"
      using queue(2) by simp
    have key': "serialKeyFromHeader m' = serialKeyFromHeader (hMgr h)"
      using processSSPacket_flag [OF pr]
      by (intro key_only_flag) (simp add: releaseTransSlot_def onPendingPacketRemoved_def)
    have flag': "useSerialKey m' = serial"
      using processSSPacket_flag [OF pr] flag
      by (simp add: releaseTransSlot_def onPendingPacketRemoved_def)
    have ok: "of_key m' = of_key (hMgr h)" by (intro ext) (simp add: of_key_def key')
    have qk2: "queue_keys (hMgr h) ?s2"
      using qk queue(3) by (fastforce simp: queue_keys_def keym)
    from pr dst show ?thesis
    proof (cases rule: request_cases)
      case (queued k')
      then show ?thesis using pkey inproc by (simp add: rel)
    next
      case (running t ky)
      have ky: "ky = Some k" using running(1) pkey rel by simp
      have keys': "keyInProcess s' = insert k (keyInProcess ?s - {k})"
        unfolding running(6) inproc ky by simp
      have pend': "pendingPackets s' = (pendingPackets ?s)(k := (if rest = [] then None else Some rest))"
        using running(5) by simp
      have keys: "queue_keys m' s'" using qk2 unfolding queue_keys_def key' running(5) .
      have q': "queue_of s' k' = (if k' = k then rest else queue_of ?s k')" for k'
        unfolding queue_of_def pend' by (cases "k' = k"; cases rest) simp_all
      have q: "queue_of ?s k = p # rest" using queue(3) by (simp add: queue_of_def)
      have one: "of_key (hMgr h) k' [p] = (if k' = k then [p] else [])" for k'
        using pkey by (simp add: of_key_def)
      have step: "exec_history h (act, ShardRet now later tid)
          = h\<lparr>hMgr := m', hShard := s', begun := begun h @ [p], lost := lost h\<rparr>"
        using running(3,4) queue(4) by (simp add: res begin_run_def)
      have busy: "\<forall>k'. pendingPackets s' k' \<noteq> None \<longrightarrow> k' \<in> keyInProcess s'" if "lost h = 0"
      proof (intro allI impI)
        fix k' assume "pendingPackets s' k' \<noteq> None"
        then have "k' = k \<or> pendingPackets ?s k' \<noteq> None" by (auto simp: pend')
        then show "k' \<in> keyInProcess s'"
          using inv that unfolding fifo_inv_def keys' by blast
      qed
      have order: "\<forall>k'. of_key (hMgr h) k' (accepted h) = of_key (hMgr h) k' (begun h @ [p]) @ queue_of s' k'"
        if "lost h = 0"
      proof
        fix k'
        have "of_key (hMgr h) k' (accepted h) = of_key (hMgr h) k' (begun h) @ queue_of ?s k'"
          using inv that unfolding fifo_inv_def by blast
        then show "of_key (hMgr h) k' (accepted h) = of_key (hMgr h) k' (begun h @ [p]) @ queue_of s' k'"
          using q by (cases "k' = k") (simp_all add: of_key_append one q')
      qed
      show ?thesis
        unfolding step using keys busy order flag' by (simp add: fifo_inv_def ok)
    next
      case refused
      have step: "exec_history h (act, ShardRet now later tid)
          = h\<lparr>hMgr := m', hShard := s', begun := begun h @ [], lost := Suc (lost h)\<rparr>"
        using refused(1,2) queue(4) by (simp add: res begin_run_def)
      have "queue_keys m' s'" using qk2 unfolding queue_keys_def key' refused(3) .
      then show ?thesis unfolding step using flag' by (simp add: fifo_inv_def)
    qed
  qed
qed

lemma exec_history_fifo: "fifo_inv serial h \<Longrightarrow> fifo_inv serial (exec_history h a)"
  by (cases a; cases "snd a") (auto simp only: packet_fifo return_fifo snd_conv)

interpretation fifo: op_invariant exec_history "fifo_inv serial"
  by unfold_locales (rule exec_history_fifo)

definition new_history :: "TransactionMgr \<Rightarrow> transactionShard \<Rightarrow> shard_history" where
  "new_history m s = \<lparr>hMgr = m, hShard = s, accepted = [], begun = [], lost = 0\<rparr>"

text \<open>C11: As long as no packet that left a queue is refused, a shard starts the requests of every
  serial key in exactly the order in which it accepted them: what it started, followed by what is
  still queued, is what it accepted, whatever the other shards do to the shared counter.\<close>

theorem requests_in_order:
  assumes "h = foldl exec_history (new_history m (new_shard c i)) ops" and "lost h = 0"
  shows "of_key m k (accepted h) = of_key m k (begun h) @ queue_of (hShard h) k"
proof -
  have "fifo_inv (useSerialKey m) (new_history m (new_shard c i))"
    by (simp add: fifo_inv_def new_history_def queue_keys_def new_shard_def of_key_def queue_of_def)
  from fifo.run_inv [OF this, of ops] have inv: "fifo_inv (useSerialKey m) h" by (simp add: assms(1))
  then have "serialKeyFromHeader (hMgr h) = serialKeyFromHeader m"
    by (intro key_only_flag) (simp add: fifo_inv_def)
  then have "of_key (hMgr h) = of_key m" by (intro ext) (simp add: of_key_def)
  with inv assms(2) show ?thesis by (simp add: fifo_inv_def)
qed

section \<open>A refused packet strands its queue\<close>

definition is_ret :: "int \<times> shard_op \<Rightarrow> bool" where
  "is_ret a \<longleftrightarrow> (case snd a of ShardRet now later tid \<Rightarrow> True | _ \<Rightarrow> False)"

definition stranded :: "64 word \<Rightarrow> SSPacket list \<Rightarrow> shard_history \<Rightarrow> bool" where
  "stranded k ps h \<longleftrightarrow> queue_keys (hMgr h) (hShard h) \<and> pendingPackets (hShard h) k = Some ps
     \<and> (\<forall>tid tr. transMap (hShard h) tid = Some tr \<longrightarrow> trans_key (hMgr h) tr \<noteq> Some k)"

text \<open>The table after a request that may have been started.\<close>

lemma request_table:
  assumes "processSSPacket now later m s p = (m', s', code, run)" and "DstTransID (Header p) = 0"
    and "transMap s' tid = Some tr"
  shows "transMap s tid = Some tr \<or> OriPacketHeader tr = Header p"
  using assms(1,2)
proof (cases rule: request_cases)
  case (running t ky)
  then have "start_transaction (m\<lparr>activeTransactions := activeTransactions m + 1\<rparr>) s p ky = (m', s', code, run)"
    using assms by (auto simp: processSSPacket_def tryAcquireTransSlot_def Let_def
        split: if_splits option.splits)
  then show ?thesis
    using assms(3) by (auto simp: start_transaction_def newTransaction_def Let_def split: if_splits)
qed (use assms(3) in simp_all)

text \<open>The history only watches.\<close>

lemma exec_history_state:
  "hMgr (exec_history h (act, ShardPacket now later p)) =
     fst (processSSPacket now later ((hMgr h)\<lparr>activeTransactions := act\<rparr>) (hShard h) p)"
  "hShard (exec_history h (act, ShardPacket now later p)) =
     fst (snd (processSSPacket now later ((hMgr h)\<lparr>activeTransactions := act\<rparr>) (hShard h) p))"
  "hMgr (exec_history h (act, ShardRet now later tid)) =
     fst (processTransactionRet now later ((hMgr h)\<lparr>activeTransactions := act\<rparr>) (hShard h) tid)"
  "hShard (exec_history h (act, ShardRet now later tid)) =
     fst (snd (processTransactionRet now later ((hMgr h)\<lparr>activeTransactions := act\<rparr>) (hShard h) tid))"
  by (simp_all split: prod.split option.split)

lemma stranded_return:
  assumes st: "stranded k ps h"
  shows "stranded k ps (exec_history h (act, ShardRet now later tid))"
proof -
  let ?m = "(hMgr h)\<lparr>activeTransactions := act\<rparr>" and ?s = "hShard h"
  have keym: "serialKeyFromHeader ?m = serialKeyFromHeader (hMgr h)" by (rule key_only_flag) simp
  have rel: "serialKeyFromHeader (releaseTransSlot ?m) = serialKeyFromHeader (hMgr h)"
    "serialKeyFromHeader (onPendingPacketRemoved (releaseTransSlot ?m)) = serialKeyFromHeader (hMgr h)"
    by (rule key_only_flag, simp add: releaseTransSlot_def onPendingPacketRemoved_def)+
  have "fifo_inv (useSerialKey (hMgr h)) (h\<lparr>lost := 1\<rparr>)"
    using st by (simp add: fifo_inv_def stranded_def)
  from return_fifo [OF this, of act now later tid]
  have "queue_keys (hMgr (exec_history (h\<lparr>lost := 1\<rparr>) (act, ShardRet now later tid)))
      (hShard (exec_history (h\<lparr>lost := 1\<rparr>) (act, ShardRet now later tid)))"
    unfolding fifo_inv_def by (elim conjE)
  moreover have "hMgr (exec_history (h\<lparr>lost := 1\<rparr>) (act, ShardRet now later tid))
      = hMgr (exec_history h (act, ShardRet now later tid))"
    "hShard (exec_history (h\<lparr>lost := 1\<rparr>) (act, ShardRet now later tid))
      = hShard (exec_history h (act, ShardRet now later tid))"
    unfolding exec_history_state by simp_all
  ultimately have qk': "queue_keys (hMgr (exec_history h (act, ShardRet now later tid)))
      (hShard (exec_history h (act, ShardRet now later tid)))" by simp
  have qk: "queue_keys ?m ?s" using st by (simp add: stranded_def queue_keys_def keym)
  have pend: "pendingPackets ?s k = Some ps" and nokey: "\<And>t tr. transMap ?s t = Some tr \<Longrightarrow> trans_key (hMgr h) tr \<noteq> Some k"
    using st by (auto simp: stranded_def)
  obtain m' s' out where res: "processTransactionRet now later ?m ?s tid = (m', s', out)"
    by (metis prod_cases3)
  have step: "hMgr (exec_history h (act, ShardRet now later tid)) = m'"
    "hShard (exec_history h (act, ShardRet now later tid)) = s'"
    by (simp_all only: exec_history_state res fst_conv snd_conv)
  have "pendingPackets s' k = Some ps \<and> serialKeyFromHeader m' = serialKeyFromHeader (hMgr h)
     \<and> (\<forall>t tr. transMap s' t = Some tr \<longrightarrow> trans_key (hMgr h) tr \<noteq> Some k)"
    using res qk
  proof (cases rule: return_cases)
    case unknown
    then show ?thesis using pend nokey keym by simp
  next
    case (keyless tr)
    then show ?thesis using pend nokey rel by (auto split: if_splits)
  next
    case (no_queue tr k')
    then show ?thesis using pend nokey rel by (auto split: if_splits)
  next
    case (queue tr k' p rest code run)
    note pr = queue(5)
    have k': "k' \<noteq> k" using nokey [OF queue(1)] queue(2) keym by auto
    have dst: "DstTransID (Header p) = 0" and pkey: "serialKeyFromHeader (hMgr h) (Header p) = Some k'"
      using qk queue(3) by (auto simp: queue_keys_def keym)
    have flag: "serialKeyFromHeader m' = serialKeyFromHeader (hMgr h)"
      using processSSPacket_flag [OF pr]
      by (intro key_only_flag) (simp add: releaseTransSlot_def onPendingPacketRemoved_def)
    have "trans_key (hMgr h) u \<noteq> Some k" if "transMap s' t = Some u" for t u
      using request_table [OF pr dst that] nokey pkey k' by (auto split: if_splits)
    moreover from pr dst have "pendingPackets s' k = Some ps"
    proof (cases rule: request_cases)
      case (queued k2)
      then have "k2 = k'" using pkey rel by simp
      then show ?thesis using queued(5) k' pend by simp
    qed (use k' pend in simp_all)
    ultimately show ?thesis using flag by blast
  qed
  then show ?thesis using qk' unfolding stranded_def step by simp
qed

lemma stranded_forever:
  assumes "stranded k ps h" and "\<forall>a\<in>set ops. is_ret a"
  shows "stranded k ps (foldl exec_history h ops)"
  using assms
proof (induction ops arbitrary: h)
  case (Cons a ops)
  obtain act now later tid where "a = (act, ShardRet now later tid)"
    using Cons.prems(2) by (cases a; cases "snd a") (auto simp: is_ret_def)
  then show ?case using Cons stranded_return by simp
qed simp


section \<open>Shutdown, own packets, downstream calls\<close>

text \<open>\<open>stopped\<close>: every shard's goroutine ended before the context did.\<close>

datatype close_error = ErrShutdownTimeout

definition Close :: "bool \<Rightarrow> TransactionMgr \<Rightarrow> TransactionMgr \<times> close_error option" where
  "Close stopped m =
     (if \<not> started m then (m, None)
      else let m = m\<lparr>closing := True\<rparr>
           in if stopped then (m\<lparr>shards := [], started := False\<rparr>, None)
              else (m, Some ErrShutdownTimeout))"

text \<open>The packet of a message to the own process; \<open>data\<close> is the marshalled message.\<close>

definition myself_packet ::
  "32 word \<Rightarrow> 64 word \<Rightarrow> 64 word \<Rightarrow> 32 word \<Rightarrow> 32 word \<Rightarrow> bytes \<Rightarrow> SSPacket" where
  "myself_packet selfBusId rid uid zone cmd data = \<lparr>Header = \<lparr>SrcBusID = selfBusId,
     DstBusID = selfBusId, SrcTransID = 0, DstTransID = 0, Uid = uid, RouterID = rid, Cmd = cmd,
     Zone = zone, Ip = 0, Flag = 0, BodyLen = word_of_nat (length data), CmdSeq = 0,
     TraceID = replicate 16 0, SpanID = replicate 8 0, DeadlineUnixMs = 0\<rparr>, Body = data\<rparr>"

text \<open>Durations and instants in nanoseconds; \<open>now\<close> is the instant of the call, the words are the
  random source of the new ids.\<close>

definition minRPCTimeout :: int where "minRPCTimeout = 50 * 1000000"
definition defaultRPCTimeout :: int where "defaultRPCTimeout = 3 * 1000000000"

definition traceCarrier ::
  "64 word \<Rightarrow> 64 word \<Rightarrow> 64 word \<Rightarrow> int \<Rightarrow> Transaction \<Rightarrow> int \<Rightarrow> TraceContext \<times> int" where
  "traceCarrier r1 r2 r3 now t hopTimeout =
     (let h = OriPacketHeader t;
          traceId = (if \<not> HasTrace h then NewTraceID r2 r3 else TraceID h);
          effective = (case Deadline h of
              None \<Rightarrow> hopTimeout
            | Some deadline \<Rightarrow>
                let remaining = deadline * 1000000 - now;
                    e = (if remaining < hopTimeout then remaining else hopTimeout)
                in if e < minRPCTimeout then minRPCTimeout else e)
      in (\<lparr>tcTraceID = traceId, tcSpanID = NewSpanID r1,
           tcDeadlineUnixMs = word_of_int ((now + effective) div 1000000)\<rparr>, effective))"

text \<open>Waiting for the response to the last request: the timer is restarted after a packet that
  belongs to another request.  \<^const>\<open>None\<close>: still waiting when the events end.\<close>

datatype wait_event = WaitTimeout | WaitPacket SSPacket | WaitClosed
datatype wait_result = RspTimeout | RspClosed | RspBody bytes

fun waitRsp :: "Transaction \<Rightarrow> wait_event list \<Rightarrow> wait_result option" where
  "waitRsp t [] = None"
| "waitRsp t (WaitTimeout # evs) = Some RspTimeout"
| "waitRsp t (WaitClosed # evs) = Some RspClosed"
| "waitRsp t (WaitPacket p # evs) =
     (if CmdSeq (Header p) \<noteq> sendSeq t then waitRsp t evs else Some (RspBody (Body p)))"

lemma waitRsp_body:
  "waitRsp t evs = Some (RspBody b) \<Longrightarrow>
   \<exists>p. WaitPacket p \<in> set evs \<and> CmdSeq (Header p) = sendSeq t \<and> Body p = b"
  by (induction t evs rule: waitRsp.induct) (auto split: if_splits)

lemma traceCarrier_timeout:
  assumes "minRPCTimeout \<le> hop"
  shows "minRPCTimeout \<le> snd (traceCarrier r1 r2 r3 now t hop)
     \<and> snd (traceCarrier r1 r2 r3 now t hop) \<le> hop
     \<and> (\<forall>d. Deadline (OriPacketHeader t) = Some d \<longrightarrow>
          now + snd (traceCarrier r1 r2 r3 now t hop) \<le> max (d * 1000000) (now + minRPCTimeout))"
  using assms by (auto simp: traceCarrier_def Let_def split: option.splits)

text \<open>A shard's invariant along its history, for its own operations.\<close>

lemma exec_history_shard_inv:
  assumes "shard_inv n i j (hMgr h) (hShard h)" and "n * Suc (Suc j) < 2 ^ 32"
  shows "shard_inv n i (Suc j) (hMgr (exec_history h a)) (hShard (exec_history h a))"
proof -
  obtain act b where a: "a = (act, b)" by fastforce
  let ?m = "(hMgr h)\<lparr>activeTransactions := act\<rparr>"
  have frame: "mgr_frame (hMgr h) ?m" by (simp add: mgr_frame_def)
  have inv: "shard_inv n i j ?m (hShard h)" using assms(1) frame_shard_inv [OF frame] by simp
  show ?thesis
  proof (cases b)
    case (ShardPacket now later p)
    obtain m' s' code run where res: "processSSPacket now later ?m (hShard h) p = (m', s', code, run)"
      by (metis prod_cases4)
    have "shard_inv n i (Suc j) ?m s'" "counted ?m (hShard h) m' s'"
      using processSSPacket_inv [OF inv assms(2) res] by simp_all
    then have "shard_inv n i (Suc j) m' s'" using frame_shard_inv [of ?m m'] by (simp add: counted_def)
    then show ?thesis by (simp only: a ShardPacket exec_history_state res fst_conv snd_conv)
  next
    case (ShardRet now later tid)
    obtain m' s' out where res: "processTransactionRet now later ?m (hShard h) tid = (m', s', out)"
      by (metis prod_cases3)
    have "shard_inv n i (Suc j) ?m s'" "counted ?m (hShard h) m' s'"
      using processTransactionRet_inv [OF inv assms(2) res] by simp_all
    then have "shard_inv n i (Suc j) m' s'" using frame_shard_inv [of ?m m'] by (simp add: counted_def)
    then show ?thesis by (simp only: a ShardRet exec_history_state res fst_conv snd_conv)
  qed
qed

lemma run_history_shard_inv:
  assumes "shard_inv n i j (hMgr h) (hShard h)" and "n * (j + length ops + 2) < 2 ^ 32"
  shows "shard_inv n i (j + length ops) (hMgr (foldl exec_history h ops)) (hShard (foldl exec_history h ops))"
  using assms
proof (induction ops arbitrary: j h)
  case (Cons a ops)
  have "n * Suc (Suc j) \<le> n * (j + length (a # ops) + 2)" by (intro mult_le_mono2) simp
  then have "n * Suc (Suc j) < 2 ^ 32" using Cons.prems(2) by simp
  from Cons.IH [OF exec_history_shard_inv [OF Cons.prems(1) this]] Cons.prems(2) show ?case by simp
qed simp

section \<open>A sample execution\<close>

definition sample_request :: "64 word \<Rightarrow> 32 word \<Rightarrow> bytes \<Rightarrow> SSPacket" where
  "sample_request uid cmd body = myself_packet 1 0 uid 1 cmd body"

definition sample_config :: TransactionMgrConfig where
  "sample_config = \<lparr>MaxTrans = 10, ShardCount = 2, MaxPendingPerKey = 3\<rparr>"

definition sample_ops :: "(nat \<times> shard_op) list" where
  "sample_ops = [(1, ShardPacket 0 True (sample_request 7 5 [1])),
                 (1, ShardPacket 0 True (sample_request 7 5 [2])),
                 (0, ShardPacket 0 True (sample_request 8 5 [3])), (1, ShardRet 0 True 2)]"

lemma sample_size: "n_shards 4 sample_config = 2"
  by (simp add: n_shards_def normalizeConfig_def sample_config_def Let_def)

lemma sample_room: "n_shards 4 sample_config * (length sample_ops + 2) < 2 ^ 32"
  by (simp add: sample_size sample_ops_def)

lemma sample_routed: "\<forall>a\<in>set sample_ops. op_routed (init_mgr 4 sample_config {5}) a"
  by (simp add: sample_ops_def op_routed_def routed_def init_mgr_simps sample_size
      serialKeyFromHeader_def sample_request_def myself_packet_def)


theorem responses_reach_owner_witness:
  "snd (selectShard (foldl exec_mgr (init_mgr 4 sample_config {5}) sample_ops)
     ((sample_request 0 6 [])\<lparr>Header := (Header (sample_request 0 6 []))\<lparr>DstTransID := 4\<rparr>\<rparr>)) = Some 1"
proof -
  let ?m = "foldl exec_mgr (init_mgr 4 sample_config {5}) sample_ops"
  have "transMap (shards ?m ! 1) 4 \<noteq> None" by code_simp
  then obtain tr where tr: "transMap (shards ?m ! 1) 4 = Some tr" by blast
  have "(4 :: 32 word) \<noteq> 0 \<and> selectShard ?m
     ((sample_request 0 6 [])\<lparr>Header := (Header (sample_request 0 6 []))\<lparr>DstTransID := 4\<rparr>\<rparr>) = (?m, Some 1)"
    by (rule responses_reach_owner [OF sample_room sample_routed refl _ tr])
       (simp_all add: sample_size)
  then show ?thesis by simp
qed

definition sample_shard_ops :: "(int \<times> shard_op) list" where
  "sample_shard_ops = [(0, ShardPacket 0 True (sample_request 7 5 [1])),
     (1, ShardPacket 0 True (sample_request 7 9 [2])), (1, ShardPacket 0 True (sample_request 7 5 [3]))]"

definition sample_history :: shard_history where
  "sample_history = new_history (init_mgr 1 (sample_config\<lparr>ShardCount := 1\<rparr>) {5}) (new_shard 1 0)"

theorem requests_in_order_witness:
  "of_key (hMgr sample_history) 7 (accepted (foldl exec_history sample_history sample_shard_ops))
     = [sample_request 7 5 [1]] @ [sample_request 7 9 [2], sample_request 7 5 [3]]"
proof -
  let ?h = "foldl exec_history sample_history sample_shard_ops"
  have "lost ?h = 0" "of_key (hMgr sample_history) 7 (begun ?h) = [sample_request 7 5 [1]]"
    "queue_of (hShard ?h) 7 = [sample_request 7 9 [2], sample_request 7 5 [3]]"
    by code_simp+
  moreover have "?h = foldl exec_history (new_history (hMgr sample_history) (new_shard 1 0)) sample_shard_ops"
    by (simp add: sample_history_def new_history_def)
  ultimately show ?thesis using requests_in_order [of ?h "hMgr sample_history" 1 0 sample_shard_ops 7] by simp
qed


end
