(* ===== verification/SliceSort.thy ===== *)
theory SliceSort
  imports GoPrelude
begin

text \<open>
  \<open>sort.Slice\<close> as an interface: a permutation of the slice that is sorted by a strict weak order,
  with no promise about equal elements.  Go's own insertion sort, which it runs on short slices,
  provides it.  On top of it \<open>mergeIndexSlices\<close> and \<open>parallelSort\<close> of
  \<open>roomcentersvr/room_mgr/texas_room/sort.go\<close>, generic in the element type.
\<close>

section \<open>Strict weak orders\<close>

definition strict_weak :: "('a \<Rightarrow> 'a \<Rightarrow> bool) \<Rightarrow> bool" where
  "strict_weak lt \<longleftrightarrow> (\<forall>a b. lt a b \<longrightarrow> \<not> lt b a)
     \<and> (\<forall>a b c. \<not> lt a b \<longrightarrow> \<not> lt b c \<longrightarrow> \<not> lt a c)"

definition sorted_by :: "('a \<Rightarrow> 'a \<Rightarrow> bool) \<Rightarrow> 'a list \<Rightarrow> bool" where
  "sorted_by lt xs \<longleftrightarrow> sorted_wrt (\<lambda>a b. \<not> lt b a) xs"

lemma strict_weak_key: "strict_weak (\<lambda>a b. (f a :: 'k::linorder) < f b)"
  by (auto simp: strict_weak_def)

lemma strict_weak_key_rev: "strict_weak (\<lambda>a b. (f a :: 'k::linorder) > f b)"
  by (auto simp: strict_weak_def)

lemma strict_weak_image: "strict_weak lt \<Longrightarrow> strict_weak (\<lambda>i j. lt (f i) (f j))"
  unfolding strict_weak_def by blast

lemma sorted_by_Cons: "sorted_by lt (x # xs) \<longleftrightarrow> (\<forall>y\<in>set xs. \<not> lt y x) \<and> sorted_by lt xs"
  by (simp add: sorted_by_def)

lemma sorted_by_map: "sorted_by lt (map f xs) \<longleftrightarrow> sorted_by (\<lambda>i j. lt (f i) (f j)) xs"
  by (simp add: sorted_by_def sorted_wrt_map)

lemma sorted_by_short: "length xs \<le> 1 \<Longrightarrow> sorted_by lt xs"
  by (cases xs) (auto simp: sorted_by_def)

section \<open>The interface and Go's insertion sort\<close>

locale slice_sort =
  fixes srt :: "('a \<Rightarrow> 'a \<Rightarrow> bool) \<Rightarrow> 'a list \<Rightarrow> 'a list"
  assumes sort_perm: "mset (srt lt xs) = mset xs"
    and sort_sorted: "strict_weak lt \<Longrightarrow> sorted_by lt (srt lt xs)"
begin

lemma sort_length: "length (srt lt xs) = length xs"
  using sort_perm by (rule mset_eq_length)

lemma sort_set: "set (srt lt xs) = set xs"
  using sort_perm by (rule mset_eq_setD)

end

text \<open>An element moves left past every element it is lt than; \<open>insert_back\<close> works on the reversed
  prefix.\<close>

fun insert_back :: "('a \<Rightarrow> 'a \<Rightarrow> bool) \<Rightarrow> 'a \<Rightarrow> 'a list \<Rightarrow> 'a list" where
  "insert_back lt x [] = [x]"
| "insert_back lt x (y # ys) = (if lt x y then y # insert_back lt x ys else x # y # ys)"

definition insertionSort :: "('a \<Rightarrow> 'a \<Rightarrow> bool) \<Rightarrow> 'a list \<Rightarrow> 'a list" where
  "insertionSort lt xs = rev (foldl (\<lambda>acc x. insert_back lt x acc) [] xs)"

lemma mset_insert_back [simp]: "mset (insert_back lt x ys) = add_mset x (mset ys)"
  by (induction ys) auto

lemma set_insert_back [simp]: "set (insert_back lt x ys) = insert x (set ys)"
  by (induction ys) auto

lemma insert_back_sorted:
  assumes "strict_weak lt" and "sorted_wrt (\<lambda>a b. \<not> lt a b) ys"
  shows "sorted_wrt (\<lambda>a b. \<not> lt a b) (insert_back lt x ys)"
  using assms(2)
proof (induction ys)
  case (Cons y ys)
  have asym: "lt x y \<Longrightarrow> \<not> lt y x" and neg: "\<not> lt x y \<Longrightarrow> \<not> lt y z \<Longrightarrow> \<not> lt x z" for z
    using assms(1) unfolding strict_weak_def by blast+
  then show ?case using Cons by auto
qed simp

interpretation go_sort: slice_sort insertionSort
proof
  fix lt :: "'a \<Rightarrow> 'a \<Rightarrow> bool" and xs :: "'a list"
  have "mset (foldl (\<lambda>acc x. insert_back lt x acc) acc xs) = mset acc + mset xs" for acc
    by (induction xs arbitrary: acc) simp_all
  then show "mset (insertionSort lt xs) = mset xs" by (simp add: insertionSort_def)
  assume "strict_weak lt"
  then have "sorted_wrt (\<lambda>a b. \<not> lt a b) (foldl (\<lambda>acc x. insert_back lt x acc) acc xs)"
    if "sorted_wrt (\<lambda>a b. \<not> lt a b) acc" for acc
    using that by (induction xs arbitrary: acc) (simp_all add: insert_back_sorted)
  from this [of "[]"] show "sorted_by lt (insertionSort lt xs)"
    by (simp add: insertionSort_def sorted_by_def sorted_wrt_rev)
qed

section \<open>Merging and the parallel sort\<close>

fun mergeIndexSlices :: "('a \<Rightarrow> 'a \<Rightarrow> bool) \<Rightarrow> 'a list \<Rightarrow> 'a list \<Rightarrow> 'a list" where
  "mergeIndexSlices lt [] bs = bs"
| "mergeIndexSlices lt as [] = as"
| "mergeIndexSlices lt (a # as) (b # bs) =
     (if lt a b then a # mergeIndexSlices lt as (b # bs)
      else b # mergeIndexSlices lt (a # as) bs)"

fun merge_pairs :: "('a \<Rightarrow> 'a \<Rightarrow> bool) \<Rightarrow> 'a list list \<Rightarrow> 'a list list" where
  "merge_pairs lt (a # b # rest) = mergeIndexSlices lt a b # merge_pairs lt rest"
| "merge_pairs lt xs = xs"

lemma length_merge_pairs: "length (merge_pairs lt xs) \<le> length xs"
  by (induction lt xs rule: merge_pairs.induct) auto

lemma length_merge_pairs_less:
  "1 < length xs \<Longrightarrow> length (merge_pairs lt xs) < length xs"
  using length_merge_pairs by (induction lt xs rule: merge_pairs.induct) (auto simp: less_Suc_eq_le le_SucI)

function merge_rounds :: "('a \<Rightarrow> 'a \<Rightarrow> bool) \<Rightarrow> 'a list list \<Rightarrow> 'a list list" where
  "merge_rounds lt xs = (if 1 < length xs then merge_rounds lt (merge_pairs lt xs) else xs)"
  by auto
termination
  by (relation "measure (\<lambda>(lt, xs). length xs)") (auto simp: length_merge_pairs_less)

declare merge_rounds.simps [simp del]

function chunks :: "nat \<Rightarrow> 'a list \<Rightarrow> 'a list list" where
  "chunks n xs = (if xs = [] \<or> n = 0 then [] else take n xs # chunks n (drop n xs))"
  by auto
termination
  by (relation "measure (\<lambda>(n, xs). length xs)") auto

declare chunks.simps [simp del]

definition minChunkSize :: nat where "minChunkSize = 5000"

definition reorderRoomsByIndex :: "'a list \<Rightarrow> nat list \<Rightarrow> 'a list" where
  "reorderRoomsByIndex rooms idx = (if length rooms \<le> 1 then rooms else map (\<lambda>i. rooms ! i) idx)"

text \<open>\<open>sort_rooms\<close> and \<open>sort_index\<close> are \<open>sort.Slice\<close> on the two element types, \<open>procs\<close> is
  \<open>GOMAXPROCS(0)\<close>.  The chunks are disjoint, so the workers' order does not show.\<close>

definition parallelSort ::
  "(('a \<Rightarrow> 'a \<Rightarrow> bool) \<Rightarrow> 'a list \<Rightarrow> 'a list) \<Rightarrow> ((nat \<Rightarrow> nat \<Rightarrow> bool) \<Rightarrow> nat list \<Rightarrow> nat list)
   \<Rightarrow> nat \<Rightarrow> 'a list \<Rightarrow> ('a \<Rightarrow> 'a \<Rightarrow> bool) \<Rightarrow> 'a list" where
  "parallelSort sort_rooms sort_index procs rooms lt =
     (let n = length rooms in
      if n \<le> 1 then rooms
      else if n \<le> minChunkSize then sort_rooms lt rooms
      else
        let lessIdx = (\<lambda>i j. lt (rooms ! i) (rooms ! j));
            idx = [0..<n];
            maxWorkers = (if procs < 1 then 1 else procs);
            chunkCnt0 = (n + minChunkSize - 1) div minChunkSize;
            chunkCnt = (if chunkCnt0 > maxWorkers then maxWorkers else chunkCnt0)
        in if chunkCnt \<le> 1 then reorderRoomsByIndex rooms (sort_index lessIdx idx)
           else
             let chunkSize = (n + chunkCnt - 1) div chunkCnt;
                 slices = map (sort_index lessIdx) (chunks chunkSize idx)
             in case merge_rounds lessIdx slices of
                  [] \<Rightarrow> rooms
                | finalIdx # _ \<Rightarrow> reorderRoomsByIndex rooms finalIdx)"

lemma mset_merge [simp]: "mset (mergeIndexSlices lt as bs) = mset as + mset bs"
  by (induction lt as bs rule: mergeIndexSlices.induct) auto

lemma set_merge [simp]: "set (mergeIndexSlices lt as bs) = set as \<union> set bs"
  by (metis mset_merge set_mset_mset set_mset_union)

lemma merge_sorted:
  assumes "strict_weak lt" and "sorted_by lt as" and "sorted_by lt bs"
  shows "sorted_by lt (mergeIndexSlices lt as bs)"
  using assms
proof (induction lt as bs rule: mergeIndexSlices.induct)
  case (3 lt a as b bs)
  have neg: "\<not> lt z b \<Longrightarrow> \<not> lt b a \<Longrightarrow> \<not> lt z a" "\<not> lt z a \<Longrightarrow> \<not> lt a b \<Longrightarrow> \<not> lt z b"
    and asym: "lt a b \<Longrightarrow> \<not> lt b a" for z
    using 3(3) unfolding strict_weak_def by blast+
  have tails: "sorted_by lt as" "sorted_by lt bs" using 3(4,5) by (simp_all add: sorted_by_Cons)
  show ?case
  proof (cases "lt a b")
    case True
    then have "\<forall>y\<in>set (as @ b # bs). \<not> lt y a"
      using 3(4,5) neg(1) asym by (auto simp: sorted_by_Cons)
    then show ?thesis using True 3(1) [OF True 3(3) tails(1) 3(5)] by (auto simp: sorted_by_Cons)
  next
    case False
    then have "\<forall>y\<in>set (a # as @ bs). \<not> lt y b"
      using 3(4,5) neg(2) by (auto simp: sorted_by_Cons)
    then show ?thesis using False 3(2) [OF False 3(3) 3(4) tails(2)] by (auto simp: sorted_by_Cons)
  qed
qed simp_all

lemma mset_merge_pairs: "(\<Sum>xs\<leftarrow>merge_pairs lt xss. mset xs) = (\<Sum>xs\<leftarrow>xss. mset xs)"
  by (induction lt xss rule: merge_pairs.induct) (auto simp: ac_simps)

lemma merge_pairs_sorted:
  "strict_weak lt \<Longrightarrow> \<forall>xs\<in>set xss. sorted_by lt xs \<Longrightarrow> \<forall>xs\<in>set (merge_pairs lt xss). sorted_by lt xs"
  by (induction lt xss rule: merge_pairs.induct) (auto simp: merge_sorted)

lemma merge_pairs_Nil [simp]: "merge_pairs lt xss = [] \<longleftrightarrow> xss = []"
  by (induction lt xss rule: merge_pairs.induct) auto

lemma merge_rounds_result:
  assumes "strict_weak lt" and "\<forall>xs\<in>set xss. sorted_by lt xs" and "xss \<noteq> []"
  shows "\<exists>ys. merge_rounds lt xss = [ys] \<and> mset ys = (\<Sum>xs\<leftarrow>xss. mset xs) \<and> sorted_by lt ys"
  using assms
proof (induction lt xss rule: merge_rounds.induct)
  case (1 lt xss)
  show ?case
  proof (cases "1 < length xss")
    case True
    then show ?thesis
      using 1 merge_pairs_sorted [OF 1(2,3)] mset_merge_pairs [of lt xss]
      by (subst merge_rounds.simps) simp
  next
    case False
    then obtain ys where "xss = [ys]" using 1(4) by (cases xss) auto
    then show ?thesis using 1(3) by (subst merge_rounds.simps) simp
  qed
qed

lemma concat_chunks: "0 < n \<Longrightarrow> concat (chunks n xs) = xs"
  by (induction n xs rule: chunks.induct) (subst chunks.simps, auto)

lemma chunks_Nil: "0 < n \<Longrightarrow> chunks n xs = [] \<longleftrightarrow> xs = []"
  by (subst chunks.simps) simp

lemma mset_concat_list: "mset (concat xss) = (\<Sum>xs\<leftarrow>xss. mset xs)"
  by (induction xss) simp_all

lemma reorder_perm:
  assumes "mset idx = mset [0..<length xs]" and "strict_weak lt"
    and "sorted_by (\<lambda>i j. lt (xs ! i) (xs ! j)) idx" and "1 < length xs"
  shows "mset (reorderRoomsByIndex xs idx) = mset xs \<and> sorted_by lt (reorderRoomsByIndex xs idx)"
proof -
  have "mset (map ((!) xs) idx) = image_mset ((!) xs) (mset [0..<length xs])"
    using assms(1) by simp
  also have "\<dots> = mset (map ((!) xs) [0..<length xs])" by simp
  finally have "mset (map ((!) xs) idx) = mset xs" by (simp add: map_nth)
  then show ?thesis using assms by (simp add: reorderRoomsByIndex_def sorted_by_map)
qed

locale parallel_sorting = rooms: slice_sort sort_rooms + index: slice_sort sort_index
  for sort_rooms :: "('a \<Rightarrow> 'a \<Rightarrow> bool) \<Rightarrow> 'a list \<Rightarrow> 'a list"
    and sort_index :: "(nat \<Rightarrow> nat \<Rightarrow> bool) \<Rightarrow> nat list \<Rightarrow> nat list"
begin

lemma parallelSort_correct:
  assumes sw: "strict_weak lt"
  shows "mset (parallelSort sort_rooms sort_index procs xs lt) = mset xs
     \<and> sorted_by lt (parallelSort sort_rooms sort_index procs xs lt)"
proof -
  let ?lti = "\<lambda>i j. lt (xs ! i) (xs ! j)" and ?n = "length xs"
  define cnt where "cnt = (let c = (?n + minChunkSize - 1) div minChunkSize;
      w = (if procs < 1 then 1 else procs) in if c > w then w else c)"
  define sz where "sz = (?n + cnt - 1) div cnt"
  have swi: "strict_weak ?lti" using sw by (rule strict_weak_image)
  consider "?n \<le> 1" | "1 < ?n" "?n \<le> minChunkSize" | "1 < ?n" "\<not> ?n \<le> minChunkSize" "cnt \<le> 1"
    | "1 < ?n" "\<not> ?n \<le> minChunkSize" "1 < cnt" by linarith
  then show ?thesis
  proof cases
    case 1
    then show ?thesis by (simp add: parallelSort_def sorted_by_short)
  next
    case 2
    then show ?thesis using rooms.sort_perm rooms.sort_sorted [OF sw] by (simp add: parallelSort_def Let_def)
  next
    case 3
    then have "parallelSort sort_rooms sort_index procs xs lt = reorderRoomsByIndex xs (sort_index ?lti [0..<?n])"
      by (auto simp: parallelSort_def Let_def cnt_def)
    then show ?thesis
      using reorder_perm [OF index.sort_perm sw index.sort_sorted [OF swi]] 3(1) by simp
  next
    case 4
    have pos: "0 < sz" using 4 by (simp add: sz_def div_greater_zero_iff)
    let ?slices = "map (sort_index ?lti) (chunks sz [0..<?n])"
    have "[0..<?n] \<noteq> []" using 4(1) by auto
    then have "?slices \<noteq> []" using pos by (simp only: chunks_Nil list.map_disc_iff simp_thms)
    moreover have "\<forall>ys\<in>set ?slices. sorted_by ?lti ys" using index.sort_sorted [OF swi] by auto
    ultimately obtain ys where ys: "merge_rounds ?lti ?slices = [ys]"
        "mset ys = (\<Sum>xs\<leftarrow>?slices. mset xs)" "sorted_by ?lti ys"
      using merge_rounds_result [OF swi] by blast
    have "(\<Sum>xs\<leftarrow>?slices. mset xs) = mset (concat (chunks sz [0..<?n]))"
      by (simp add: mset_concat_list o_def index.sort_perm)
    then have "mset ys = mset [0..<?n]" using ys(2) concat_chunks [OF pos, of "[0..<?n]"] by simp
    moreover have "parallelSort sort_rooms sort_index procs xs lt = reorderRoomsByIndex xs ys"
      using 4 ys(1) unfolding parallelSort_def Let_def cnt_def [symmetric, unfolded Let_def]
      by (simp add: sz_def)
    ultimately show ?thesis using reorder_perm [OF _ sw ys(3) 4(1)] by simp
  qed
qed

end

interpretation go_parallel: parallel_sorting insertionSort insertionSort
  by unfold_locales

end
