(* ===== verification/RoomCenter.thy ===== *)
theory RoomCenter
  imports SliceSort
begin

text \<open>
  The room centre (\<open>src/roomcentersvr\<close>): the table of one stage (\<open>texas/base.go\<close>), the manager of a
  zone (\<open>texas_room/base.go\<close> and \<open>data_proc.go\<close>), the top-level manager (\<open>room_mgr/base.go\<close>,
  \<open>data_proc.go\<close>) and the room factory (\<open>room_ai/ai_create.go\<close>).

  A Go map is an association list: its order stands for the iteration order, which Go does not fix,
  so a result counts only if it is the same for every order.  A nil entry and an entry without
  \<open>Base\<close>, which every operation treats alike, are \<^const>\<open>None\<close>.  Of the protobuf messages the model
  has the fields the code reads or writes.
\<close>

section \<open>Messages\<close>

record RoomBase =
  RoomId :: "64 word"
  CurPlayerNum :: int
  MaxPlayer :: int
  EndTime :: int
  rbStage :: int
  rbGameId :: int
  rbCoinType :: int

type_synonym room_table = "(64 word \<times> RoomBase option) list"

record DBTexasRoomCenterInfo =
  dbIndex :: "64 word"
  dbStage :: int
  RoomsMap :: room_table

datatype room_code = ERR_OK | ERR_ARGV | ERR_TEXAS_SEAT_NOT_FOUND

datatype RoomSortType = SORT_TYPE_NONE | SORT_TYPE_ID | SORT_TYPE_PLAYER | SORT_TYPE_TIME | SORT_TYPE_OTHER

section \<open>The table of a stage (texas/base.go)\<close>

record TexasRoom =
  info :: DBTexasRoomCenterInfo
  upTime :: int
  isChange :: bool

definition NewTexasRoomObj :: "64 word \<Rightarrow> int \<Rightarrow> TexasRoom" where
  "NewTexasRoomObj index stage = \<lparr>info = \<lparr>dbIndex = index, dbStage = stage, RoomsMap = []\<rparr>,
     upTime = 0, isChange = False\<rparr>"

definition Save :: "TexasRoom \<Rightarrow> TexasRoom" where "Save r = r\<lparr>isChange := True\<rparr>"
definition MarkSaved :: "TexasRoom \<Rightarrow> TexasRoom" where "MarkSaved r = r\<lparr>isChange := False\<rparr>"
definition CheckChange :: "TexasRoom \<Rightarrow> bool" where "CheckChange r = isChange r"

definition Set_table :: "int \<Rightarrow> TexasRoom \<Rightarrow> DBTexasRoomCenterInfo \<Rightarrow> TexasRoom" where
  "Set_table now r data = r\<lparr>info := data, upTime := now, isChange := True\<rparr>"

abbreviation rooms_of :: "TexasRoom \<Rightarrow> room_table" where
  "rooms_of r \<equiv> RoomsMap (info r)"

definition set_rooms :: "room_table \<Rightarrow> TexasRoom \<Rightarrow> TexasRoom" where
  "set_rooms t r = r\<lparr>info := (info r)\<lparr>RoomsMap := t\<rparr>\<rparr>"

definition del_key :: "'k \<Rightarrow> ('k \<times> 'v) list \<Rightarrow> ('k \<times> 'v) list" where
  "del_key k t = filter (\<lambda>e. fst e \<noteq> k) t"

section \<open>Redis\<close>

text \<open>The database as the code uses it: whether it is configured, the stored snapshots (a snapshot is
  read back as it was written) and the keys on which a read or a write fails now.  The key is made
  of zone and stage.\<close>

record redis =
  redisOn :: bool
  store :: "64 word \<times> int \<Rightarrow> DBTexasRoomCenterInfo option"
  getFails :: "64 word \<times> int \<Rightarrow> bool"
  setFails :: "64 word \<times> int \<Rightarrow> bool"

section \<open>The manager of a zone\<close>

record TexasRoomCenterMgr =
  Index :: "64 word"
  TexasMap :: "(int \<times> TexasRoom) list"
  isOpen :: bool

definition NewTexasRoomCenterMgr :: "64 word \<Rightarrow> TexasRoomCenterMgr" where
  "NewTexasRoomCenterMgr index = \<lparr>Index = index, TexasMap = [], isOpen = True\<rparr>"

definition put_stage :: "int \<Rightarrow> TexasRoom \<Rightarrow> TexasRoomCenterMgr \<Rightarrow> TexasRoomCenterMgr" where
  "put_stage stage r m = m\<lparr>TexasMap := alist_put stage r (TexasMap m)\<rparr>"

definition restoreStageLocked :: "int \<Rightarrow> redis \<Rightarrow> 64 word \<Rightarrow> int \<Rightarrow> TexasRoom \<Rightarrow> TexasRoom" where
  "restoreStageLocked now db index stage room =
     (if \<not> redisOn db then room
      else if getFails db (index, stage) then room
      else case store db (index, stage) of
             None \<Rightarrow> room
           | Some data \<Rightarrow> MarkSaved (Set_table now room data))"

definition GetTexasObj ::
  "int \<Rightarrow> redis \<Rightarrow> TexasRoomCenterMgr \<Rightarrow> int \<Rightarrow> TexasRoomCenterMgr \<times> TexasRoom" where
  "GetTexasObj now db m stage = (case map_of (TexasMap m) stage of
      Some data \<Rightarrow> (m, data)
    | None \<Rightarrow>
        let data = restoreStageLocked now db (Index m) stage (NewTexasRoomObj (Index m) stage)
        in (put_stage stage data m, data))"

definition UpdateRoomInfo ::
  "int \<Rightarrow> redis \<Rightarrow> TexasRoomCenterMgr \<Rightarrow> RoomBase option \<Rightarrow> TexasRoomCenterMgr \<times> room_code" where
  "UpdateRoomInfo now db m req = (case req of
      None \<Rightarrow> (m, ERR_ARGV)
    | Some base \<Rightarrow>
        let (m1, room) = GetTexasObj now db m (rbStage base);
            room1 = Save (set_rooms (alist_put (RoomId base) (Some base) (rooms_of room)) room)
        in (put_stage (rbStage base) room1 m1, ERR_OK))"

definition DelRoomInfo ::
  "int \<Rightarrow> redis \<Rightarrow> TexasRoomCenterMgr \<Rightarrow> RoomBase option \<Rightarrow> TexasRoomCenterMgr \<times> room_code" where
  "DelRoomInfo now db m req = (case req of
      None \<Rightarrow> (m, ERR_ARGV)
    | Some base \<Rightarrow>
        let (m1, room) = GetTexasObj now db m (rbStage base)
        in if map_of (rooms_of room) (RoomId base) = None then (m1, ERR_OK)
           else (put_stage (rbStage base)
                   (Save (set_rooms (del_key (RoomId base) (rooms_of room)) room)) m1, ERR_OK))"

section \<open>Quick start\<close>

definition not_full :: "RoomBase \<Rightarrow> bool" where
  "not_full b \<longleftrightarrow> CurPlayerNum b < MaxPlayer b"

fun pick_room :: "room_table \<Rightarrow> (64 word \<times> RoomBase) option \<Rightarrow> (64 word \<times> RoomBase) option" where
  "pick_room [] picked = picked"
| "pick_room ((k, None) # rs) picked = pick_room rs picked"
| "pick_room ((k, Some b) # rs) picked =
     pick_room rs (if not_full b then
                     (case picked of
                        None \<Rightarrow> Some (k, b)
                      | Some (k', b') \<Rightarrow> if RoomId b < RoomId b' then Some (k, b) else picked)
                   else picked)"

record QuickStartReq =
  qsGameId :: int
  qsStage :: int
  qsCoinType :: int

record QuickStartRsp =
  Code :: room_code
  RoomInfo :: "RoomBase option"

text \<open>The factory: an error, no room, or a room.\<close>

type_synonym CreateRoomFunc = "int \<Rightarrow> int \<Rightarrow> int \<Rightarrow> string + RoomBase option"

definition take_seat :: "RoomBase \<Rightarrow> RoomBase" where
  "take_seat b = b\<lparr>CurPlayerNum := CurPlayerNum b + 1\<rparr>"

text \<open>First phase, under the lock: \<^const>\<open>None\<close> when every room is full.  \<open>stage_all\<close> is the
  value of the aggregate stage.\<close>

definition QuickStart_pick ::
  "int \<Rightarrow> redis \<Rightarrow> TexasRoomCenterMgr \<Rightarrow> int \<Rightarrow> TexasRoomCenterMgr \<times> RoomBase option" where
  "QuickStart_pick now db m stage =
     (let (m1, room) = GetTexasObj now db m stage
      in case pick_room (rooms_of room) None of
           Some (k, b) \<Rightarrow>
             (put_stage stage (Save (set_rooms (alist_put k (Some (take_seat b)) (rooms_of room)) room)) m1,
              Some (take_seat b))
         | None \<Rightarrow> (m1, None))"

text \<open>Last phase, under the lock again: the room that was created is registered, unless the game
  server has reported it already.\<close>

definition QuickStart_register ::
  "int \<Rightarrow> redis \<Rightarrow> TexasRoomCenterMgr \<Rightarrow> int \<Rightarrow> RoomBase \<Rightarrow> TexasRoomCenterMgr \<times> RoomBase" where
  "QuickStart_register now db m stage base =
     (let (m1, room) = GetTexasObj now db m stage
      in case map_of (rooms_of room) (RoomId base) of
           Some (Some existing) \<Rightarrow>
             if not_full existing
             then (put_stage stage (Save (set_rooms
                     (alist_put (RoomId base) (Some (take_seat existing)) (rooms_of room)) room)) m1,
                   take_seat existing)
             else (m1, existing)
         | _ \<Rightarrow>
             (let base1 = base\<lparr>CurPlayerNum := 1\<rparr>
              in (put_stage stage (Save (set_rooms
                    (alist_put (RoomId base) (Some base1) (rooms_of room)) room)) m1, base1)))"

text \<open>\<open>between\<close> is what other goroutines do to the zone while the room is created outside the
  lock.\<close>

definition QuickStart ::
  "int \<Rightarrow> int \<Rightarrow> redis \<Rightarrow> CreateRoomFunc \<Rightarrow> (TexasRoomCenterMgr \<Rightarrow> TexasRoomCenterMgr)
   \<Rightarrow> TexasRoomCenterMgr \<Rightarrow> QuickStartReq option \<Rightarrow> TexasRoomCenterMgr \<times> QuickStartRsp" where
  "QuickStart stage_all now db createRoomFn between m req0 = (case req0 of
      None \<Rightarrow> (m, \<lparr>Code = ERR_ARGV, RoomInfo = None\<rparr>)
    | Some req \<Rightarrow>
        if qsStage req = stage_all then (m, \<lparr>Code = ERR_ARGV, RoomInfo = None\<rparr>)
        else case QuickStart_pick now db m (qsStage req) of
          (m1, Some b) \<Rightarrow> (m1, \<lparr>Code = ERR_OK, RoomInfo = Some b\<rparr>)
        | (m1, None) \<Rightarrow>
            (let m2 = between m1 in
             case createRoomFn (qsGameId req) (qsCoinType req) (qsStage req) of
               Inl err \<Rightarrow> (m2, \<lparr>Code = ERR_TEXAS_SEAT_NOT_FOUND, RoomInfo = None\<rparr>)
             | Inr None \<Rightarrow> (m2, \<lparr>Code = ERR_TEXAS_SEAT_NOT_FOUND, RoomInfo = None\<rparr>)
             | Inr (Some base) \<Rightarrow>
                 (let (m3, b) = QuickStart_register now db m2 (qsStage req) base
                  in (m3, \<lparr>Code = ERR_OK, RoomInfo = Some b\<rparr>))))"

definition QuickStartRollback ::
  "int \<Rightarrow> redis \<Rightarrow> TexasRoomCenterMgr \<Rightarrow> (int \<times> 64 word) option \<Rightarrow> TexasRoomCenterMgr \<times> room_code" where
  "QuickStartRollback now db m req = (case req of
      None \<Rightarrow> (m, ERR_ARGV)
    | Some (stage, roomId) \<Rightarrow>
        if roomId = 0 then (m, ERR_ARGV)
        else let (m1, room) = GetTexasObj now db m stage
          in case map_of (rooms_of room) roomId of
               Some (Some b) \<Rightarrow>
                 if CurPlayerNum b > 0
                 then (put_stage stage (Save (set_rooms (alist_put roomId
                         (Some (b\<lparr>CurPlayerNum := CurPlayerNum b - 1\<rparr>)) (rooms_of room)) room)) m1, ERR_OK)
                 else (m1, ERR_OK)
             | _ \<Rightarrow> (m1, ERR_OK))"

section \<open>The room list\<close>

definition room_less :: "RoomSortType \<Rightarrow> (RoomBase \<Rightarrow> RoomBase \<Rightarrow> bool) option" where
  "room_less st = (case st of
      SORT_TYPE_ID \<Rightarrow> Some (\<lambda>a b. RoomId a < RoomId b)
    | SORT_TYPE_PLAYER \<Rightarrow> Some (\<lambda>a b. CurPlayerNum a > CurPlayerNum b)
    | SORT_TYPE_TIME \<Rightarrow> Some (\<lambda>a b. EndTime a > EndTime b)
    | _ \<Rightarrow> None)"

definition sortRoomsLocked ::
  "(RoomBase list \<Rightarrow> (RoomBase \<Rightarrow> RoomBase \<Rightarrow> bool) \<Rightarrow> RoomBase list)
   \<Rightarrow> RoomBase list \<Rightarrow> RoomSortType \<Rightarrow> RoomBase list \<times> room_code" where
  "sortRoomsLocked psort rooms st =
     (if length rooms \<le> 1 then (rooms, ERR_OK)
      else if st = SORT_TYPE_NONE then (rooms, ERR_OK)
      else case room_less st of
             None \<Rightarrow> (rooms, ERR_ARGV)
           | Some lt \<Rightarrow> (psort rooms lt, ERR_OK))"

record RoomListReq =
  rlStage :: int
  PageIndex :: int
  PageSize :: int
  SortType :: RoomSortType

record RoomListRsp =
  rlCode :: room_code
  RoomList :: "RoomBase list"
  TotalCount :: int

text \<open>Pages are cut with \<open>uint32\<close> arithmetic.\<close>

definition page_slice :: "int \<Rightarrow> int \<Rightarrow> RoomBase list \<Rightarrow> RoomBase list" where
  "page_slice pageIndex pageSize rooms =
     (let total = u32 (int (length rooms));
          start = u32 (u32 (pageIndex - 1) * pageSize);
          end0 = u32 (pageIndex * pageSize);
          (start, end1) = (if start \<ge> total then (0, 0)
                           else if end0 > total then (start, total) else (start, end0))
      in if start < end1 then take (nat (end1 - start)) (drop (nat start) rooms) else [])"

definition table_rooms :: "room_table \<Rightarrow> RoomBase list" where
  "table_rooms t = List.map_filter snd t"

definition RoomListPage ::
  "(RoomBase list \<Rightarrow> (RoomBase \<Rightarrow> RoomBase \<Rightarrow> bool) \<Rightarrow> RoomBase list) \<Rightarrow> int \<Rightarrow> int \<Rightarrow> redis
   \<Rightarrow> TexasRoomCenterMgr \<Rightarrow> RoomListReq \<Rightarrow> TexasRoomCenterMgr \<times> RoomListRsp" where
  "RoomListPage psort stage_all now db m req =
     (if PageIndex req < 1 \<or> PageSize req < 1 \<or> PageSize req > 500
      then (m, \<lparr>rlCode = ERR_ARGV, RoomList = [], TotalCount = 0\<rparr>)
      else
        let (m1, rooms) =
              (if rlStage req = stage_all
               then (m, concat (map (\<lambda>e. table_rooms (rooms_of (snd e))) (TexasMap m)))
               else case GetTexasObj now db m (rlStage req) of
                      (m1, room) \<Rightarrow> (m1, table_rooms (rooms_of room)))
        in case sortRoomsLocked psort rooms (SortType req) of
             (sorted_rooms, ERR_OK) \<Rightarrow>
               (m1, \<lparr>rlCode = ERR_OK,
                     RoomList = page_slice (PageIndex req) (PageSize req) sorted_rooms,
                     TotalCount = u32 (int (length rooms))\<rparr>)
           | (_, code) \<Rightarrow> (m1, \<lparr>rlCode = code, RoomList = [], TotalCount = 0\<rparr>))"

section \<open>Inspection\<close>

definition nowSecOf :: "int \<Rightarrow> int" where
  "nowSecOf nowMs = (if nowMs < 0 then - (- nowMs div 1000) else nowMs div 1000)"

definition expired :: "int \<Rightarrow> RoomBase option \<Rightarrow> bool" where
  "expired nowSec e = (case e of None \<Rightarrow> False | Some b \<Rightarrow> EndTime b > 0 \<and> nowSec > EndTime b)"

text \<open>One stage: the table without the expired rooms, and the job to create a room (game, stage,
  coin) when all that are left are full.\<close>

definition check_stage :: "int \<Rightarrow> TexasRoom \<Rightarrow> TexasRoom \<times> (int \<times> int \<times> int) option" where
  "check_stage nowSec r =
     (let t = rooms_of r;
          t1 = filter (\<lambda>e. \<not> expired nowSec (snd e)) t;
          r1 = (if length t1 < length t then Save (set_rooms t1 r) else r);
          bases = table_rooms t1;
          fullCnt = length (filter (\<lambda>b. CurPlayerNum b \<ge> MaxPlayer b) bases)
      in if t1 = [] then (r1, None)
         else if bases \<noteq> [] \<and> fullCnt = length t1
         then (let sample = last bases in (r1, Some (rbGameId sample, rbStage sample, rbCoinType sample)))
         else (r1, None))"

definition CheckAndCreateRooms ::
  "TexasRoomCenterMgr \<Rightarrow> int \<Rightarrow> TexasRoomCenterMgr \<times> (int \<times> int \<times> int) list" where
  "CheckAndCreateRooms m nowMs =
     (if \<not> isOpen m then (m, [])
      else let res = map (\<lambda>(stage, r). (stage, check_stage (nowSecOf nowMs) r)) (TexasMap m)
           in (m\<lparr>TexasMap := map (\<lambda>(stage, r, job). (stage, r)) res\<rparr>,
               List.map_filter (\<lambda>(stage, r, job). job) res))"

text \<open>Second phase: the arguments with which the factory is called.\<close>

definition create_jobs :: "CreateRoomFunc \<Rightarrow> (int \<times> int \<times> int) list \<Rightarrow> (string + RoomBase option) list" where
  "create_jobs createRoomFn jobs = map (\<lambda>(gameId, stage, coinType). createRoomFn gameId stage coinType) jobs"

section \<open>Persistence\<close>

definition saveStageSnapshot :: "redis \<Rightarrow> 64 word \<Rightarrow> int \<Rightarrow> TexasRoom \<Rightarrow> redis \<times> TexasRoom \<times> bool" where
  "saveStageSnapshot db index stage r =
     (if setFails db (index, stage) then (db, r, False)
      else (db\<lparr>store := (store db)((index, stage) \<mapsto> info r)\<rparr>, MarkSaved r, True))"

fun save_loop ::
  "64 word \<Rightarrow> redis \<Rightarrow> (int \<times> TexasRoom) list \<Rightarrow> redis \<times> (int \<times> TexasRoom) list" where
  "save_loop index db [] = (db, [])"
| "save_loop index db ((stage, r) # rs) =
     (if \<not> CheckChange r then (case save_loop index db rs of (db', rs') \<Rightarrow> (db', (stage, r) # rs'))
      else case saveStageSnapshot db index stage r of
        (db1, r1, _) \<Rightarrow> (case save_loop index db1 rs of (db', rs') \<Rightarrow> (db', (stage, r1) # rs')))"

definition SaveRoomDataToDB :: "redis \<Rightarrow> TexasRoomCenterMgr \<Rightarrow> redis \<times> TexasRoomCenterMgr" where
  "SaveRoomDataToDB db m =
     (if \<not> isOpen m then (db, m)
      else if \<not> redisOn db then (db, m)
      else case save_loop (Index m) db (TexasMap m) of (db', t) \<Rightarrow> (db', m\<lparr>TexasMap := t\<rparr>))"

fun flush_loop ::
  "64 word \<Rightarrow> redis \<Rightarrow> (int \<times> TexasRoom) list \<Rightarrow> redis \<times> (int \<times> TexasRoom) list \<times> nat \<times> nat" where
  "flush_loop index db [] = (db, [], 0, 0)"
| "flush_loop index db ((stage, r) # rs) =
     (if setFails db (index, stage)
      then (case flush_loop index db rs of
              (db', rs', saved, failed) \<Rightarrow> (db', (stage, r) # rs', saved, failed + 1))
      else (case flush_loop index (db\<lparr>store := (store db)((index, stage) \<mapsto> info r)\<rparr>) rs of
              (db', rs', saved, failed) \<Rightarrow> (db', (stage, MarkSaved r) # rs', saved + 1, failed)))"

definition FlushAllRoomsToDB ::
  "redis \<Rightarrow> TexasRoomCenterMgr \<Rightarrow> redis \<times> TexasRoomCenterMgr \<times> nat \<times> nat" where
  "FlushAllRoomsToDB db m =
     (if \<not> isOpen m then (db, m, 0, 0)
      else if \<not> redisOn db then (db, m, 0, 0)
      else case flush_loop (Index m) db (TexasMap m) of
             (db', t, saved, failed) \<Rightarrow> (db', m\<lparr>TexasMap := t\<rparr>, saved, failed))"

section \<open>The top-level manager\<close>

record RoomMgr =
  TexasMgr :: "(64 word \<times> TexasRoomCenterMgr) list"
  mgrOpen :: bool
  lastTick :: int
  eventTick :: int

definition NewRoomMgr :: RoomMgr where
  "NewRoomMgr = \<lparr>TexasMgr = [], mgrOpen = False, lastTick = 0, eventTick = 0\<rparr>"

definition Init :: "RoomMgr \<Rightarrow> RoomMgr" where "Init g = g\<lparr>mgrOpen := True\<rparr>"

definition GetRoomMgrObj :: "RoomMgr \<Rightarrow> 64 word \<Rightarrow> RoomMgr \<times> TexasRoomCenterMgr" where
  "GetRoomMgrObj g index = (case map_of (TexasMgr g) index of
      Some data \<Rightarrow> (g, data)
    | None \<Rightarrow> let data = NewTexasRoomCenterMgr index
             in (g\<lparr>TexasMgr := alist_put index data (TexasMgr g)\<rparr>, data))"

text \<open>The zones to which a tick message is sent.\<close>

definition Tick :: "RoomMgr \<Rightarrow> int \<Rightarrow> RoomMgr \<times> 64 word list" where
  "Tick g nowMs =
     (if \<not> mgrOpen g then (g, [])
      else if nowMs - lastTick g > 5 * 1000
      then (g\<lparr>lastTick := nowMs\<rparr>, map (\<lambda>e. Index (snd e)) (TexasMgr g))
      else (g, []))"

definition persistIntervalMs :: int where "persistIntervalMs = 10 * 1000"

fun save_zones ::
  "redis \<Rightarrow> (64 word \<times> TexasRoomCenterMgr) list \<Rightarrow> redis \<times> (64 word \<times> TexasRoomCenterMgr) list" where
  "save_zones db [] = (db, [])"
| "save_zones db ((i, m) # ms) = (case SaveRoomDataToDB db m of
      (db1, m1) \<Rightarrow> (case save_zones db1 ms of (db2, ms1) \<Rightarrow> (db2, (i, m1) # ms1)))"

definition SaveDirtyToDB :: "redis \<Rightarrow> RoomMgr \<Rightarrow> redis \<times> RoomMgr" where
  "SaveDirtyToDB db g = (case save_zones db (TexasMgr g) of (db', ms) \<Rightarrow> (db', g\<lparr>TexasMgr := ms\<rparr>))"

definition TickPersist :: "redis \<Rightarrow> RoomMgr \<Rightarrow> int \<Rightarrow> redis \<times> RoomMgr" where
  "TickPersist db g nowMs =
     (if \<not> mgrOpen g then (db, g)
      else if nowMs - eventTick g < persistIntervalMs then (db, g)
      else SaveDirtyToDB db (g\<lparr>eventTick := nowMs\<rparr>))"

fun flush_zones ::
  "redis \<Rightarrow> (64 word \<times> TexasRoomCenterMgr) list
   \<Rightarrow> redis \<times> (64 word \<times> TexasRoomCenterMgr) list \<times> nat \<times> nat" where
  "flush_zones db [] = (db, [], 0, 0)"
| "flush_zones db ((i, m) # ms) = (case FlushAllRoomsToDB db m of
      (db1, m1, s, f) \<Rightarrow> (case flush_zones db1 ms of
        (db2, ms1, s', f') \<Rightarrow> (db2, (i, m1) # ms1, s + s', f + f')))"

definition FlushAllToDB :: "redis \<Rightarrow> RoomMgr \<Rightarrow> redis \<times> RoomMgr \<times> nat \<times> nat" where
  "FlushAllToDB db g = (case flush_zones db (TexasMgr g) of
      (db', ms, s, f) \<Rightarrow> (db', g\<lparr>TexasMgr := ms\<rparr>, s, f))"

section \<open>The room factory (ai_create.go)\<close>

record texas_conf =
  MaxPlayerCount :: int
  RoomKeepLive :: int

text \<open>The configured rooms, the id generator with \<open>GenerateRoomId\<close>, the result of sending the
  request to the game server and the clock in seconds are arguments.\<close>

definition OnAiCreateRoom ::
  "(int \<Rightarrow> int \<Rightarrow> texas_conf option) \<Rightarrow> string + 64 word \<Rightarrow> (64 word \<Rightarrow> 64 word) \<Rightarrow> int
   \<Rightarrow> (RoomBase \<Rightarrow> string option) \<Rightarrow> CreateRoomFunc" where
  "OnAiCreateRoom confs genId GenerateRoomId now send gameId stage coinType =
     (case confs stage coinType of
        None \<Rightarrow> Inl ''room config not found''
      | Some conf \<Rightarrow> (case genId of
          Inl err \<Rightarrow> Inl err
        | Inr i \<Rightarrow>
            (let base = \<lparr>RoomId = GenerateRoomId i, CurPlayerNum = 0, MaxPlayer = MaxPlayerCount conf,
                   EndTime = now + RoomKeepLive conf * 60, rbStage = stage, rbGameId = gameId,
                   rbCoinType = coinType\<rparr>
             in case send base of Some err \<Rightarrow> Inl err | None \<Rightarrow> Inr (Some base))))"

section \<open>The tables stay consistent\<close>

definition entry_ok :: "64 word \<times> RoomBase option \<Rightarrow> bool" where
  "entry_ok e \<longleftrightarrow> (case snd e of None \<Rightarrow> True
     | Some b \<Rightarrow> RoomId b = fst e \<and> 0 \<le> CurPlayerNum b \<and> CurPlayerNum b \<le> MaxPlayer b)"

definition table_ok :: "room_table \<Rightarrow> bool" where
  "table_ok t \<longleftrightarrow> distinct (map fst t) \<and> (\<forall>e\<in>set t. entry_ok e)"

definition zone_ok :: "redis \<times> TexasRoomCenterMgr \<Rightarrow> bool" where
  "zone_ok s \<longleftrightarrow> distinct (map fst (TexasMap (snd s)))
     \<and> (\<forall>e\<in>set (TexasMap (snd s)). table_ok (rooms_of (snd e)))
     \<and> (\<forall>k data. store (fst s) k = Some data \<longrightarrow> table_ok (RoomsMap data))"

text \<open>What can happen to a zone; the database may fail on any key at any time.\<close>

datatype zone_op =
  ZUpdate int "RoomBase option"
| ZDelete int "RoomBase option"
| ZPick int int
| ZRegister int int RoomBase
| ZRollback int "(int \<times> 64 word) option"
| ZList int RoomListReq
| ZCheck int
| ZSave
| ZFlush
| ZFaults "64 word \<times> int \<Rightarrow> bool" "64 word \<times> int \<Rightarrow> bool"

fun exec_zone ::
  "(RoomBase list \<Rightarrow> (RoomBase \<Rightarrow> RoomBase \<Rightarrow> bool) \<Rightarrow> RoomBase list) \<Rightarrow> int
   \<Rightarrow> redis \<times> TexasRoomCenterMgr \<Rightarrow> zone_op \<Rightarrow> redis \<times> TexasRoomCenterMgr" where
  "exec_zone psort sall (db, m) (ZUpdate now req) = (db, fst (UpdateRoomInfo now db m req))"
| "exec_zone psort sall (db, m) (ZDelete now req) = (db, fst (DelRoomInfo now db m req))"
| "exec_zone psort sall (db, m) (ZPick now stage) = (db, fst (QuickStart_pick now db m stage))"
| "exec_zone psort sall (db, m) (ZRegister now stage base) = (db, fst (QuickStart_register now db m stage base))"
| "exec_zone psort sall (db, m) (ZRollback now req) = (db, fst (QuickStartRollback now db m req))"
| "exec_zone psort sall (db, m) (ZList now req) = (db, fst (RoomListPage psort sall now db m req))"
| "exec_zone psort sall (db, m) (ZCheck nowMs) = (db, fst (CheckAndCreateRooms m nowMs))"
| "exec_zone psort sall (db, m) ZSave = SaveRoomDataToDB db m"
| "exec_zone psort sall (db, m) ZFlush = (case FlushAllRoomsToDB db m of (db', m', _) \<Rightarrow> (db', m'))"
| "exec_zone psort sall (db, m) (ZFaults g w) = (db\<lparr>getFails := g, setFails := w\<rparr>, m)"

text \<open>Reports and new rooms are sane.\<close>

definition base_ok :: "RoomBase \<Rightarrow> bool" where
  "base_ok b \<longleftrightarrow> 0 \<le> CurPlayerNum b \<and> CurPlayerNum b \<le> MaxPlayer b"

fun zone_op_ok :: "zone_op \<Rightarrow> bool" where
  "zone_op_ok (ZUpdate now (Some b)) = base_ok b"
| "zone_op_ok (ZRegister now stage b) = (1 \<le> MaxPlayer b)"
| "zone_op_ok _ = True"

lemma set_alist_put: "set (alist_put k v t) \<subseteq> insert (k, v) (set t)"
  by (induction t) (auto split: if_splits)

lemma table_ok_put:
  "table_ok t \<Longrightarrow> entry_ok (k, v) \<Longrightarrow> table_ok (alist_put k v t)"
  using set_alist_put [of k v t] by (auto simp: table_ok_def simp del: keys_alist_put)

lemma table_ok_del: "table_ok t \<Longrightarrow> table_ok (del_key k t)"
  by (auto simp: table_ok_def del_key_def distinct_map_filter)

lemma table_ok_filter: "table_ok t \<Longrightarrow> table_ok (filter P t)"
  by (auto simp: table_ok_def distinct_map_filter)

lemma table_ok_Nil [simp]: "table_ok []"
  by (simp add: table_ok_def)

lemma table_entry: "table_ok t \<Longrightarrow> map_of t k = Some (Some b) \<Longrightarrow> entry_ok (k, Some b)"
  unfolding table_ok_def by (metis map_of_SomeD)

lemma rooms_of_simps [simp]:
  "rooms_of (Save r) = rooms_of r" "rooms_of (MarkSaved r) = rooms_of r"
  "rooms_of (set_rooms t r) = t" "rooms_of (NewTexasRoomObj i s) = []"
  "rooms_of (Set_table now r data) = RoomsMap data"
  by (simp_all add: Save_def MarkSaved_def set_rooms_def NewTexasRoomObj_def Set_table_def)

lemma put_stage_ok:
  "zone_ok (db, m) \<Longrightarrow> table_ok (rooms_of r) \<Longrightarrow> zone_ok (db, put_stage stage r m)"
  using set_alist_put [of stage r "TexasMap m"]
  by (auto simp: zone_ok_def put_stage_def simp del: keys_alist_put)

lemma restore_ok:
  "zone_ok (db, m) \<Longrightarrow> table_ok (rooms_of (restoreStageLocked now db i stage (NewTexasRoomObj i stage)))"
  by (auto simp: zone_ok_def restoreStageLocked_def split: option.splits)

lemma GetTexasObj_ok:
  assumes "zone_ok (db, m)" and "GetTexasObj now db m stage = (m1, room)"
  shows "zone_ok (db, m1) \<and> table_ok (rooms_of room)"
proof (cases "map_of (TexasMap m) stage")
  case None
  then show ?thesis
    using assms restore_ok [OF assms(1)] put_stage_ok [OF assms(1)] by (auto simp: GetTexasObj_def Let_def)
next
  case (Some r)
  then have "(stage, r) \<in> set (TexasMap m)" by (rule map_of_SomeD)
  then show ?thesis using assms Some by (auto simp: GetTexasObj_def zone_ok_def)
qed

lemma pick_room_in:
  "pick_room t p = Some (k, b) \<Longrightarrow> p = Some (k, b) \<or> (k, Some b) \<in> set t \<and> not_full b"
proof (induction t p rule: pick_room.induct)
  case (3 k' b' rs p)
  show ?case
    using 3(1) 3(2) by (auto split: if_splits option.splits)
qed auto

lemma pick_room_le_picked:
  "p = Some (k', b') \<Longrightarrow> \<exists>k b. pick_room t p = Some (k, b) \<and> RoomId b \<le> RoomId b'"
proof (induction t p arbitrary: k' b' rule: pick_room.induct)
  case (3 k b rs p)
  consider "not_full b" "RoomId b < RoomId b'" | "\<not> (not_full b \<and> RoomId b < RoomId b')" by blast
  then show ?case
  proof cases
    case 1
    then show ?thesis using 3(1) [of k b] 3(2) by (auto intro: order_trans)
  next
    case 2
    then show ?thesis using 3(1) [of k' b'] 3(2) by auto
  qed
qed auto

lemma pick_room_le:
  "(k', Some b') \<in> set t \<Longrightarrow> not_full b'
   \<Longrightarrow> \<exists>k b. pick_room t p = Some (k, b) \<and> RoomId b \<le> RoomId b'"
proof (induction t p rule: pick_room.induct)
  case (3 k b rs p)
  show ?case
  proof (cases "(k', b') = (k, b)")
    case True
    let ?p = "if not_full b then (case p of None \<Rightarrow> Some (k, b)
       | Some (k', b') \<Rightarrow> if RoomId b < RoomId b' then Some (k, b) else p) else p"
    have "\<exists>k2 b2. ?p = Some (k2, b2) \<and> RoomId b2 \<le> RoomId b"
      using True 3(3) by (cases p) auto
    then obtain k2 b2 where p2: "?p = Some (k2, b2)" "RoomId b2 \<le> RoomId b" by blast
    show ?thesis using pick_room_le_picked [OF p2(1), of rs] p2(2) True by (auto intro: order_trans)
  next
    case False
    then have "(k', Some b') \<in> set rs" using 3(2) by auto
    then show ?thesis unfolding pick_room.simps using 3(1) 3(3) by blast
  qed
qed auto

text \<open>A quick start takes a seat in the room with the least id that has one: whatever the order in
  which Go walks the map.\<close>

lemma pick_room_least:
  assumes "pick_room t None = Some (k, b)"
  shows "(k, Some b) \<in> set t \<and> not_full b
     \<and> (\<forall>k' b'. (k', Some b') \<in> set t \<and> not_full b' \<longrightarrow> RoomId b \<le> RoomId b')"
  using pick_room_in [OF assms] pick_room_le [of _ _ t None] assms by fastforce

lemma pick_room_none:
  "pick_room t None = None \<longleftrightarrow> (\<forall>k b. (k, Some b) \<in> set t \<longrightarrow> \<not> not_full b)"
  using pick_room_in [of t None] pick_room_le [of _ _ t None]
  by (metis not_None_eq option.simps(3) surj_pair)

section \<open>Every operation keeps the tables\<close>

lemma take_seat_ok: "entry_ok (k, Some b) \<Longrightarrow> not_full b \<Longrightarrow> entry_ok (k, Some (take_seat b))"
  by (simp add: entry_ok_def not_full_def take_seat_def)

lemma put_room_ok:
  assumes "zone_ok (db, m)" "table_ok t" "entry_ok (k, v)"
  shows "zone_ok (db, put_stage stage (Save (set_rooms (alist_put k v t) r)) m)"
  using assms by (simp add: put_stage_ok table_ok_put)

lemma UpdateRoomInfo_ok:
  assumes "zone_ok (db, m)" "\<forall>b. req = Some b \<longrightarrow> base_ok b"
  shows "zone_ok (db, fst (UpdateRoomInfo now db m req))"
proof (cases req)
  case (Some b)
  obtain m1 room where g: "GetTexasObj now db m (rbStage b) = (m1, room)" by fastforce
  show ?thesis using GetTexasObj_ok [OF assms(1) g] assms(2) Some g
    by (simp add: UpdateRoomInfo_def put_room_ok entry_ok_def base_ok_def)
qed (simp add: UpdateRoomInfo_def assms)

lemma DelRoomInfo_ok:
  assumes "zone_ok (db, m)"
  shows "zone_ok (db, fst (DelRoomInfo now db m req))"
proof (cases req)
  case (Some b)
  obtain m1 room where g: "GetTexasObj now db m (rbStage b) = (m1, room)" by fastforce
  show ?thesis using GetTexasObj_ok [OF assms(1) g] Some g
    by (simp add: DelRoomInfo_def put_stage_ok table_ok_del)
qed (simp add: DelRoomInfo_def assms)

lemma QuickStart_pick_ok:
  assumes "zone_ok (db, m)"
  shows "zone_ok (db, fst (QuickStart_pick now db m stage))"
proof -
  obtain m1 room where g: "GetTexasObj now db m stage = (m1, room)" by fastforce
  note ok = GetTexasObj_ok [OF assms g]
  show ?thesis
  proof (cases "pick_room (rooms_of room) None")
    case None
    then show ?thesis using ok g by (simp add: QuickStart_pick_def)
  next
    case (Some e)
    obtain k b where e: "e = (k, b)" by fastforce
    have "(k, Some b) \<in> set (rooms_of room)" "not_full b"
      using pick_room_least [of "rooms_of room" k b] Some e by simp_all
    then have "entry_ok (k, Some (take_seat b))" using ok take_seat_ok by (auto simp: table_ok_def)
    then show ?thesis using ok g Some e by (simp add: QuickStart_pick_def put_room_ok)
  qed
qed

lemma QuickStart_register_ok:
  assumes "zone_ok (db, m)" "1 \<le> MaxPlayer base"
  shows "zone_ok (db, fst (QuickStart_register now db m stage base))"
proof -
  obtain m1 room where g: "GetTexasObj now db m stage = (m1, room)" by fastforce
  note ok = GetTexasObj_ok [OF assms(1) g]
  have new: "entry_ok (RoomId base, Some (base\<lparr>CurPlayerNum := 1\<rparr>))"
    using assms(2) by (simp add: entry_ok_def)
  show ?thesis
  proof (cases "map_of (rooms_of room) (RoomId base)")
    case None
    then show ?thesis using ok g new by (simp add: QuickStart_register_def Let_def put_room_ok)
  next
    case (Some e)
    show ?thesis
    proof (cases e)
      case None
      then show ?thesis using ok g new Some by (simp add: QuickStart_register_def Let_def put_room_ok)
    next
      case (Some b)
      have "entry_ok (RoomId base, Some b)"
        using table_entry [of "rooms_of room"] ok Some \<open>map_of _ _ = Some e\<close> by simp
      then show ?thesis
        using ok g Some \<open>map_of _ _ = Some e\<close>
        by (simp add: QuickStart_register_def put_room_ok take_seat_ok)
    qed
  qed
qed

lemma QuickStartRollback_ok:
  assumes "zone_ok (db, m)"
  shows "zone_ok (db, fst (QuickStartRollback now db m req))"
proof (cases req)
  case (Some r)
  obtain stage roomId where r: "r = (stage, roomId)" by fastforce
  obtain m1 room where g: "GetTexasObj now db m stage = (m1, room)" by fastforce
  note ok = GetTexasObj_ok [OF assms g]
  have "entry_ok (roomId, Some (b\<lparr>CurPlayerNum := CurPlayerNum b - 1\<rparr>))"
    if "map_of (rooms_of room) roomId = Some (Some b)" "0 < CurPlayerNum b" for b
    using table_entry [of "rooms_of room" roomId b] that ok by (simp add: entry_ok_def)
  then show ?thesis using ok g Some r assms
    by (auto simp: QuickStartRollback_def put_room_ok split: option.splits)
qed (simp add: QuickStartRollback_def assms)

lemma RoomListPage_ok:
  assumes "zone_ok (db, m)"
  shows "zone_ok (db, fst (RoomListPage psort sall now db m req))"
proof -
  obtain m1 room where g: "GetTexasObj now db m (rlStage req) = (m1, room)" by fastforce
  note ok = GetTexasObj_ok [OF assms g]
  show ?thesis using ok g assms
    by (auto simp: RoomListPage_def Let_def split: prod.splits room_code.splits)
qed

lemma check_stage_rooms: "rooms_of (fst (check_stage nowSec r)) = filter (\<lambda>e. \<not> expired nowSec (snd e)) (rooms_of r)"
  by (auto simp: check_stage_def Let_def filter_id_conv dest: length_filter_less)
    (metis (no_types, lifting) filter_True length_filter_less)+

lemma check_map:
  "isOpen m \<Longrightarrow> TexasMap (fst (CheckAndCreateRooms m nowMs))
     = map (\<lambda>(stage, r). (stage, fst (check_stage (nowSecOf nowMs) r))) (TexasMap m)"
  by (simp add: CheckAndCreateRooms_def Let_def comp_def split_beta)

lemma CheckAndCreateRooms_ok:
  assumes "zone_ok (db, m)"
  shows "zone_ok (db, fst (CheckAndCreateRooms m nowMs))"
proof (cases "isOpen m")
  case True
  have "map fst (TexasMap (fst (CheckAndCreateRooms m nowMs))) = map fst (TexasMap m)"
    by (simp add: check_map [OF True] comp_def split_beta)
  moreover have "table_ok (rooms_of (snd e))" if "e \<in> set (TexasMap (fst (CheckAndCreateRooms m nowMs)))" for e
    using that assms by (auto simp: check_map [OF True] check_stage_rooms zone_ok_def intro!: table_ok_filter)
  ultimately show ?thesis using assms by (simp add: zone_ok_def)
qed (simp add: CheckAndCreateRooms_def assms)

text \<open>Both persistence loops leave the tables as they are and store only snapshots of them.\<close>

definition stored_from :: "64 word \<Rightarrow> (int \<times> TexasRoom) list \<Rightarrow> redis \<Rightarrow> redis \<Rightarrow> bool" where
  "stored_from index t db db' \<longleftrightarrow>
     (\<forall>k. store db' k = store db k \<or> (\<exists>e\<in>set t. k = (index, fst e) \<and> store db' k = Some (info (snd e))))"

definition same_tables :: "(int \<times> TexasRoom) list \<Rightarrow> (int \<times> TexasRoom) list \<Rightarrow> bool" where
  "same_tables t t' \<longleftrightarrow> map (\<lambda>e. (fst e, info (snd e))) t = map (\<lambda>e. (fst e, info (snd e))) t'"

lemma stored_from_step:
  "stored_from i t (db\<lparr>store := (store db)((i, stage) \<mapsto> info r)\<rparr>) db' \<Longrightarrow> stored_from i ((stage, r) # t) db db'"
  unfolding stored_from_def
  by (intro allI) (erule_tac x = k in allE, auto split: if_splits)

lemma stored_from_skip: "stored_from i t db db' \<Longrightarrow> stored_from i (e # t) db db'"
  unfolding stored_from_def by auto

lemma same_tables_Cons [simp]:
  "same_tables ((s, r) # t) ((s', r') # t') \<longleftrightarrow> s = s' \<and> info r = info r' \<and> same_tables t t'"
  by (auto simp: same_tables_def)

lemma info_saved [simp]: "info (MarkSaved r) = info r" "info (Save r) = info r"
  by (simp_all add: MarkSaved_def Save_def)

lemma save_loop_spec:
  "save_loop i db t = (db', t') \<Longrightarrow> same_tables t t' \<and> stored_from i t db db'"
proof (induction i db t arbitrary: db' t' rule: save_loop.induct)
  case (2 i db stage r rs)
  show ?case
  proof (cases "CheckChange r \<and> \<not> setFails db (i, stage)")
    case True
    then show ?thesis using 2
      by (auto simp: saveStageSnapshot_def stored_from_step split: prod.splits)
  next
    case False
    then show ?thesis using 2
      by (auto simp: saveStageSnapshot_def stored_from_skip split: prod.splits if_splits)
  qed
qed (auto simp: same_tables_def stored_from_def)

lemma flush_loop_spec:
  "flush_loop i db t = (db', t', s, f) \<Longrightarrow> same_tables t t' \<and> stored_from i t db db'"
proof (induction i db t arbitrary: db' t' s f rule: flush_loop.induct)
  case (2 i db stage r rs)
  show ?case
  proof (cases "setFails db (i, stage)")
    case True
    then show ?thesis using 2 by (auto simp: stored_from_skip split: prod.splits)
  next
    case False
    then show ?thesis using 2 by (auto simp: stored_from_step split: prod.splits)
  qed
qed (auto simp: same_tables_def stored_from_def)

lemma same_tables_ok:
  assumes "same_tables t t'"
  shows "map fst t' = map fst t"
    and "(\<forall>e\<in>set t'. table_ok (rooms_of (snd e))) \<longleftrightarrow> (\<forall>e\<in>set t. table_ok (rooms_of (snd e)))"
proof -
  have eq: "map (\<lambda>e. (fst e, info (snd e))) t = map (\<lambda>e. (fst e, info (snd e))) t'"
    using assms by (simp add: same_tables_def)
  show "map fst t' = map fst t" using arg_cong [OF eq, of "map fst"] by (simp add: comp_def)
  have "set (map (\<lambda>e. info (snd e)) t) = set (map (\<lambda>e. info (snd e)) t')"
    using arg_cong [OF eq, of "map snd"] by (simp add: comp_def del: set_map)
  then have "(\<lambda>e. info (snd e)) ` set t = (\<lambda>e. info (snd e)) ` set t'" by simp
  then show "(\<forall>e\<in>set t'. table_ok (rooms_of (snd e))) \<longleftrightarrow> (\<forall>e\<in>set t. table_ok (rooms_of (snd e)))"
    by (metis (no_types, lifting) imageE imageI)
qed

lemma stored_from_ok:
  assumes "stored_from i t db db'" "\<forall>e\<in>set t. table_ok (rooms_of (snd e))"
    and "\<forall>k data. store db k = Some data \<longrightarrow> table_ok (RoomsMap data)"
  shows "\<forall>k data. store db' k = Some data \<longrightarrow> table_ok (RoomsMap data)"
  using assms unfolding stored_from_def by (metis option.inject)

lemma persisted_ok:
  assumes "zone_ok (db, m)" "same_tables (TexasMap m) t'" "stored_from i (TexasMap m) db db'"
  shows "zone_ok (db', m\<lparr>TexasMap := t'\<rparr>)"
proof -
  have t: "\<forall>e\<in>set (TexasMap m). table_ok (rooms_of (snd e))"
    and s: "\<forall>k data. store db k = Some data \<longrightarrow> table_ok (RoomsMap data)"
    and d: "distinct (map fst (TexasMap m))" using assms(1) by (simp_all add: zone_ok_def)
  show ?thesis unfolding zone_ok_def
    using stored_from_ok [OF assms(3) t s] t d same_tables_ok [OF assms(2)] by simp
qed

lemma SaveRoomDataToDB_ok: "zone_ok (db, m) \<Longrightarrow> zone_ok (SaveRoomDataToDB db m)"
  by (auto simp: SaveRoomDataToDB_def split: prod.splits dest!: save_loop_spec elim: persisted_ok)

lemma FlushAllRoomsToDB_ok:
  "zone_ok (db, m) \<Longrightarrow> FlushAllRoomsToDB db m = (db', m', s, f) \<Longrightarrow> zone_ok (db', m')"
  by (auto simp: FlushAllRoomsToDB_def split: prod.splits if_splits dest!: flush_loop_spec elim: persisted_ok)

text \<open>The seats of a zone are an invariant of everything that happens to it.\<close>

interpretation zone: op_invariant_on "exec_zone psort sall" zone_ok zone_op_ok for psort sall
proof (unfold_locales, goal_cases)
  case (1 s a)
  obtain db m where s: "s = (db, m)" by fastforce
  have ok: "zone_ok (db, m)" using 1(1) s by simp
  show ?case
  proof (cases a)
    case (ZUpdate now req)
    then show ?thesis using 1(2) ok s by (cases req) (simp_all add: UpdateRoomInfo_ok)
  next
    case ZFlush
    then show ?thesis using ok s FlushAllRoomsToDB_ok by (auto split: prod.splits)
  next
    case (ZFaults g w)
    then show ?thesis using ok s by (simp add: zone_ok_def)
  qed (use 1(2) ok s in \<open>simp_all add: DelRoomInfo_ok QuickStart_pick_ok QuickStart_register_ok
      QuickStartRollback_ok RoomListPage_ok CheckAndCreateRooms_ok SaveRoomDataToDB_ok\<close>)
qed

section \<open>The write-back cache\<close>

text \<open>What a restart would find for a stage.\<close>

definition restored :: "redis \<Rightarrow> 64 word \<Rightarrow> int \<Rightarrow> DBTexasRoomCenterInfo" where
  "restored db i stage = (case store db (i, stage) of
      Some d \<Rightarrow> d | None \<Rightarrow> \<lparr>dbIndex = i, dbStage = stage, RoomsMap = []\<rparr>)"

definition synced :: "64 word \<Rightarrow> redis \<times> TexasRoomCenterMgr \<Rightarrow> bool" where
  "synced i s \<longleftrightarrow> redisOn (fst s) \<and> (\<forall>k. \<not> getFails (fst s) k) \<and> isOpen (snd s) \<and> Index (snd s) = i
     \<and> distinct (map fst (TexasMap (snd s)))
     \<and> (\<forall>e\<in>set (TexasMap (snd s)). \<not> isChange (snd e) \<longrightarrow> info (snd e) = restored (fst s) i (fst e))"

fun reads_work :: "zone_op \<Rightarrow> bool" where
  "reads_work (ZFaults g w) = (g = (\<lambda>_. False))"
| "reads_work _ = True"

lemma restore_info:
  "redisOn db \<Longrightarrow> \<not> getFails db (i, stage)
   \<Longrightarrow> info (restoreStageLocked now db i stage (NewTexasRoomObj i stage)) = restored db i stage"
  by (simp add: restoreStageLocked_def restored_def Set_table_def NewTexasRoomObj_def split: option.splits)

lemma set_put_distinct:
  "distinct (map fst t) \<Longrightarrow> set (alist_put k v t) = insert (k, v) {e \<in> set t. fst e \<noteq> k}"
  by (induction t) (auto split: if_splits intro: rev_image_eqI)

lemma put_stage_synced:
  assumes "synced i (db, m)" and "\<not> isChange r \<longrightarrow> info r = restored db i stage"
  shows "synced i (db, put_stage stage r m)"
  using assms by (auto simp: synced_def put_stage_def set_put_distinct simp del: keys_alist_put)

lemma GetTexasObj_synced:
  assumes "synced i (db, m)" and "GetTexasObj now db m stage = (m1, room)"
  shows "synced i (db, m1)"
proof (cases "map_of (TexasMap m) stage")
  case None
  have "redisOn db" "\<not> getFails db (i, stage)" "Index m = i" using assms(1) by (simp_all add: synced_def)
  then have "m1 = put_stage stage (restoreStageLocked now db i stage (NewTexasRoomObj i stage)) m"
    and "info (restoreStageLocked now db i stage (NewTexasRoomObj i stage)) = restored db i stage"
    using assms(2) None restore_info by (auto simp: GetTexasObj_def Let_def)
  then show ?thesis using put_stage_synced [OF assms(1)] by simp
qed (use assms in \<open>simp add: GetTexasObj_def\<close>)

lemma dirty_put_synced: "synced i (db, m) \<Longrightarrow> synced i (db, put_stage stage (Save r) m)"
  by (rule put_stage_synced) (simp_all add: Save_def)

lemma requests_synced:
  assumes "synced i (db, m)"
  shows "synced i (db, fst (UpdateRoomInfo now db m req))"
    and "synced i (db, fst (DelRoomInfo now db m req))"
    and "synced i (db, fst (QuickStart_pick now db m stage))"
    and "synced i (db, fst (QuickStart_register now db m stage base))"
    and "synced i (db, fst (QuickStartRollback now db m rreq))"
    and "synced i (db, fst (RoomListPage psort sall now db m lreq))"
  using assms
  by (auto simp: UpdateRoomInfo_def DelRoomInfo_def QuickStart_pick_def QuickStart_register_def Let_def
      QuickStartRollback_def RoomListPage_def split: option.splits prod.splits room_code.splits
      intro!: dirty_put_synced dest: GetTexasObj_synced)

lemma check_stage_dirty:
  "isChange (fst (check_stage now r)) \<or> fst (check_stage now r) = r"
  by (auto simp: check_stage_def Let_def Save_def)

lemma CheckAndCreateRooms_synced:
  assumes "synced i (db, m)"
  shows "synced i (db, fst (CheckAndCreateRooms m nowMs))"
proof -
  have o: "isOpen m" using assms by (simp add: synced_def)
  have k: "map fst (TexasMap (fst (CheckAndCreateRooms m nowMs))) = map fst (TexasMap m)"
    by (simp add: check_map [OF o] comp_def split_beta)
  have r: "isOpen (fst (CheckAndCreateRooms m nowMs)) = isOpen m" "Index (fst (CheckAndCreateRooms m nowMs)) = Index m"
    by (simp_all add: CheckAndCreateRooms_def Let_def)
  have "info (snd e) = restored db i (fst e)"
    if e: "e \<in> set (TexasMap (fst (CheckAndCreateRooms m nowMs)))" and "\<not> isChange (snd e)" for e
  proof -
    obtain s r where sr: "(s, r) \<in> set (TexasMap m)" "e = (s, fst (check_stage (nowSecOf nowMs) r))"
      using e by (auto simp: check_map [OF o])
    then have "snd e = r" using check_stage_dirty [of "nowSecOf nowMs" r] \<open>\<not> isChange (snd e)\<close> by auto
    moreover have "\<forall>e\<in>set (TexasMap m). \<not> isChange (snd e) \<longrightarrow> info (snd e) = restored db i (fst e)"
      using assms by (simp add: synced_def)
    ultimately show ?thesis using sr \<open>\<not> isChange (snd e)\<close> by auto
  qed
  then show ?thesis using assms k r unfolding synced_def fst_conv snd_conv by simp
qed

text \<open>A pass over the stages stores some of the tables and marks exactly those clean.\<close>

definition saved_pass :: "64 word \<Rightarrow> redis \<Rightarrow> (int \<times> TexasRoom) list \<Rightarrow> redis \<Rightarrow> (int \<times> TexasRoom) list \<Rightarrow> bool" where
  "saved_pass i db t db' t' \<longleftrightarrow> redisOn db' = redisOn db \<and> getFails db' = getFails db
     \<and> list_all2 (\<lambda>e e'. fst e' = fst e \<and> info (snd e') = info (snd e)
         \<and> (snd e' = snd e \<and> store db' (i, fst e) = store db (i, fst e)
            \<or> \<not> isChange (snd e') \<and> store db' (i, fst e) = Some (info (snd e)))) t t'
     \<and> (\<forall>k. k \<notin> (\<lambda>e. (i, fst e)) ` set t \<longrightarrow> store db' k = store db k)"

lemma saved_pass_Nil [simp]: "saved_pass i db [] db' t' \<longleftrightarrow>
    redisOn db' = redisOn db \<and> getFails db' = getFails db \<and> t' = [] \<and> store db' = store db"
  by (auto simp: saved_pass_def fun_eq_iff)

lemma saved_pass_skip:
  assumes "saved_pass i db t db' t'" "stage \<notin> set (map fst t)"
  shows "saved_pass i db ((stage, r) # t) db' ((stage, r) # t')"
proof -
  have "store db' (i, stage) = store db (i, stage)"
    using assms unfolding saved_pass_def by (auto simp: image_iff)
  then show ?thesis using assms(1) by (simp add: saved_pass_def)
qed

lemma saved_pass_store:
  assumes "saved_pass i (db\<lparr>store := (store db)((i, stage) \<mapsto> info r)\<rparr>) t db' t'" "stage \<notin> set (map fst t)"
  shows "saved_pass i db ((stage, r) # t) db' ((stage, MarkSaved r) # t')"
proof -
  let ?db = "db\<lparr>store := (store db)((i, stage) \<mapsto> info r)\<rparr>"
  have st: "store db' k = store ?db k" if "k \<notin> (\<lambda>e. (i, fst e)) ` set t" for k
    using assms(1) that unfolding saved_pass_def by blast
  have same: "store ?db (i, fst e) = store db (i, fst e)" if "e \<in> set t" for e
    using that assms(2) by auto
  have "list_all2 (\<lambda>e e'. fst e' = fst e \<and> info (snd e') = info (snd e)
         \<and> (snd e' = snd e \<and> store db' (i, fst e) = store db (i, fst e)
            \<or> \<not> isChange (snd e') \<and> store db' (i, fst e) = Some (info (snd e)))) t t'"
    using assms(1) same unfolding saved_pass_def by (auto elim!: list.rel_mono_strong)
  moreover have "store db' (i, stage) = Some (info r)" using st [of "(i, stage)"] assms(2) by auto
  moreover have "store db' k = store db k" if "k \<notin> (\<lambda>e. (i, fst e)) ` set ((stage, r) # t)" for k
    using st [of k] that by (auto split: if_splits)
  ultimately show ?thesis using assms(1) by (simp add: saved_pass_def MarkSaved_def)
qed

lemma save_loop_pass:
  "save_loop i db t = (db', t') \<Longrightarrow> distinct (map fst t) \<Longrightarrow> saved_pass i db t db' t'"
proof (induction i db t arbitrary: db' t' rule: save_loop.induct)
  case (2 i db stage r rs)
  show ?case
  proof (cases "CheckChange r \<and> \<not> setFails db (i, stage)")
    case True
    then show ?thesis using 2
      by (auto simp: saveStageSnapshot_def split: prod.splits intro!: saved_pass_store)
  next
    case False
    then show ?thesis using 2
      by (auto simp: saveStageSnapshot_def split: prod.splits if_splits intro!: saved_pass_skip)
  qed
qed auto

lemma flush_loop_pass:
  "flush_loop i db t = (db', t', s, f) \<Longrightarrow> distinct (map fst t) \<Longrightarrow> saved_pass i db t db' t'"
proof (induction i db t arbitrary: db' t' s f rule: flush_loop.induct)
  case (2 i db stage r rs)
  show ?case
  proof (cases "setFails db (i, stage)")
    case True
    then show ?thesis using 2 by (auto split: prod.splits intro!: saved_pass_skip)
  next
    case False
    then show ?thesis using 2 by (auto split: prod.splits intro!: saved_pass_store)
  qed
qed auto

lemma saved_pass_synced:
  assumes "synced i (db, m)" and "saved_pass i db (TexasMap m) db' t'"
  shows "synced i (db', m\<lparr>TexasMap := t'\<rparr>)"
proof -
  let ?R = "\<lambda>e e'. fst e' = fst e \<and> info (snd e') = info (snd e)
         \<and> (snd e' = snd e \<and> store db' (i, fst e) = store db (i, fst e)
            \<or> \<not> isChange (snd e') \<and> store db' (i, fst e) = Some (info (snd e)))"
  have all: "list_all2 ?R (TexasMap m) t'" using assms(2) by (simp add: saved_pass_def)
  have "map fst t' = map fst (TexasMap m)"
    by (rule nth_equalityI) (use all in \<open>auto simp: list_all2_conv_all_nth\<close>)
  moreover have "info (snd e') = restored db' i (fst e')" if e': "e' \<in> set t'" "\<not> isChange (snd e')" for e'
  proof -
    obtain e where e: "e \<in> set (TexasMap m)" "?R e e'"
      using list_all2_right [OF all e'(1)] by blast
    have "\<not> isChange (snd e) \<longrightarrow> info (snd e) = restored db i (fst e)"
      using assms(1) e(1) by (simp add: synced_def)
    then show ?thesis using e(2) e'(2) by (auto simp: restored_def)
  qed
  ultimately show ?thesis using assms by (simp add: synced_def saved_pass_def)
qed

lemma persist_synced:
  assumes "synced i (db, m)"
  shows "synced i (SaveRoomDataToDB db m)"
    and "FlushAllRoomsToDB db m = (db', m', s, f) \<Longrightarrow> synced i (db', m')"
proof -
  have m: "isOpen m" "redisOn db" "Index m = i" "distinct (map fst (TexasMap m))"
    using assms by (simp_all add: synced_def)
  show "synced i (SaveRoomDataToDB db m)"
    using m saved_pass_synced [OF assms save_loop_pass]
    by (auto simp: SaveRoomDataToDB_def split: prod.splits)
  show "synced i (db', m')" if "FlushAllRoomsToDB db m = (db', m', s, f)"
    using that m saved_pass_synced [OF assms flush_loop_pass]
    by (auto simp: FlushAllRoomsToDB_def split: prod.splits)
qed

interpretation zone_cache: op_invariant_on "exec_zone psort sall" "synced i" reads_work for psort sall i
proof (unfold_locales, goal_cases)
  case (1 s a)
  obtain db m where s: "s = (db, m)" by fastforce
  have ok: "synced i (db, m)" using 1(1) s by simp
  show ?case
  proof (cases a)
    case ZFlush
    then show ?thesis using s persist_synced(2) [OF ok] by (auto split: prod.splits)
  next
    case (ZFaults g w)
    then show ?thesis using 1(2) ok s by (simp add: synced_def restored_def)
  qed (use ok s in \<open>simp_all add: requests_synced CheckAndCreateRooms_synced persist_synced(1)\<close>)
qed

text \<open>Writing with no failure leaves no dirty table.\<close>

lemma save_loop_clean:
  "save_loop i db t = (db', t') \<Longrightarrow> \<forall>k. \<not> setFails db k \<Longrightarrow> \<forall>e\<in>set t'. \<not> isChange (snd e)"
proof (induction t arbitrary: db db' t')
  case (Cons e rs)
  obtain stage r where e: "e = (stage, r)" by fastforce
  let ?db = "if CheckChange r then db\<lparr>store := (store db)((i, stage) \<mapsto> info r)\<rparr> else db"
  obtain db1 rs1 where l: "save_loop i ?db rs = (db1, rs1)" by fastforce
  have "\<forall>e\<in>set rs1. \<not> isChange (snd e)" by (rule Cons.IH [OF l]) (use Cons.prems(2) in auto)
  then show ?case using l e Cons.prems
    by (auto simp: saveStageSnapshot_def MarkSaved_def CheckChange_def split: if_splits)
qed auto

lemma synced_clean_restart:
  assumes "synced i (db, m)" "\<forall>e\<in>set (TexasMap m). \<not> isChange (snd e)" "(stage, r) \<in> set (TexasMap m)"
  shows "info (snd (GetTexasObj now db (NewTexasRoomCenterMgr i) stage)) = info r"
proof -
  have "info (snd (GetTexasObj now db (NewTexasRoomCenterMgr i) stage)) = restored db i stage"
    using assms(1) by (simp add: GetTexasObj_def NewTexasRoomCenterMgr_def Let_def restore_info synced_def)
  also have "\<dots> = info r" using assms unfolding synced_def by fastforce
  finally show ?thesis .
qed

section \<open>Properties\<close>


definition room7 :: RoomBase where
  "room7 = \<lparr>RoomId = 7, CurPlayerNum = 1, MaxPlayer = 2, EndTime = 0, rbStage = 3, rbGameId = 1, rbCoinType = 9\<rparr>"

definition redis0 :: redis where
  "redis0 = \<lparr>redisOn = True, store = (\<lambda>_. None), getFails = (\<lambda>_. False), setFails = (\<lambda>_. False)\<rparr>"

definition zone_ops7 :: "zone_op list" where
  "zone_ops7 = [ZUpdate 0 (Some room7), ZPick 0 3, ZPick 0 3]"

lemma run_zone_ops7:
  "TexasMap (snd (foldl (exec_zone (\<lambda>xs lt. xs) 0) (redis0, NewTexasRoomCenterMgr 5) zone_ops7))
    = [(3, \<lparr>info = \<lparr>dbIndex = 5, dbStage = 3, RoomsMap = [(7, Some (take_seat room7))]\<rparr>, upTime = 0, isChange = True\<rparr>)]"
  by code_simp




text \<open>C15: A quick start gives a seat in the room of the stage that has the least id among those with a
  free seat, whatever the order in which Go walks the map, adds exactly one player to it and marks
  the table for saving; a rollback for that room then restores the table.\<close>

theorem quick_start_least_room:
  assumes "zone_ok (db, m)" and "qsStage req \<noteq> sall"
    and "GetTexasObj now db m (qsStage req) = (m1, room)"
    and "(k, Some b) \<in> set (rooms_of room)" and "not_full b"
    and "\<forall>k' b'. (k', Some b') \<in> set (rooms_of room) \<and> not_full b' \<longrightarrow> k \<le> k'"
    and "QuickStart sall now db createRoomFn between m (Some req) = (m2, rsp)"
    and "GetTexasObj now db m2 (qsStage req) = (m3, room3)"
    and "k \<noteq> 0" and "QuickStartRollback now db m2 (Some (qsStage req, k)) = (m4, code)"
    and "GetTexasObj now db m4 (qsStage req) = (m5, room5)"
  shows "rsp = \<lparr>Code = ERR_OK, RoomInfo = Some (take_seat b)\<rparr>
     \<and> map_of (rooms_of room3) = (map_of (rooms_of room))(k \<mapsto> Some (take_seat b)) \<and> isChange room3
     \<and> code = ERR_OK \<and> map_of (rooms_of room5) = map_of (rooms_of room)"
proof -
  have ok: "table_ok (rooms_of room)" using GetTexasObj_ok [OF assms(1,3)] by simp
  then have id: "RoomId b' = k'" if "(k', Some b') \<in> set (rooms_of room)" for k' b'
    using that by (auto simp: table_ok_def entry_ok_def)
  have dist: "distinct (map fst (rooms_of room))" using ok by (simp add: table_ok_def)
  obtain k' b' where p: "pick_room (rooms_of room) None = Some (k', b')" "RoomId b' \<le> RoomId b"
    using pick_room_le [OF assms(4,5)] by blast
  have in': "(k', Some b') \<in> set (rooms_of room)" "not_full b'" using pick_room_least [OF p(1)] by blast+
  have "k' = k" using assms(6) in' p(2) id in'(1) id [OF assms(4)] by (metis order_antisym)
  then have kb: "k' = k" "b' = b"
    using in'(1) assms(4) dist by (auto dest: eq_key_imp_eq_value)
  let ?s = "qsStage req" and ?put = "\<lambda>v. Save (set_rooms (alist_put k (Some v) (rooms_of room)) room)"
  have m2: "m2 = put_stage ?s (?put (take_seat b)) m1"
    and rsp: "rsp = \<lparr>Code = ERR_OK, RoomInfo = Some (take_seat b)\<rparr>"
    using assms(2,3,7) p(1) kb by (simp_all add: QuickStart_def QuickStart_pick_def)
  have g3: "GetTexasObj now db m2 ?s = (m2, ?put (take_seat b))"
    using m2 by (simp add: GetTexasObj_def put_stage_def)
  have "0 \<le> CurPlayerNum b" using ok assms(4) by (auto simp: table_ok_def entry_ok_def)
  then have m4: "m4 = put_stage ?s (Save (set_rooms (alist_put k (Some b)
        (alist_put k (Some (take_seat b)) (rooms_of room))) (?put (take_seat b)))) m2" "code = ERR_OK"
    using assms(9,10) g3 by (auto simp: QuickStartRollback_def take_seat_def set_rooms_def Save_def)
  have "map_of (rooms_of room) k = Some (Some b)" using dist assms(4) by (simp add: map_of_is_SomeI)
  then show ?thesis using rsp m4 g3 assms(8,11)
    by (auto simp: GetTexasObj_def put_stage_def fun_eq_iff Save_def)
qed

definition zone7 :: TexasRoomCenterMgr where
  "zone7 = fst (UpdateRoomInfo 0 redis0 (NewTexasRoomCenterMgr 5) (Some room7))"

theorem quick_start_least_room_witness:
  "snd (QuickStart 0 0 redis0 (\<lambda>_ _ _. Inl []) id zone7 (Some \<lparr>qsGameId = 1, qsStage = 3, qsCoinType = 9\<rparr>))
     = \<lparr>Code = ERR_OK, RoomInfo = Some (take_seat room7)\<rparr>"
proof -
  let ?req = "\<lparr>qsGameId = 1, qsStage = 3, qsCoinType = 9\<rparr>"
  have "zone_ok (redis0, NewTexasRoomCenterMgr 5)"
    by (simp add: zone_ok_def redis0_def NewTexasRoomCenterMgr_def)
  then have "zone_ok (redis0, zone7)"
    unfolding zone7_def by (rule UpdateRoomInfo_ok) (simp add: base_ok_def room7_def)
  moreover obtain m1 room where g: "GetTexasObj 0 redis0 zone7 3 = (m1, room)" by fastforce
  moreover have "rooms_of (snd (GetTexasObj 0 redis0 zone7 3)) = [(7, Some room7)]" by code_simp
  then have rooms: "rooms_of room = [(7, Some room7)]" using g by simp
  obtain m2 rsp where q: "QuickStart 0 0 redis0 (\<lambda>_ _ _. Inl []) id zone7 (Some ?req) = (m2, rsp)" by fastforce
  obtain m3 room3 where g3: "GetTexasObj 0 redis0 m2 3 = (m3, room3)" by fastforce
  obtain m4 code where r: "QuickStartRollback 0 redis0 m2 (Some (3, 7)) = (m4, code)" by fastforce
  obtain m5 room5 where g5: "GetTexasObj 0 redis0 m4 3 = (m5, room5)" by fastforce
  have "not_full room7" by (simp add: not_full_def room7_def)
  from quick_start_least_room [of redis0 zone7 ?req 0 0 m1 room 7 room7 _ _ m2 rsp m3 room3 m4 code m5 room5]
  show ?thesis using calculation rooms q g3 r g5 \<open>not_full room7\<close> by simp
qed

text \<open>The rooms a list request is about.\<close>

definition listed_rooms :: "int \<Rightarrow> int \<Rightarrow> redis \<Rightarrow> TexasRoomCenterMgr \<Rightarrow> int \<Rightarrow> RoomBase list" where
  "listed_rooms sall now db m stage =
     (if stage = sall then concat (map (\<lambda>e. table_rooms (rooms_of (snd e))) (TexasMap m))
      else table_rooms (rooms_of (snd (GetTexasObj now db m stage))))"

lemma page_slice_chunk:
  assumes "0 < sz" and "int (Suc i) * int sz < 2 ^ 32" and "int (length xs) < 2 ^ 32"
  shows "page_slice (int (Suc i)) (int sz) xs = take sz (drop (i * sz) xs)"
proof -
  have "int i * 1 \<le> int i * int sz" using assms(1) by (intro mult_left_mono) auto
  moreover have "int (Suc i) * int sz = int i * int sz + int sz" by (simp add: distrib_right)
  ultimately have i: "int i * int sz < 2 ^ 32" "int i < 2 ^ 32" using assms(2) by linarith+
  have u: "u32 (int i) = int i" "u32 (int i * int sz) = int i * int sz"
    "u32 (int (Suc i) * int sz) = int (Suc i) * int sz" "u32 (int (length xs)) = int (length xs)"
    using i assms(2,3) by (simp_all add: u32_def)
  have u': "u32 (int sz + int i * int sz) = int sz + int i * int sz"
    using u(3) by (simp add: distrib_right)
  consider "length xs \<le> i * sz" | "i * sz < length xs" "length xs < Suc i * sz"
    | "i * sz < length xs" "Suc i * sz \<le> length xs" by linarith
  then show ?thesis
  proof cases
    case 1
    then have "int (length xs) \<le> int i * int sz" by (metis of_nat_le_iff of_nat_mult)
    then show ?thesis using 1 by (simp add: page_slice_def Let_def u)
  next
    case 2
    then have "\<not> int (length xs) \<le> int i * int sz" "int (length xs) < int (Suc i) * int sz"
      by (metis not_le of_nat_less_iff of_nat_mult)+
    moreover have "nat (int (length xs) - int i * int sz) = length xs - i * sz"
      by (metis nat_minus_as_int of_nat_mult)
    ultimately show ?thesis using 2 by (simp add: page_slice_def Let_def u u' nat_mult_distrib distrib_right)
  next
    case 3
    then have "\<not> int (length xs) \<le> int i * int sz" "\<not> int (length xs) < int (Suc i) * int sz"
      by (metis not_le of_nat_less_iff of_nat_mult)+
    then show ?thesis using assms(1) by (simp add: page_slice_def Let_def u u' nat_mult_distrib distrib_right)
  qed
qed

lemma concat_pages: "concat (map (\<lambda>i. take sz (drop (i * sz) xs)) [0..<n]) = take (n * sz) xs"
proof (induction n)
  case (Suc n)
  have "take (Suc n * sz) xs = take (n * sz) xs @ take sz (drop (n * sz) xs)"
    by (simp only: mult_Suc add.commute [of sz] take_add)
  then show ?case using Suc by simp
qed simp

lemma sortRooms_correct:
  assumes "slice_sort sort_rooms" and "slice_sort sort_index" and "room_less st = Some lt"
  shows "\<exists>ys. sortRoomsLocked (parallelSort sort_rooms sort_index procs) xs st = (ys, ERR_OK)
     \<and> mset ys = mset xs \<and> sorted_by lt ys"
proof -
  have "strict_weak lt"
    using assms(3) by (cases st) (auto simp: room_less_def strict_weak_key strict_weak_key_rev)
  moreover have "st \<noteq> SORT_TYPE_NONE" using assms(3) by (auto simp: room_less_def)
  ultimately show ?thesis
    using parallel_sorting.parallelSort_correct [OF parallel_sorting.intro [OF assms(1,2)], of lt]
    by (simp add: sortRoomsLocked_def assms(3) sorted_by_short)
qed

text \<open>For each order the list offers, the pages of a zone, put one after the other, are the rooms
  of the stage (or of all stages), each once and in that order, up to the page asked for, and every
  page reports their number: this for any \<open>sort.Slice\<close> that keeps its contract, on one or many
  processors, as long as the products stay below \<open>2 ^ 32\<close>.\<close>

theorem room_pages_partition:
  assumes "slice_sort sort_rooms" and "slice_sort sort_index" and "room_less st = Some lt"
    and "0 < sz" and "sz \<le> 500" and "int n * int sz < 2 ^ 32"
    and "int (length (listed_rooms sall now db m stage)) < 2 ^ 32"
  shows "\<exists>rooms. mset rooms = mset (listed_rooms sall now db m stage) \<and> sorted_by lt rooms
     \<and> concat (map (\<lambda>i. RoomList (snd (RoomListPage (parallelSort sort_rooms sort_index procs) sall now db m
          \<lparr>rlStage = stage, PageIndex = int (Suc i), PageSize = int sz, SortType = st\<rparr>))) [0..<n])
        = take (n * sz) rooms
     \<and> (\<forall>i<n. TotalCount (snd (RoomListPage (parallelSort sort_rooms sort_index procs) sall now db m
          \<lparr>rlStage = stage, PageIndex = int (Suc i), PageSize = int sz, SortType = st\<rparr>))
        = int (length rooms))"
proof -
  let ?xs = "listed_rooms sall now db m stage" and ?ps = "parallelSort sort_rooms sort_index procs"
  let ?req = "\<lambda>i. \<lparr>rlStage = stage, PageIndex = int (Suc i), PageSize = int sz, SortType = st\<rparr>"
  obtain ys where ys: "sortRoomsLocked ?ps ?xs st = (ys, ERR_OK)" "mset ys = mset ?xs" "sorted_by lt ys"
    using sortRooms_correct [OF assms(1,2,3)] by blast
  have len: "length ys = length ?xs" using ys(2) by (rule mset_eq_length)
  have rsp: "snd (RoomListPage ?ps sall now db m (?req i)) = \<lparr>rlCode = ERR_OK,
      RoomList = page_slice (int (Suc i)) (int sz) ys, TotalCount = u32 (int (length ?xs))\<rparr>" for i
    using ys(1) assms(4,5) by (auto simp: RoomListPage_def listed_rooms_def Let_def split: prod.splits)
  have page: "page_slice (int (Suc i)) (int sz) ys = take sz (drop (i * sz) ys)" if "i < n" for i
  proof (rule page_slice_chunk [OF assms(4)])
    have "Suc i * sz \<le> n * sz" using that by (intro mult_right_mono) auto
    then have "int (Suc i * sz) \<le> int (n * sz)" by (simp only: of_nat_le_iff)
    then show "int (Suc i) * int sz < 2 ^ 32" using assms(6) by (simp only: of_nat_mult)
    show "int (length ys) < 2 ^ 32" using assms(7) len by simp
  qed
  have pages: "map (\<lambda>i. RoomList (snd (RoomListPage ?ps sall now db m (?req i)))) [0..<n]
      = map (\<lambda>i. take sz (drop (i * sz) ys)) [0..<n]"
    by (rule map_cong [OF refl]) (simp only: rsp page RoomListRsp.simps set_upt atLeastLessThan_iff)
  have total: "TotalCount (snd (RoomListPage ?ps sall now db m (?req i))) = int (length ys)" for i
    using assms(7) len by (simp only: rsp RoomListRsp.simps) (simp add: u32_def)
  show ?thesis
    by (intro exI [of _ ys] conjI allI impI ys(2,3) total) (simp only: pages concat_pages)
qed

theorem room_pages_partition_witness:
  "concat (map (\<lambda>i. RoomList (snd (RoomListPage (parallelSort insertionSort insertionSort 4) 0 0 redis0 zone7
      \<lparr>rlStage = 3, PageIndex = int (Suc i), PageSize = int 10, SortType = SORT_TYPE_ID\<rparr>))) [0..<2]) = [room7]"
proof -
  have ls: "listed_rooms 0 0 redis0 zone7 3 = [room7]" by code_simp
  have lt: "room_less SORT_TYPE_ID = Some (\<lambda>a b. RoomId a < RoomId b)" by (simp add: room_less_def)
  have one: "take (2 * 10) rooms = [room7]" if "mset rooms = mset [room7]" for rooms
    using that by simp
  obtain rooms where "mset rooms = mset [room7]"
    and pages: "concat (map (\<lambda>i. RoomList (snd (RoomListPage (parallelSort insertionSort insertionSort 4) 0 0 redis0 zone7
      \<lparr>rlStage = 3, PageIndex = int (Suc i), PageSize = int 10, SortType = SORT_TYPE_ID\<rparr>))) [0..<2]) = take (2 * 10) rooms"
    using room_pages_partition [OF go_sort.slice_sort_axioms go_sort.slice_sort_axioms lt,
        of 10 2 0 0 redis0 zone7 3 4, unfolded ls] by auto
  then show ?thesis using one by (simp only:)
qed

text \<open>A quick start that finds no free seat asks the factory for a room with the coin type in the
  place of the stage and the stage in the place of the coin type.  With the factory of the room
  centre, the room that is created and registered under the requested stage says of itself that it
  belongs to the stage with the number of the coin type: the two agree only when stage and coin type
  are the same number.\<close>

theorem created_room_swaps_stage:
  assumes "qsStage req \<noteq> sall"
    and "QuickStart_pick now db m (qsStage req) = (m1, None)"
    and "OnAiCreateRoom confs genId gen t send (qsGameId req) (qsCoinType req) (qsStage req) = Inr (Some base)"
    and "GetTexasObj now db (between m1) (qsStage req) = (m2, room)"
    and "map_of (rooms_of room) (RoomId base) = None"
    and "QuickStart sall now db (OnAiCreateRoom confs genId gen t send) between m (Some req) = (m3, rsp)"
  shows "\<exists>b r. RoomInfo rsp = Some b \<and> map_of (TexasMap m3) (qsStage req) = Some r
     \<and> map_of (rooms_of r) (RoomId b) = Some (Some b)
     \<and> rbStage b = qsCoinType req \<and> rbCoinType b = qsStage req"
proof -
  let ?b = "base\<lparr>CurPlayerNum := 1\<rparr>"
  have st: "rbStage base = qsCoinType req" "rbCoinType base = qsStage req"
    using assms(3) by (auto simp: OnAiCreateRoom_def Let_def split: option.splits sum.splits)
  have "m3 = put_stage (qsStage req) (Save (set_rooms (alist_put (RoomId base) (Some ?b) (rooms_of room)) room)) m2"
    and "rsp = \<lparr>Code = ERR_OK, RoomInfo = Some ?b\<rparr>"
    using assms by (auto simp: QuickStart_def QuickStart_register_def Let_def)
  then show ?thesis using st by (simp add: put_stage_def)
qed

theorem created_room_swaps_stage_witness:
  "\<exists>b. RoomInfo (snd (QuickStart 0 0 redis0
       (OnAiCreateRoom (\<lambda>_ _. Some \<lparr>MaxPlayerCount = 9, RoomKeepLive = 60\<rparr>) (Inr 1) (\<lambda>i. i) 0 (\<lambda>_. None))
       id (NewTexasRoomCenterMgr 5) (Some \<lparr>qsGameId = 1, qsStage = 3, qsCoinType = 2\<rparr>))) = Some b \<and> rbStage b = 2"
proof -
  let ?f = "OnAiCreateRoom (\<lambda>_ _. Some \<lparr>MaxPlayerCount = 9, RoomKeepLive = 60\<rparr>) (Inr 1) (\<lambda>i. i) 0 (\<lambda>_. None)"
  let ?req = "\<lparr>qsGameId = 1, qsStage = 3, qsCoinType = 2\<rparr>"
  let ?base = "\<lparr>RoomId = 1, CurPlayerNum = 0, MaxPlayer = 9, EndTime = 3600, rbStage = 2, rbGameId = 1, rbCoinType = 3\<rparr>"
  have f: "?f 1 2 3 = Inr (Some ?base)" by (simp add: OnAiCreateRoom_def)
  obtain m1 where p: "QuickStart_pick 0 redis0 (NewTexasRoomCenterMgr 5) 3 = (m1, None)"
    by (simp add: QuickStart_pick_def GetTexasObj_def NewTexasRoomCenterMgr_def restoreStageLocked_def
        redis0_def NewTexasRoomObj_def Let_def)
  then have m1: "rooms_of (snd (GetTexasObj 0 redis0 m1 3)) = []"
    by (auto simp: QuickStart_pick_def GetTexasObj_def NewTexasRoomCenterMgr_def restoreStageLocked_def
        redis0_def NewTexasRoomObj_def Let_def put_stage_def)
  obtain m2 room where g: "GetTexasObj 0 redis0 (id m1) 3 = (m2, room)" by fastforce
  obtain m3 rsp where q: "QuickStart 0 0 redis0 ?f id (NewTexasRoomCenterMgr 5) (Some ?req) = (m3, rsp)" by fastforce
  show ?thesis
    using created_room_swaps_stage [of ?req 0 0 redis0 "NewTexasRoomCenterMgr 5" m1
        "\<lambda>_ _. Some \<lparr>MaxPlayerCount = 9, RoomKeepLive = 60\<rparr>" "Inr 1" "\<lambda>i. i" 0 "\<lambda>_. None" ?base id m2 room m3 rsp]
      f p g m1 q by auto
qed

end
