(* ===== verification/RoleState.thy ===== *)
theory RoleState
  imports GoPrelude
begin

text \<open>
  The state of a player's role in the main server (\<open>mainsvr/role/role.go\<close>) and the two ways in which
  its changes leave the process: the synchronisation with the client (\<open>sync_state.go\<close>) and the
  incremental save of its sections to a Redis hash (\<open>persist_hash.go\<close>, \<open>role_mgr.go\<close>).

  The section flags and the combined flag \<open>ALL\<close> belong to the protocol package, which is not part of
  the repository: they are a parameter, of which only \<open>flags_ok\<close> is assumed: each flag is a bit of its own, and \<open>ALL\<close> has them all.  Messages the modelled
  code never looks into are byte strings.  A map of Go is a partial function where its order does not
  show; \<open>sortedInt32Values\<close> fixes the order of what is sent.
\<close>

unbundle bit_operations_syntax

section \<open>The role\<close>

datatype RoleSection =
    REGISTER_INFO | LOGIN_INFO | GAME_INFO | BASIC_INFO | INVENTORY_INFO | ICON_INFO | MALL_INFO
  | MAIN_TASK_INFO | GUILD_INFO | GUIDE_INFO | OPEN_FUNC_INFO | ACTVITY_TASK_INFO

type_synonym mask = "32 word"

record section_flags =
  flag_of :: "RoleSection \<Rightarrow> mask"
  flag_ALL :: mask

definition flags_ok :: "section_flags \<Rightarrow> bool" where
  "flags_ok fl \<longleftrightarrow> (\<exists>n :: RoleSection \<Rightarrow> nat. inj n
     \<and> (\<forall>s. n s < 32 \<and> flag_of fl s = push_bit (n s) 1 \<and> bit (flag_ALL fl) (n s)))"

record RoleRegisterInfo =
  riUid :: "64 word"
  TimeOffsetMinute :: int
  RegisterTime :: int

record RoleLoginInfo =
  LastLoginTime :: int
  NowLoginTime :: int
  LastLogoutTime :: int
  LastHartBeatTime :: int

record RoleBasicInfo =
  Name :: string
  Level :: int
  Gold :: int
  Diamond :: int
  Credit :: int
  Liveness :: int
  GuildCoin :: int
  AceCoin :: int
  WinAceCoin :: int
  FreeCnt :: int

record RoleIconInfo =
  IconUrl :: string
  FrameId :: int
  IconMap :: "int \<rightharpoonup> bool"
  FrameMap :: "int \<rightharpoonup> bool"

record PbMallItem =
  DailyBuyCount :: int
  TotalBuyCount :: int

record RoleInfo =
  RegisterInfo :: "RoleRegisterInfo option"
  LoginInfo :: "RoleLoginInfo option"
  GameInfo :: "string option"
  BasicInfo :: "RoleBasicInfo option"
  InventoryInfo :: "(int \<rightharpoonup> int) option"
  IconInfo :: "RoleIconInfo option"
  MallInfo :: "(int \<rightharpoonup> PbMallItem) option"
  MainTaskInfo :: "string option"
  GuildInfo :: "string option"
  GuideInfo :: "string option"
  OpenFunInfo :: "string option"
  Actvity_Info :: "(int \<rightharpoonup> string) option"
  GiftInfo :: "string option"

definition empty_info :: RoleInfo where
  "empty_info = \<lparr>RegisterInfo = None, LoginInfo = None, GameInfo = None, BasicInfo = None,
     InventoryInfo = None, IconInfo = None, MallInfo = None, MainTaskInfo = None, GuildInfo = None,
     GuideInfo = None, OpenFunInfo = None, Actvity_Info = None, GiftInfo = None\<rparr>"

text \<open>The keys of one patchable map that changed since the last synchronisation.\<close>

record dirty_keys =
  upserts :: "int set"
  deletes :: "int set"

definition no_keys :: dirty_keys where "no_keys = \<lparr>upserts = {}, deletes = {}\<rparr>"

record Role =
  PbRole :: RoleInfo
  connBusId :: int
  HeartBeatExpiryTime :: int
  HeartBeatCount :: int
  pendingFullSyncMask :: mask
  pendingPatchMask :: mask
  inventoryDirty :: dirty_keys
  mallDirty :: dirty_keys
  iconDirty :: dirty_keys
  frameDirty :: dirty_keys
  actTaskDirty :: dirty_keys
  iconEquipDirty :: bool
  needPersist :: bool
  persistDirtySince :: int
  lastPersistAt :: int
  persistReasons :: "string set"
  persistDirtyMask :: mask

section \<open>Marking changes (sync_state.go)\<close>

definition hasRoleSection :: "section_flags \<Rightarrow> mask \<Rightarrow> RoleSection \<Rightarrow> bool" where
  "hasRoleSection fl m s \<longleftrightarrow> m AND flag_of fl s \<noteq> 0"

definition patchableRoleSectionMask :: "section_flags \<Rightarrow> mask" where
  "patchableRoleSectionMask fl = flag_of fl INVENTORY_INFO OR flag_of fl ICON_INFO
     OR flag_of fl MALL_INFO OR flag_of fl ACTVITY_TASK_INFO"

definition MarkFullSync :: "section_flags \<Rightarrow> mask \<Rightarrow> Role \<Rightarrow> Role" where
  "MarkFullSync fl flag r =
     (if flag = 0 then r
      else if flag = flag_ALL fl then r\<lparr>pendingFullSyncMask := flag, pendingPatchMask := 0\<rparr>
      else r\<lparr>pendingFullSyncMask := pendingFullSyncMask r OR flag,
             pendingPatchMask := pendingPatchMask r AND NOT flag\<rparr>)"

text \<open>\<open>now\<close> is the role's clock.\<close>

definition setStringValue :: "string set \<Rightarrow> string \<Rightarrow> string set" where
  "setStringValue m v = (if v = [] then m else insert v m)"

definition MarkPersistDirty :: "int \<Rightarrow> string \<Rightarrow> Role \<Rightarrow> Role" where
  "MarkPersistDirty now reason r =
     (let r1 = (if \<not> needPersist r then r\<lparr>persistDirtySince := now\<rparr> else r)
      in r1\<lparr>needPersist := True, persistReasons := setStringValue (persistReasons r1) reason\<rparr>)"

definition markPersistSectionDirty :: "int \<Rightarrow> mask \<Rightarrow> string \<Rightarrow> Role \<Rightarrow> Role" where
  "markPersistSectionDirty now flag reason r =
     MarkPersistDirty now reason
       (if flag \<noteq> 0 then r\<lparr>persistDirtyMask := persistDirtyMask r OR flag\<rparr> else r)"

definition markPatchSection :: "section_flags \<Rightarrow> RoleSection \<Rightarrow> Role \<Rightarrow> Role" where
  "markPatchSection fl s r =
     (if flag_of fl s = 0 then r
      else if pendingFullSyncMask r = flag_ALL fl \<or> hasRoleSection fl (pendingFullSyncMask r) s then r
      else r\<lparr>pendingPatchMask := pendingPatchMask r OR flag_of fl s\<rparr>)"

text \<open>\<open>TouchBasicInfo\<close>, \<open>TouchGameInfo\<close>, \<open>TouchGuideInfo\<close>, \<open>TouchOpenFuncInfo\<close> and
  \<open>TouchMainTaskInfo\<close> differ in the section only.\<close>

definition TouchSection :: "section_flags \<Rightarrow> int \<Rightarrow> RoleSection \<Rightarrow> string \<Rightarrow> Role \<Rightarrow> Role" where
  "TouchSection fl now s reason r =
     markPersistSectionDirty now (flag_of fl s) reason (MarkFullSync fl (flag_of fl s) r)"

definition TouchActvityTaskInfo :: "section_flags \<Rightarrow> int \<Rightarrow> string \<Rightarrow> Role \<Rightarrow> Role" where
  "TouchActvityTaskInfo fl now reason r =
     markPersistSectionDirty now (flag_of fl ACTVITY_TASK_INFO) reason (markPatchSection fl ACTVITY_TASK_INFO r)"

definition mark_key :: "int \<Rightarrow> bool \<Rightarrow> dirty_keys \<Rightarrow> dirty_keys" where
  "mark_key k deleted d =
     (if deleted then \<lparr>upserts = upserts d - {k}, deletes = insert k (deletes d)\<rparr>
      else \<lparr>upserts = insert k (upserts d), deletes = deletes d - {k}\<rparr>)"

definition MarkInventoryDirty :: "section_flags \<Rightarrow> int \<Rightarrow> int \<Rightarrow> bool \<Rightarrow> Role \<Rightarrow> Role" where
  "MarkInventoryDirty fl now itemID deleted r =
     markPersistSectionDirty now (flag_of fl INVENTORY_INFO) ''inventory''
       ((markPatchSection fl INVENTORY_INFO r)\<lparr>inventoryDirty := mark_key itemID deleted (inventoryDirty r)\<rparr>)"

definition MarkMallDirty :: "section_flags \<Rightarrow> int \<Rightarrow> int \<Rightarrow> bool \<Rightarrow> Role \<Rightarrow> Role" where
  "MarkMallDirty fl now confID deleted r =
     markPersistSectionDirty now (flag_of fl MALL_INFO) ''mall''
       ((markPatchSection fl MALL_INFO r)\<lparr>mallDirty := mark_key confID deleted (mallDirty r)\<rparr>)"

definition MarkIconDirty :: "section_flags \<Rightarrow> int \<Rightarrow> int \<Rightarrow> bool \<Rightarrow> Role \<Rightarrow> Role" where
  "MarkIconDirty fl now iconID deleted r =
     markPersistSectionDirty now (flag_of fl ICON_INFO) ''icon''
       ((markPatchSection fl ICON_INFO r)\<lparr>iconDirty := mark_key iconID deleted (iconDirty r)\<rparr>)"

definition MarkFrameDirty :: "section_flags \<Rightarrow> int \<Rightarrow> int \<Rightarrow> bool \<Rightarrow> Role \<Rightarrow> Role" where
  "MarkFrameDirty fl now frameID deleted r =
     markPersistSectionDirty now (flag_of fl ICON_INFO) ''icon''
       ((markPatchSection fl ICON_INFO r)\<lparr>frameDirty := mark_key frameID deleted (frameDirty r)\<rparr>)"

definition MarkIconEquipDirty :: "section_flags \<Rightarrow> int \<Rightarrow> Role \<Rightarrow> Role" where
  "MarkIconEquipDirty fl now r =
     markPersistSectionDirty now (flag_of fl ICON_INFO) ''icon''
       ((markPatchSection fl ICON_INFO r)\<lparr>iconEquipDirty := True\<rparr>)"

definition MarkActvityTaskDirty :: "section_flags \<Rightarrow> int \<Rightarrow> int \<Rightarrow> bool \<Rightarrow> Role \<Rightarrow> Role" where
  "MarkActvityTaskDirty fl now taskID deleted r =
     markPersistSectionDirty now (flag_of fl ACTVITY_TASK_INFO) ''activity_task''
       ((markPatchSection fl ACTVITY_TASK_INFO r)\<lparr>actTaskDirty := mark_key taskID deleted (actTaskDirty r)\<rparr>)"

section \<open>What is sent\<close>

definition sortedInt32Values :: "int set \<Rightarrow> int list" where
  "sortedInt32Values m = sorted_list_of_set m"

text \<open>A patch of one map: the entries to store and the keys to delete.\<close>

record 'v map_patch =
  UpsertItems :: "(int \<times> 'v) list"
  DeleteIds :: "int list"

definition map_patch_of :: "(int \<rightharpoonup> 'v) option \<Rightarrow> dirty_keys \<Rightarrow> 'v map_patch" where
  "map_patch_of m d = \<lparr>UpsertItems = List.map_filter (\<lambda>k. case m of None \<Rightarrow> None | Some f \<Rightarrow> map_option (Pair k) (f k))
       (sortedInt32Values (upserts d)),
     DeleteIds = sortedInt32Values (deletes d)\<rparr>"

definition empty_patch :: "'v map_patch \<Rightarrow> bool" where
  "empty_patch p \<longleftrightarrow> UpsertItems p = [] \<and> DeleteIds p = []"

definition patch_or_nil :: "'v map_patch \<Rightarrow> 'v map_patch option" where
  "patch_or_nil p = (if empty_patch p then None else Some p)"

record RoleIconPatch =
  CurrentEquip :: "(string \<times> int) option"
  IconPatch :: "bool map_patch"
  FramePatch :: "bool map_patch"

definition buildInventoryPatch :: "Role \<Rightarrow> int map_patch option" where
  "buildInventoryPatch r = patch_or_nil (map_patch_of (InventoryInfo (PbRole r)) (inventoryDirty r))"

definition buildMallPatch :: "Role \<Rightarrow> PbMallItem map_patch option" where
  "buildMallPatch r = patch_or_nil (map_patch_of (MallInfo (PbRole r)) (mallDirty r))"

definition buildActvityTaskPatch :: "Role \<Rightarrow> string map_patch option" where
  "buildActvityTaskPatch r = patch_or_nil (map_patch_of (Actvity_Info (PbRole r)) (actTaskDirty r))"

text \<open>\<^const>\<open>None\<close> for the whole is the nil patch.  The source reads \<open>IconInfo.IconUrl\<close> without a nil
  check: a role always has icons once its fields are initialised, and nil shows here as no pair.\<close>

definition buildIconPatch :: "Role \<Rightarrow> RoleIconPatch option" where
  "buildIconPatch r =
     (let info = IconInfo (PbRole r);
          p = \<lparr>CurrentEquip = (if iconEquipDirty r then map_option (\<lambda>i. (IconUrl i, FrameId i)) info else None),
               IconPatch = map_patch_of (map_option IconMap info) (iconDirty r),
               FramePatch = map_patch_of (map_option FrameMap info) (frameDirty r)\<rparr>
      in if CurrentEquip p = None \<and> empty_patch (IconPatch p) \<and> empty_patch (FramePatch p) then None else Some p)"

definition fillRoleInfoByMask :: "section_flags \<Rightarrow> RoleInfo \<Rightarrow> mask \<Rightarrow> RoleInfo \<Rightarrow> RoleInfo" where
  "fillRoleInfoByMask fl src m ri =
     (if m = 0 then ri
      else \<lparr>RegisterInfo = (if hasRoleSection fl m REGISTER_INFO then RegisterInfo src else RegisterInfo ri),
         LoginInfo = (if hasRoleSection fl m LOGIN_INFO then LoginInfo src else LoginInfo ri),
         GameInfo = (if hasRoleSection fl m GAME_INFO then GameInfo src else GameInfo ri),
         BasicInfo = (if hasRoleSection fl m BASIC_INFO then BasicInfo src else BasicInfo ri),
         InventoryInfo = (if hasRoleSection fl m INVENTORY_INFO then InventoryInfo src else InventoryInfo ri),
         IconInfo = (if hasRoleSection fl m ICON_INFO then IconInfo src else IconInfo ri),
         MallInfo = (if hasRoleSection fl m MALL_INFO then MallInfo src else MallInfo ri),
         MainTaskInfo = (if hasRoleSection fl m MAIN_TASK_INFO then MainTaskInfo src else MainTaskInfo ri),
         GuildInfo = (if hasRoleSection fl m GUILD_INFO then GuildInfo src else GuildInfo ri),
         GuideInfo = (if hasRoleSection fl m GUIDE_INFO then GuideInfo src else GuideInfo ri),
         OpenFunInfo = (if hasRoleSection fl m OPEN_FUNC_INFO then OpenFunInfo src else OpenFunInfo ri),
         Actvity_Info = (if hasRoleSection fl m ACTVITY_TASK_INFO then Actvity_Info src else Actvity_Info ri),
         GiftInfo = GiftInfo ri\<rparr>)"

definition buildLegacySyncData :: "section_flags \<Rightarrow> Role \<Rightarrow> mask \<Rightarrow> RoleInfo" where
  "buildLegacySyncData fl r m = fillRoleInfoByMask fl (PbRole r) m empty_info"

record ScSyncUserDataV2 =
  FullSectionMask :: mask
  PatchSectionMask :: mask
  scRoleInfo :: "RoleInfo option"
  InventoryPatch :: "int map_patch option"
  MallPatch :: "PbMallItem map_patch option"
  scIconPatch :: "RoleIconPatch option"
  ActvityTaskPatch :: "string map_patch option"

definition patch_bit :: "section_flags \<Rightarrow> RoleSection \<Rightarrow> 'p option \<Rightarrow> mask" where
  "patch_bit fl s p = (case p of None \<Rightarrow> 0 | Some _ \<Rightarrow> flag_of fl s)"

definition buildSyncDataV2 ::
  "section_flags \<Rightarrow> Role \<Rightarrow> mask \<Rightarrow> mask \<Rightarrow> ScSyncUserDataV2 option \<times> mask" where
  "buildSyncDataV2 fl r fullMask requestedPatchMask =
     (let inv = (if hasRoleSection fl requestedPatchMask INVENTORY_INFO then buildInventoryPatch r else None);
          mall = (if hasRoleSection fl requestedPatchMask MALL_INFO then buildMallPatch r else None);
          icon = (if hasRoleSection fl requestedPatchMask ICON_INFO then buildIconPatch r else None);
          task = (if hasRoleSection fl requestedPatchMask ACTVITY_TASK_INFO then buildActvityTaskPatch r else None);
          actual = patch_bit fl INVENTORY_INFO inv OR patch_bit fl MALL_INFO mall
                   OR patch_bit fl ICON_INFO icon OR patch_bit fl ACTVITY_TASK_INFO task
      in if fullMask = 0 \<and> actual = 0 then (None, 0)
         else (Some \<lparr>FullSectionMask = fullMask, PatchSectionMask = actual,
                 scRoleInfo = (if fullMask \<noteq> 0 then Some (fillRoleInfoByMask fl (PbRole r) fullMask empty_info) else None),
                 InventoryPatch = inv, MallPatch = mall, scIconPatch = icon, ActvityTaskPatch = task\<rparr>, actual))"

record sync_payload =
  spFull :: mask
  spRequested :: mask
  spActual :: mask
  spLegacy :: "RoleInfo option"
  spV2 :: "ScSyncUserDataV2 option"

definition prepareSyncPayload :: "section_flags \<Rightarrow> bool \<Rightarrow> Role \<Rightarrow> sync_payload" where
  "prepareSyncPayload fl usePatch r =
     (let fullMask = pendingFullSyncMask r;
          requested = pendingPatchMask r AND patchableRoleSectionMask fl
      in if \<not> usePatch then
           (let full1 = fullMask OR requested
            in \<lparr>spFull = full1, spRequested = 0, spActual = 0,
                spLegacy = (if full1 \<noteq> 0 then Some (buildLegacySyncData fl r full1) else None), spV2 = None\<rparr>)
         else
           (let requested1 = (if fullMask = flag_ALL fl then 0 else requested AND NOT fullMask)
            in if fullMask = 0 \<and> requested1 = 0
               then \<lparr>spFull = fullMask, spRequested = requested1, spActual = 0, spLegacy = None, spV2 = None\<rparr>
               else (let (v2, actual) = buildSyncDataV2 fl r fullMask requested1
                     in \<lparr>spFull = fullMask, spRequested = requested1, spActual = actual, spLegacy = None, spV2 = v2\<rparr>)))"

definition clearInventoryDirty :: "Role \<Rightarrow> Role" where "clearInventoryDirty r = r\<lparr>inventoryDirty := no_keys\<rparr>"
definition clearMallDirty :: "Role \<Rightarrow> Role" where "clearMallDirty r = r\<lparr>mallDirty := no_keys\<rparr>"
definition clearIconDirty :: "Role \<Rightarrow> Role" where
  "clearIconDirty r = r\<lparr>iconDirty := no_keys, frameDirty := no_keys, iconEquipDirty := False\<rparr>"
definition clearActTaskDirty :: "Role \<Rightarrow> Role" where "clearActTaskDirty r = r\<lparr>actTaskDirty := no_keys\<rparr>"

definition clearSyncedState :: "section_flags \<Rightarrow> mask \<Rightarrow> mask \<Rightarrow> Role \<Rightarrow> Role" where
  "clearSyncedState fl fullMask patchMask r =
     (if fullMask = flag_ALL fl then
        clearActTaskDirty (clearIconDirty (clearMallDirty (clearInventoryDirty
          (r\<lparr>pendingFullSyncMask := 0, pendingPatchMask := 0\<rparr>))))
      else
        let hit = (\<lambda>s. hasRoleSection fl fullMask s \<or> hasRoleSection fl patchMask s);
            r = r\<lparr>pendingFullSyncMask := pendingFullSyncMask r AND NOT fullMask,
                  pendingPatchMask := pendingPatchMask r AND NOT patchMask AND NOT fullMask\<rparr>;
            r = (if hit INVENTORY_INFO then clearInventoryDirty r else r);
            r = (if hit MALL_INFO then clearMallDirty r else r);
            r = (if hit ICON_INFO then clearIconDirty r else r);
            r = (if hit ACTVITY_TASK_INFO then clearActTaskDirty r else r)
        in r)"

text \<open>Both configuration values are read when the role is flushed.\<close>

definition ShouldUseSyncPatch :: "bool \<Rightarrow> 64 word list \<Rightarrow> RoleInfo \<Rightarrow> bool" where
  "ShouldUseSyncPatch enabled allowUids i =
     (if \<not> enabled then False else if allowUids = [] then True
      else (case RegisterInfo i of None \<Rightarrow> False | Some ri \<Rightarrow> riUid ri \<in> set allowUids))"

text \<open>What a flush sends, and whether it returned nil.  \<open>sendOk\<close> is the result of the bus.\<close>

datatype sync_message = SyncLegacy mask RoleInfo | SyncV2 ScSyncUserDataV2

definition FlushClientSync ::
  "section_flags \<Rightarrow> bool \<Rightarrow> bool \<Rightarrow> Role \<Rightarrow> Role \<times> sync_message option \<times> bool" where
  "FlushClientSync fl usePatch sendOk r =
     (let p = prepareSyncPayload fl usePatch r in
      if spFull p = 0 \<and> spRequested p = 0 then (r, None, True)
      else if connBusId r = 0 then (r, None, False)
      else case spLegacy p of
        Some data \<Rightarrow>
          if sendOk then (clearSyncedState fl (spFull p) 0 r, Some (SyncLegacy (spFull p) data), True)
          else (r, None, False)
      | None \<Rightarrow>
          (case spV2 p of
             None \<Rightarrow> if spFull p = 0 \<and> spActual p = 0 then (clearSyncedState fl 0 (spRequested p) r, None, True)
                     else (r, None, False)
           | Some v2 \<Rightarrow>
               if sendOk then (clearSyncedState fl (spFull p) (spRequested p) r, Some (SyncV2 v2), True)
               else (r, None, False)))"

definition SyncDataToClient ::
  "section_flags \<Rightarrow> bool \<Rightarrow> bool \<Rightarrow> mask \<Rightarrow> Role \<Rightarrow> Role \<times> sync_message option \<times> bool" where
  "SyncDataToClient fl usePatch sendOk dataFlag r = FlushClientSync fl usePatch sendOk (MarkFullSync fl dataFlag r)"

section \<open>The sections of a role (persist_hash.go)\<close>

datatype section_msg =
    RegMsg RoleRegisterInfo | LoginMsg RoleLoginInfo | BytesMsg string | BasicMsg RoleBasicInfo | InvMsg "int \<rightharpoonup> int"
  | IconMsg RoleIconInfo | MallMsg "int \<rightharpoonup> PbMallItem" | TaskMsg "int \<rightharpoonup> string"

text \<open>The read accessors of \<open>roleSectionAccessors\<close>, and the assignment of \<open>unmarshalSection\<close>.\<close>

fun get_section :: "RoleSection \<Rightarrow> RoleInfo \<Rightarrow> section_msg option" where
  "get_section REGISTER_INFO i = map_option RegMsg (RegisterInfo i)"
| "get_section LOGIN_INFO i = map_option LoginMsg (LoginInfo i)"
| "get_section GAME_INFO i = map_option BytesMsg (GameInfo i)"
| "get_section BASIC_INFO i = map_option BasicMsg (BasicInfo i)"
| "get_section INVENTORY_INFO i = map_option InvMsg (InventoryInfo i)"
| "get_section ICON_INFO i = map_option IconMsg (IconInfo i)"
| "get_section MALL_INFO i = map_option MallMsg (MallInfo i)"
| "get_section MAIN_TASK_INFO i = map_option BytesMsg (MainTaskInfo i)"
| "get_section GUILD_INFO i = map_option BytesMsg (GuildInfo i)"
| "get_section GUIDE_INFO i = map_option BytesMsg (GuideInfo i)"
| "get_section OPEN_FUNC_INFO i = map_option BytesMsg (OpenFunInfo i)"
| "get_section ACTVITY_TASK_INFO i = map_option TaskMsg (Actvity_Info i)"

fun unmarshalSection :: "RoleSection \<Rightarrow> section_msg \<Rightarrow> RoleInfo \<Rightarrow> RoleInfo" where
  "unmarshalSection REGISTER_INFO msg i = (case msg of RegMsg m \<Rightarrow> i\<lparr>RegisterInfo := Some m\<rparr> | _ \<Rightarrow> i)"
| "unmarshalSection LOGIN_INFO msg i = (case msg of LoginMsg m \<Rightarrow> i\<lparr>LoginInfo := Some m\<rparr> | _ \<Rightarrow> i)"
| "unmarshalSection GAME_INFO msg i = (case msg of BytesMsg m \<Rightarrow> i\<lparr>GameInfo := Some m\<rparr> | _ \<Rightarrow> i)"
| "unmarshalSection BASIC_INFO msg i = (case msg of BasicMsg m \<Rightarrow> i\<lparr>BasicInfo := Some m\<rparr> | _ \<Rightarrow> i)"
| "unmarshalSection INVENTORY_INFO msg i = (case msg of InvMsg m \<Rightarrow> i\<lparr>InventoryInfo := Some m\<rparr> | _ \<Rightarrow> i)"
| "unmarshalSection ICON_INFO msg i = (case msg of IconMsg m \<Rightarrow> i\<lparr>IconInfo := Some m\<rparr> | _ \<Rightarrow> i)"
| "unmarshalSection MALL_INFO msg i = (case msg of MallMsg m \<Rightarrow> i\<lparr>MallInfo := Some m\<rparr> | _ \<Rightarrow> i)"
| "unmarshalSection MAIN_TASK_INFO msg i = (case msg of BytesMsg m \<Rightarrow> i\<lparr>MainTaskInfo := Some m\<rparr> | _ \<Rightarrow> i)"
| "unmarshalSection GUILD_INFO msg i = (case msg of BytesMsg m \<Rightarrow> i\<lparr>GuildInfo := Some m\<rparr> | _ \<Rightarrow> i)"
| "unmarshalSection GUIDE_INFO msg i = (case msg of BytesMsg m \<Rightarrow> i\<lparr>GuideInfo := Some m\<rparr> | _ \<Rightarrow> i)"
| "unmarshalSection OPEN_FUNC_INFO msg i = (case msg of BytesMsg m \<Rightarrow> i\<lparr>OpenFunInfo := Some m\<rparr> | _ \<Rightarrow> i)"
| "unmarshalSection ACTVITY_TASK_INFO msg i = (case msg of TaskMsg m \<Rightarrow> i\<lparr>Actvity_Info := Some m\<rparr> | _ \<Rightarrow> i)"

definition roleSectionAccessors :: "RoleSection list" where
  "roleSectionAccessors = [REGISTER_INFO, LOGIN_INFO, GAME_INFO, BASIC_INFO, INVENTORY_INFO, ICON_INFO,
     MALL_INFO, MAIN_TASK_INFO, GUILD_INFO, GUIDE_INFO, OPEN_FUNC_INFO, ACTVITY_TASK_INFO]"

text \<open>The hash of a role.  A field holds a message, read back as it was written, or nothing but the
  empty encoding of a nil message: the accessors return typed nil pointers, which the check for nil in
  \<open>saveRoleHash\<close> does not catch.  \<open>blank\<close> tells the messages whose encoding is empty, which loading
  skips.\<close>

record role_hash =
  hashFields :: "RoleSection \<rightharpoonup> section_msg option"
  giftField :: "string option"

definition empty_hash :: role_hash where "empty_hash = \<lparr>hashFields = (\<lambda>_. None), giftField = None\<rparr>"

text \<open>One pass of \<open>saveRoleHash\<close> over the accessors: \<open>fault\<close> tells the fields whose encoding or
  whose HSET fails.  The last component is whether the pass went through.\<close>

fun save_fields ::
  "(RoleSection \<Rightarrow> bool) \<Rightarrow> (RoleSection \<Rightarrow> bool) \<Rightarrow> RoleInfo \<Rightarrow> RoleSection list \<Rightarrow> role_hash \<Rightarrow> role_hash \<times> bool" where
  "save_fields fault write i [] h = (h, True)"
| "save_fields fault write i (s # ss) h =
     (if \<not> write s then save_fields fault write i ss h
      else if fault s then (h, False)
      else save_fields fault write i ss (h\<lparr>hashFields := (hashFields h)(s \<mapsto> get_section s i)\<rparr>))"

definition saveRoleHash ::
  "section_flags \<Rightarrow> (RoleSection \<Rightarrow> bool) \<Rightarrow> bool \<Rightarrow> Role \<Rightarrow> bool \<Rightarrow> role_hash \<Rightarrow> role_hash \<times> bool" where
  "saveRoleHash fl fault giftFault r force h =
     (let writeMask = (if force \<or> persistDirtyMask r = flag_ALL fl \<or> persistDirtyMask r = 0
                       then flag_ALL fl else persistDirtyMask r);
          (h1, ok) = save_fields fault (\<lambda>s. force \<or> writeMask = flag_ALL fl \<or> hasRoleSection fl writeMask s)
                       (PbRole r) roleSectionAccessors h
      in if \<not> ok then (h1, False)
         else if force \<and> GiftInfo (PbRole r) \<noteq> None then
           (if giftFault then (h1, False) else (h1\<lparr>giftField := GiftInfo (PbRole r)\<rparr>, True))
         else (h1, True))"

datatype load_result = LoadErr | LoadNil | LoadInfo RoleInfo

fun load_fields ::
  "(section_msg \<Rightarrow> bool) \<Rightarrow> (RoleSection \<rightharpoonup> section_msg option) \<Rightarrow> RoleSection list \<Rightarrow> RoleInfo \<Rightarrow> RoleInfo" where
  "load_fields blank f [] i = i"
| "load_fields blank f (s # ss) i = (case f s of
      None \<Rightarrow> load_fields blank f ss i
    | Some None \<Rightarrow> load_fields blank f ss i
    | Some (Some msg) \<Rightarrow> if blank msg then load_fields blank f ss i
                  else load_fields blank f ss (unmarshalSection s msg i))"

definition loadRoleHash :: "(section_msg \<Rightarrow> bool) \<Rightarrow> bool \<Rightarrow> role_hash \<Rightarrow> load_result" where
  "loadRoleHash blank getFault h =
     (if getFault then LoadErr
      else if (\<forall>s\<in>set roleSectionAccessors. hashFields h s = None) \<and> giftField h = None then LoadNil
      else let i = load_fields blank (hashFields h) roleSectionAccessors empty_info
           in LoadInfo (case giftField h of
                None \<Rightarrow> i | Some g \<Rightarrow> if g = [] then i else i\<lparr>GiftInfo := Some g\<rparr>))"

section \<open>Saving (sync_state.go, role.go)\<close>

definition clearPersistDirtyMask :: "Role \<Rightarrow> Role" where
  "clearPersistDirtyMask r = r\<lparr>persistDirtyMask := 0\<rparr>"

definition Uid :: "Role \<Rightarrow> 64 word option" where
  "Uid r = map_option riUid (RegisterInfo (PbRole r))"

text \<open>\<open>transUid\<close> is the uid of the transaction; a role without \<open>RegisterInfo\<close> does not occur here.\<close>

definition SaveToDB ::
  "section_flags \<Rightarrow> (RoleSection \<Rightarrow> bool) \<Rightarrow> 64 word \<Rightarrow> Role \<Rightarrow> role_hash \<Rightarrow> Role \<times> role_hash \<times> bool" where
  "SaveToDB fl fault transUid r h =
     (if Uid r \<noteq> Some transUid then (r, h, False)
      else case saveRoleHash fl fault False r False h of
        (h1, False) \<Rightarrow> (r, h1, False)
      | (h1, True) \<Rightarrow> (clearPersistDirtyMask r, h1, True))"

definition SaveToDBSync ::
  "section_flags \<Rightarrow> (RoleSection \<Rightarrow> bool) \<Rightarrow> bool \<Rightarrow> Role \<Rightarrow> role_hash \<Rightarrow> Role \<times> role_hash \<times> bool" where
  "SaveToDBSync fl fault giftFault r h = (case saveRoleHash fl fault giftFault r True h of
      (h1, False) \<Rightarrow> (r, h1, False)
    | (h1, True) \<Rightarrow> (clearPersistDirtyMask (r\<lparr>needPersist := False, persistDirtySince := 0, persistReasons := {}\<rparr>), h1, True))"

definition persistDebounceSec :: "int \<Rightarrow> int" where
  "persistDebounceSec conf = (if conf > 0 then i32 conf else 10)"

definition shouldFlushPersistNow :: "int \<Rightarrow> int \<Rightarrow> bool \<Rightarrow> Role \<Rightarrow> bool" where
  "shouldFlushPersistNow conf now force r =
     (if \<not> needPersist r then False
      else if force then True
      else if persistDirtySince r = 0 then False
      else i32 (now - persistDirtySince r) \<ge> persistDebounceSec conf)"

definition MaybeFlushPersist ::
  "section_flags \<Rightarrow> int \<Rightarrow> int \<Rightarrow> (RoleSection \<Rightarrow> bool) \<Rightarrow> 64 word option \<Rightarrow> bool \<Rightarrow> Role \<Rightarrow> role_hash
   \<Rightarrow> Role \<times> role_hash \<times> bool" where
  "MaybeFlushPersist fl conf now fault trns force r h = (case trns of
      None \<Rightarrow> (r, h, True)
    | Some transUid \<Rightarrow>
        if \<not> shouldFlushPersistNow conf now force r then (r, h, True)
        else case SaveToDB fl fault transUid r h of
          (r1, h1, False) \<Rightarrow> (r1, h1, False)
        | (r1, h1, True) \<Rightarrow>
            (r1\<lparr>needPersist := False, persistDirtySince := 0, lastPersistAt := now, persistReasons := {}\<rparr>, h1, True))"

text \<open>\<open>FlushPending\<close> is one after the other, and its error is the first of the two.\<close>

definition FlushPending ::
  "section_flags \<Rightarrow> bool \<Rightarrow> bool \<Rightarrow> int \<Rightarrow> int \<Rightarrow> (RoleSection \<Rightarrow> bool) \<Rightarrow> 64 word option \<Rightarrow> bool \<Rightarrow> Role \<Rightarrow> role_hash
   \<Rightarrow> Role \<times> role_hash \<times> sync_message option \<times> bool" where
  "FlushPending fl usePatch sendOk conf now fault trns forcePersist r h =
     (case FlushClientSync fl usePatch sendOk r of
        (r1, msg, ok1) \<Rightarrow> (case MaybeFlushPersist fl conf now fault trns forcePersist r1 h of
          (r2, h2, ok2) \<Rightarrow> (r2, h2, msg, ok1 \<and> ok2)))"

end
