(* ===== verification/RoleSync.thy ===== *)
theory RoleSync
  imports RoleState
begin

text \<open>
  The synchronisation of a role with its client refines a plain copy.  The client is the
  specification: it replaces the sections of a full message and applies the patches.  Any mixture of
  marked changes and flushes, in both modes and with failing sends, leaves the client equal to the
  role up to what is still marked, and a flush that returns nil leaves nothing marked.
\<close>

section \<open>Masks\<close>

lemma has_zero [simp]: "\<not> hasRoleSection fl 0 s"
  by (simp add: hasRoleSection_def)

lemma flag_bits:
  assumes "flags_ok fl"
  obtains n where "inj n" "\<And>m s. hasRoleSection fl m s \<longleftrightarrow> bit m (n s)" "\<And>s. bit (flag_ALL fl) (n s)"
    "\<And>s t. bit (flag_of fl s) (n t) \<longleftrightarrow> s = t" "\<And>s. flag_of fl s \<noteq> 0" "\<And>s. n s < 32"
proof -
  obtain n :: "RoleSection \<Rightarrow> nat" where n: "inj n" "\<And>s. n s < 32" "\<And>s. flag_of fl s = push_bit (n s) 1"
      "\<And>s. bit (flag_ALL fl) (n s)"
    using assms by (auto simp: flags_ok_def)
  have f: "bit (flag_of fl s) i \<longleftrightarrow> i = n s" for s i
    using n(2) [of s] by (auto simp: n(3) bit_simps)
  have "hasRoleSection fl m s \<longleftrightarrow> bit m (n s)" for m s
    using n(2) [of s] by (auto simp: hasRoleSection_def bit_eq_iff [of _ 0] bit_and_iff f)
  moreover have "flag_of fl s \<noteq> 0" for s using f [of s "n s"] by auto
  moreover have "bit (flag_of fl s) (n t) \<longleftrightarrow> s = t" for s t using n(1) by (auto simp: f inj_eq)
  ultimately show ?thesis by (intro that [of n] n(1,2,4))
qed

lemma has_ALL: "flags_ok fl \<Longrightarrow> hasRoleSection fl (flag_ALL fl) s"
  by (erule flag_bits) simp

lemma flag_nonzero: "flags_ok fl \<Longrightarrow> flag_of fl s \<noteq> 0"
  by (erule flag_bits) simp

lemma has_or: "flags_ok fl \<Longrightarrow> hasRoleSection fl (a OR b) s \<longleftrightarrow> hasRoleSection fl a s \<or> hasRoleSection fl b s"
  by (erule flag_bits) (simp add: bit_or_iff)

lemma has_and: "flags_ok fl \<Longrightarrow> hasRoleSection fl (a AND b) s \<longleftrightarrow> hasRoleSection fl a s \<and> hasRoleSection fl b s"
  by (erule flag_bits) (simp add: bit_and_iff)

lemma has_not: "flags_ok fl \<Longrightarrow> hasRoleSection fl (NOT b) s \<longleftrightarrow> \<not> hasRoleSection fl b s"
  by (erule flag_bits) (simp add: bit_not_iff)

lemma has_flag: "flags_ok fl \<Longrightarrow> hasRoleSection fl (flag_of fl t) s \<longleftrightarrow> s = t"
  by (erule flag_bits) auto

definition patchable :: "RoleSection \<Rightarrow> bool" where
  "patchable s \<longleftrightarrow> s \<in> {INVENTORY_INFO, ICON_INFO, MALL_INFO, ACTVITY_TASK_INFO}"

lemma has_patchable: "flags_ok fl \<Longrightarrow> hasRoleSection fl (patchableRoleSectionMask fl) s \<longleftrightarrow> patchable s"
  by (auto simp: patchableRoleSectionMask_def patchable_def has_or has_flag)

lemmas mask_simps = has_ALL flag_nonzero has_or has_and has_not has_flag has_patchable

section \<open>The client\<close>

definition map_view :: "(int \<rightharpoonup> 'v) option \<Rightarrow> (int \<rightharpoonup> 'v)" where
  "map_view m = (case m of None \<Rightarrow> Map.empty | Some f \<Rightarrow> f)"

definition icon_view :: "RoleIconInfo option \<Rightarrow> RoleIconInfo" where
  "icon_view i = (case i of None \<Rightarrow> \<lparr>IconUrl = [], FrameId = 0, IconMap = Map.empty, FrameMap = Map.empty\<rparr> | Some j \<Rightarrow> j)"

definition client_map :: "'v map_patch option \<Rightarrow> (int \<rightharpoonup> 'v) \<Rightarrow> (int \<rightharpoonup> 'v)" where
  "client_map p f = (case p of None \<Rightarrow> f
     | Some q \<Rightarrow> (\<lambda>k. if k \<in> set (DeleteIds q) then None else f k) ++ map_of (UpsertItems q))"

definition client_icon :: "RoleIconPatch option \<Rightarrow> RoleIconInfo \<Rightarrow> RoleIconInfo" where
  "client_icon p i = (case p of None \<Rightarrow> i
     | Some q \<Rightarrow> \<lparr>IconUrl = (case CurrentEquip q of None \<Rightarrow> IconUrl i | Some (u, _) \<Rightarrow> u),
                FrameId = (case CurrentEquip q of None \<Rightarrow> FrameId i | Some (_, f) \<Rightarrow> f),
                IconMap = client_map (Some (IconPatch q)) (IconMap i),
                FrameMap = client_map (Some (FramePatch q)) (FrameMap i)\<rparr>)"

fun client_apply :: "section_flags \<Rightarrow> sync_message \<Rightarrow> RoleInfo \<Rightarrow> RoleInfo" where
  "client_apply fl (SyncLegacy m data) c = fillRoleInfoByMask fl data m c"
| "client_apply fl (SyncV2 d) c =
     (let c = (case scRoleInfo d of None \<Rightarrow> c | Some data \<Rightarrow> fillRoleInfoByMask fl data (FullSectionMask d) c)
      in c\<lparr>InventoryInfo := Some (client_map (InventoryPatch d) (map_view (InventoryInfo c))),
           MallInfo := Some (client_map (MallPatch d) (map_view (MallInfo c))),
           IconInfo := Some (client_icon (scIconPatch d) (icon_view (IconInfo c))),
           Actvity_Info := Some (client_map (ActvityTaskPatch d) (map_view (Actvity_Info c)))\<rparr>)"

text \<open>A section that is absent counts as an empty one.\<close>

fun same_section :: "RoleSection \<Rightarrow> RoleInfo \<Rightarrow> RoleInfo \<Rightarrow> bool" where
  "same_section INVENTORY_INFO i c \<longleftrightarrow> map_view (InventoryInfo i) = map_view (InventoryInfo c)"
| "same_section MALL_INFO i c \<longleftrightarrow> map_view (MallInfo i) = map_view (MallInfo c)"
| "same_section ICON_INFO i c \<longleftrightarrow> icon_view (IconInfo i) = icon_view (IconInfo c)"
| "same_section ACTVITY_TASK_INFO i c \<longleftrightarrow> map_view (Actvity_Info i) = map_view (Actvity_Info c)"
| "same_section s i c \<longleftrightarrow> get_section s i = get_section s c"

section \<open>What is marked covers what differs\<close>

definition map_tracked :: "(int \<rightharpoonup> 'v) \<Rightarrow> (int \<rightharpoonup> 'v) \<Rightarrow> dirty_keys \<Rightarrow> bool" where
  "map_tracked f g d \<longleftrightarrow> finite (upserts d) \<and> finite (deletes d)
     \<and> (\<forall>k. k \<notin> upserts d \<union> deletes d \<longrightarrow> f k = g k)
     \<and> (\<forall>k\<in>upserts d. f k \<noteq> None) \<and> (\<forall>k\<in>deletes d. f k = None)"

fun tracked :: "Role \<Rightarrow> RoleInfo \<Rightarrow> RoleSection \<Rightarrow> bool" where
  "tracked r c INVENTORY_INFO \<longleftrightarrow>
     map_tracked (map_view (InventoryInfo (PbRole r))) (map_view (InventoryInfo c)) (inventoryDirty r)"
| "tracked r c MALL_INFO \<longleftrightarrow>
     map_tracked (map_view (MallInfo (PbRole r))) (map_view (MallInfo c)) (mallDirty r)"
| "tracked r c ACTVITY_TASK_INFO \<longleftrightarrow>
     map_tracked (map_view (Actvity_Info (PbRole r))) (map_view (Actvity_Info c)) (actTaskDirty r)"
| "tracked r c ICON_INFO \<longleftrightarrow>
     (let i = icon_view (IconInfo (PbRole r)); j = icon_view (IconInfo c) in
      map_tracked (IconMap i) (IconMap j) (iconDirty r) \<and> map_tracked (FrameMap i) (FrameMap j) (frameDirty r)
      \<and> (if iconEquipDirty r then IconInfo (PbRole r) \<noteq> None else IconUrl i = IconUrl j \<and> FrameId i = FrameId j))"
| "tracked r c s \<longleftrightarrow> same_section s (PbRole r) c"

fun unmarked :: "Role \<Rightarrow> RoleSection \<Rightarrow> bool" where
  "unmarked r INVENTORY_INFO \<longleftrightarrow> inventoryDirty r = no_keys"
| "unmarked r MALL_INFO \<longleftrightarrow> mallDirty r = no_keys"
| "unmarked r ACTVITY_TASK_INFO \<longleftrightarrow> actTaskDirty r = no_keys"
| "unmarked r ICON_INFO \<longleftrightarrow> iconDirty r = no_keys \<and> frameDirty r = no_keys \<and> \<not> iconEquipDirty r"
| "unmarked r _ \<longleftrightarrow> True"

definition sync_inv :: "section_flags \<Rightarrow> Role \<Rightarrow> RoleInfo \<Rightarrow> bool" where
  "sync_inv fl r c \<longleftrightarrow> (\<forall>s. hasRoleSection fl (pendingFullSyncMask r) s
     \<or> tracked r c s \<and> (hasRoleSection fl (pendingPatchMask r) s \<or> unmarked r s))"

lemma map_tracked_clean: "map_tracked f g no_keys \<longleftrightarrow> f = g"
  by (auto simp: map_tracked_def no_keys_def)

lemma tracked_unmarked: "tracked r c s \<Longrightarrow> unmarked r s \<Longrightarrow> same_section s (PbRole r) c"
  by (cases s) (auto simp: map_tracked_clean Let_def icon_view_def split: option.splits)

lemma same_unmarked: "same_section s (PbRole r) c \<Longrightarrow> unmarked r s \<Longrightarrow> tracked r c s"
  by (cases s) (auto simp: map_tracked_clean Let_def)

lemma mark_key_tracked:
  "map_tracked f g d \<Longrightarrow> deleted \<longleftrightarrow> v = None \<Longrightarrow> map_tracked (f(k := v)) g (mark_key k deleted d)"
  by (auto simp: map_tracked_def mark_key_def)

lemma map_of_present:
  "map_of (List.map_filter (\<lambda>k. map_option (Pair k) (f k)) ks) k = (if k \<in> set ks then f k else None)"
  by (induction ks) (auto simp: List.map_filter_simps split: option.splits)

lemma upserts_listed:
  assumes "\<forall>k\<in>set ks. f k \<noteq> None"
  shows "List.map_filter (\<lambda>k. map_option (Pair k) (f k)) ks = [] \<longleftrightarrow> ks = []"
  using assms by (cases ks) (auto simp: List.map_filter_simps)

lemma client_map_tracked:
  assumes "map_tracked (map_view m) g d"
  shows "client_map (patch_or_nil (map_patch_of m d)) g = map_view m"
proof -
  have fin: "set (sorted_list_of_set (upserts d)) = upserts d" "set (sorted_list_of_set (deletes d)) = deletes d"
    using assms by (auto simp: map_tracked_def)
  have up: "UpsertItems (map_patch_of m d) = List.map_filter (\<lambda>k. map_option (Pair k) (map_view m k)) (sorted_list_of_set (upserts d))"
    by (cases m) (simp_all add: map_patch_of_def sortedInt32Values_def map_view_def)
  have del: "DeleteIds (map_patch_of m d) = sorted_list_of_set (deletes d)"
    by (simp add: map_patch_of_def sortedInt32Values_def)
  show ?thesis
  proof (cases "empty_patch (map_patch_of m d)")
    case True
    then have "sorted_list_of_set (upserts d) = []" "sorted_list_of_set (deletes d) = []"
      using upserts_listed [of "sorted_list_of_set (upserts d)" "map_view m"] assms fin
      by (auto simp: empty_patch_def up del map_tracked_def)
    then have "upserts d = {}" "deletes d = {}" using fin by auto
    then show ?thesis using True assms by (auto simp: patch_or_nil_def client_map_def map_tracked_def)
  next
    case False
    have "((\<lambda>k. if k \<in> deletes d then None else g k) ++ map_of (UpsertItems (map_patch_of m d))) k = map_view m k" for k
      using assms by (auto simp: up map_add_def map_of_present fin map_tracked_def split: option.splits)
    then show ?thesis using False by (auto simp: patch_or_nil_def client_map_def del fin)
  qed
qed

section \<open>Marking keeps the invariant\<close>

lemma persist_mark_fields [simp]:
  "PbRole (markPersistSectionDirty now m w r) = PbRole r"
  "pendingFullSyncMask (markPersistSectionDirty now m w r) = pendingFullSyncMask r"
  "pendingPatchMask (markPersistSectionDirty now m w r) = pendingPatchMask r"
  "inventoryDirty (markPersistSectionDirty now m w r) = inventoryDirty r"
  "mallDirty (markPersistSectionDirty now m w r) = mallDirty r"
  "iconDirty (markPersistSectionDirty now m w r) = iconDirty r"
  "frameDirty (markPersistSectionDirty now m w r) = frameDirty r"
  "actTaskDirty (markPersistSectionDirty now m w r) = actTaskDirty r"
  "iconEquipDirty (markPersistSectionDirty now m w r) = iconEquipDirty r"
  by (simp_all add: markPersistSectionDirty_def MarkPersistDirty_def Let_def)

lemma same_fields_inv:
  assumes "sync_inv fl r c" and "PbRole r' = PbRole r" "pendingFullSyncMask r' = pendingFullSyncMask r"
    "pendingPatchMask r' = pendingPatchMask r" "inventoryDirty r' = inventoryDirty r" "mallDirty r' = mallDirty r"
    "iconDirty r' = iconDirty r" "frameDirty r' = frameDirty r" "actTaskDirty r' = actTaskDirty r"
    "iconEquipDirty r' = iconEquipDirty r"
  shows "sync_inv fl r' c"
proof -
  have "tracked r' c s = tracked r c s" "unmarked r' s = unmarked r s" for s
    by (cases s; use assms in \<open>simp add: Let_def\<close>)+
  then show ?thesis using assms by (simp add: sync_inv_def)
qed

lemma MarkFullSync_masks:
  assumes "flags_ok fl"
  shows "hasRoleSection fl (pendingFullSyncMask (MarkFullSync fl m r)) s
      \<longleftrightarrow> hasRoleSection fl (pendingFullSyncMask r) s \<or> hasRoleSection fl m s"
    and "\<not> hasRoleSection fl m s \<Longrightarrow>
      hasRoleSection fl (pendingPatchMask (MarkFullSync fl m r)) s \<longleftrightarrow> hasRoleSection fl (pendingPatchMask r) s"
  using assms by (auto simp: MarkFullSync_def mask_simps)

lemma MarkFullSync_fields [simp]:
  "PbRole (MarkFullSync fl m r) = PbRole r" "inventoryDirty (MarkFullSync fl m r) = inventoryDirty r"
  "mallDirty (MarkFullSync fl m r) = mallDirty r" "iconDirty (MarkFullSync fl m r) = iconDirty r"
  "frameDirty (MarkFullSync fl m r) = frameDirty r" "actTaskDirty (MarkFullSync fl m r) = actTaskDirty r"
  "iconEquipDirty (MarkFullSync fl m r) = iconEquipDirty r"
  by (simp_all add: MarkFullSync_def)

lemma mark_fields_tracked:
  assumes "PbRole r' = PbRole r" "inventoryDirty r' = inventoryDirty r" "mallDirty r' = mallDirty r"
    "iconDirty r' = iconDirty r" "frameDirty r' = frameDirty r" "actTaskDirty r' = actTaskDirty r"
    "iconEquipDirty r' = iconEquipDirty r"
  shows "tracked r' c s = tracked r c s" and "unmarked r' s = unmarked r s"
  by (cases s; use assms in \<open>simp add: Let_def\<close>)+

lemma MarkFullSync_inv:
  assumes "flags_ok fl" "sync_inv fl r c"
  shows "sync_inv fl (MarkFullSync fl m r) c"
  using assms(2) MarkFullSync_masks [OF assms(1)] mark_fields_tracked [of "MarkFullSync fl m r" r]
  by (auto simp: sync_inv_def)

text \<open>A change of one section that is touched afterwards; \<open>only_section\<close> says that nothing else
  changes.\<close>

definition only_section :: "RoleSection \<Rightarrow> RoleInfo \<Rightarrow> RoleInfo \<Rightarrow> bool" where
  "only_section s i i' \<longleftrightarrow> (\<forall>t. t \<noteq> s \<longrightarrow> get_section t i' = get_section t i)"

lemma map_option_injD: "map_option F a = map_option F b \<Longrightarrow> inj F \<Longrightarrow> a = b"
  by (metis injD option.inj_map)

lemma get_same_fields:
  assumes "get_section t i' = get_section t i"
  shows "t = INVENTORY_INFO \<Longrightarrow> InventoryInfo i' = InventoryInfo i"
    and "t = MALL_INFO \<Longrightarrow> MallInfo i' = MallInfo i"
    and "t = ICON_INFO \<Longrightarrow> IconInfo i' = IconInfo i"
    and "t = ACTVITY_TASK_INFO \<Longrightarrow> Actvity_Info i' = Actvity_Info i"
  using assms by (auto dest!: map_option_injD simp: inj_def)

lemma only_section_tracked:
  assumes "only_section s (PbRole r) i'" "t \<noteq> s"
  shows "tracked (r\<lparr>PbRole := i'\<rparr>) c t = tracked r c t"
proof -
  have eq: "get_section t i' = get_section t (PbRole r)" using assms by (simp add: only_section_def)
  show ?thesis using eq get_same_fields [OF eq] by (cases t) (auto simp: Let_def)
qed

lemma TouchSection_inv:
  assumes "flags_ok fl" "sync_inv fl r c" "only_section s (PbRole r) i'"
  shows "sync_inv fl (TouchSection fl now s w (r\<lparr>PbRole := i'\<rparr>)) c"
proof -
  let ?r = "r\<lparr>PbRole := i'\<rparr>"
  let ?r1 = "MarkFullSync fl (flag_of fl s) ?r"
  have "hasRoleSection fl (pendingFullSyncMask ?r1) t
     \<or> tracked ?r1 c t \<and> (hasRoleSection fl (pendingPatchMask ?r1) t \<or> unmarked ?r1 t)" for t
  proof (cases "t = s")
    case True
    then show ?thesis using MarkFullSync_masks(1) [OF assms(1), of "flag_of fl s" ?r s] assms(1) by (simp add: mask_simps)
  next
    case False
    have "unmarked ?r t = unmarked r t" by (cases t) simp_all
    then show ?thesis
      using assms(2) False MarkFullSync_masks [OF assms(1), where m = "flag_of fl s" and r = ?r and s = t]
        mark_fields_tracked [of ?r1 ?r] only_section_tracked [OF assms(3) False, of c] assms(1)
      by (simp add: sync_inv_def mask_simps)
  qed
  then have "sync_inv fl ?r1 c" by (simp add: sync_inv_def)
  then show ?thesis unfolding TouchSection_def by (rule same_fields_inv) simp_all
qed

lemma markPatchSection_fields [simp]:
  "pendingFullSyncMask (markPatchSection fl s r) = pendingFullSyncMask r"
  "PbRole (markPatchSection fl s r) = PbRole r" "inventoryDirty (markPatchSection fl s r) = inventoryDirty r"
  "mallDirty (markPatchSection fl s r) = mallDirty r" "iconDirty (markPatchSection fl s r) = iconDirty r"
  "frameDirty (markPatchSection fl s r) = frameDirty r" "actTaskDirty (markPatchSection fl s r) = actTaskDirty r"
  "iconEquipDirty (markPatchSection fl s r) = iconEquipDirty r"
  by (simp_all add: markPatchSection_def)

lemma markPatchSection_mask:
  assumes "flags_ok fl"
  shows "hasRoleSection fl (pendingFullSyncMask r) s \<or> hasRoleSection fl (pendingPatchMask (markPatchSection fl s r)) s"
    and "hasRoleSection fl (pendingPatchMask r) t \<Longrightarrow> hasRoleSection fl (pendingPatchMask (markPatchSection fl s r)) t"
  using assms by (auto simp: markPatchSection_def mask_simps)

lemma markPatchSection_other [simp]:
  "pendingPatchMask (markPatchSection fl s (r\<lparr>PbRole := x\<rparr>)) = pendingPatchMask (markPatchSection fl s r)"
  by (simp add: markPatchSection_def)

text \<open>A change of one map, marked in its pair of key sets: every other section is as before, and the
  section itself is covered again.\<close>

lemma patch_change_inv:
  assumes "flags_ok fl" "sync_inv fl r c"
    and "pendingFullSyncMask r' = pendingFullSyncMask r"
    and "pendingPatchMask r' = pendingPatchMask (markPatchSection fl s r)"
    and "tracked r c s \<Longrightarrow> tracked r' c s"
    and "\<And>t. t \<noteq> s \<Longrightarrow> tracked r' c t = tracked r c t \<and> unmarked r' t = unmarked r t"
  shows "sync_inv fl r' c"
  unfolding sync_inv_def
proof
  fix t
  have t: "hasRoleSection fl (pendingFullSyncMask r) t
     \<or> tracked r c t \<and> (hasRoleSection fl (pendingPatchMask r) t \<or> unmarked r t)"
    using assms(2) by (simp add: sync_inv_def)
  note m = markPatchSection_mask(2) [OF assms(1), of r t s]
  show "hasRoleSection fl (pendingFullSyncMask r') t
     \<or> tracked r' c t \<and> (hasRoleSection fl (pendingPatchMask r') t \<or> unmarked r' t)"
  proof (cases "t = s")
    case True
    then show ?thesis using t markPatchSection_mask(1) [OF assms(1), of r s] assms(3,4,5) by auto
  next
    case False
    then show ?thesis using t m assms(3,4) assms(6) [OF False] by auto
  qed
qed

abbreviation set_inventory :: "int \<Rightarrow> int option \<Rightarrow> Role \<Rightarrow> Role" where
  "set_inventory k v r \<equiv> r\<lparr>PbRole := (PbRole r)\<lparr>InventoryInfo := Some ((map_view (InventoryInfo (PbRole r)))(k := v))\<rparr>\<rparr>"

abbreviation set_mall :: "int \<Rightarrow> PbMallItem option \<Rightarrow> Role \<Rightarrow> Role" where
  "set_mall k v r \<equiv> r\<lparr>PbRole := (PbRole r)\<lparr>MallInfo := Some ((map_view (MallInfo (PbRole r)))(k := v))\<rparr>\<rparr>"

abbreviation set_task :: "int \<Rightarrow> string option \<Rightarrow> Role \<Rightarrow> Role" where
  "set_task k v r \<equiv> r\<lparr>PbRole := (PbRole r)\<lparr>Actvity_Info := Some ((map_view (Actvity_Info (PbRole r)))(k := v))\<rparr>\<rparr>"

abbreviation set_icons :: "(RoleIconInfo \<Rightarrow> RoleIconInfo) \<Rightarrow> Role \<Rightarrow> Role" where
  "set_icons f r \<equiv> r\<lparr>PbRole := (PbRole r)\<lparr>IconInfo := Some (f (icon_view (IconInfo (PbRole r))))\<rparr>\<rparr>"

lemma map_view_Some [simp]: "map_view (Some f) = f"
  by (simp add: map_view_def)

lemma icon_view_Some [simp]: "icon_view (Some i) = i"
  by (simp add: icon_view_def)

lemma MarkInventoryDirty_inv:
  assumes "flags_ok fl" "sync_inv fl r c" "deleted \<longleftrightarrow> v = None"
  shows "sync_inv fl (MarkInventoryDirty fl now k deleted (set_inventory k v r)) c"
  unfolding MarkInventoryDirty_def
proof (rule patch_change_inv [OF assms(1,2), where s = INVENTORY_INFO], goal_cases)
  case 3 then show ?case using mark_key_tracked [OF _ assms(3)] by simp
next
  case (4 t) then show ?case by (cases t) (simp_all add: Let_def)
qed simp_all

lemma MarkMallDirty_inv:
  assumes "flags_ok fl" "sync_inv fl r c" "deleted \<longleftrightarrow> v = None"
  shows "sync_inv fl (MarkMallDirty fl now k deleted (set_mall k v r)) c"
  unfolding MarkMallDirty_def
proof (rule patch_change_inv [OF assms(1,2), where s = MALL_INFO], goal_cases)
  case 3 then show ?case using mark_key_tracked [OF _ assms(3)] by simp
next
  case (4 t) then show ?case by (cases t) (simp_all add: Let_def)
qed simp_all

lemma MarkActvityTaskDirty_inv:
  assumes "flags_ok fl" "sync_inv fl r c" "deleted \<longleftrightarrow> v = None"
  shows "sync_inv fl (MarkActvityTaskDirty fl now k deleted (set_task k v r)) c"
  unfolding MarkActvityTaskDirty_def
proof (rule patch_change_inv [OF assms(1,2), where s = ACTVITY_TASK_INFO], goal_cases)
  case 3 then show ?case using mark_key_tracked [OF _ assms(3)] by simp
next
  case (4 t) then show ?case by (cases t) (simp_all add: Let_def)
qed simp_all

lemma MarkIconDirty_inv:
  assumes "flags_ok fl" "sync_inv fl r c" "deleted \<longleftrightarrow> v = None"
  shows "sync_inv fl (MarkIconDirty fl now k deleted (set_icons (\<lambda>i. i\<lparr>IconMap := (IconMap i)(k := v)\<rparr>) r)) c"
  unfolding MarkIconDirty_def
proof (rule patch_change_inv [OF assms(1,2), where s = ICON_INFO], goal_cases)
  case 3 then show ?case using mark_key_tracked [OF _ assms(3)] by (simp add: Let_def split: if_splits)
next
  case (4 t) then show ?case by (cases t) (simp_all add: Let_def)
qed simp_all

lemma MarkFrameDirty_inv:
  assumes "flags_ok fl" "sync_inv fl r c" "deleted \<longleftrightarrow> v = None"
  shows "sync_inv fl (MarkFrameDirty fl now k deleted (set_icons (\<lambda>i. i\<lparr>FrameMap := (FrameMap i)(k := v)\<rparr>) r)) c"
  unfolding MarkFrameDirty_def
proof (rule patch_change_inv [OF assms(1,2), where s = ICON_INFO], goal_cases)
  case 3 then show ?case using mark_key_tracked [OF _ assms(3)] by (simp add: Let_def split: if_splits)
next
  case (4 t) then show ?case by (cases t) (simp_all add: Let_def)
qed simp_all

lemma MarkIconEquipDirty_inv:
  assumes "flags_ok fl" "sync_inv fl r c"
  shows "sync_inv fl (MarkIconEquipDirty fl now (set_icons (\<lambda>i. i\<lparr>IconUrl := u, FrameId := f\<rparr>) r)) c"
  unfolding MarkIconEquipDirty_def
proof (rule patch_change_inv [OF assms, where s = ICON_INFO], goal_cases)
  case 3 then show ?case by (simp add: Let_def)
next
  case (4 t) then show ?case by (cases t) (simp_all add: Let_def)
qed simp_all

section \<open>A flush\<close>

lemma fill_fields [simp]:
  "RegisterInfo (fillRoleInfoByMask fl src m i) = (if hasRoleSection fl m REGISTER_INFO then RegisterInfo src else RegisterInfo i)"
  "LoginInfo (fillRoleInfoByMask fl src m i) = (if hasRoleSection fl m LOGIN_INFO then LoginInfo src else LoginInfo i)"
  "GameInfo (fillRoleInfoByMask fl src m i) = (if hasRoleSection fl m GAME_INFO then GameInfo src else GameInfo i)"
  "BasicInfo (fillRoleInfoByMask fl src m i) = (if hasRoleSection fl m BASIC_INFO then BasicInfo src else BasicInfo i)"
  "InventoryInfo (fillRoleInfoByMask fl src m i) = (if hasRoleSection fl m INVENTORY_INFO then InventoryInfo src else InventoryInfo i)"
  "IconInfo (fillRoleInfoByMask fl src m i) = (if hasRoleSection fl m ICON_INFO then IconInfo src else IconInfo i)"
  "MallInfo (fillRoleInfoByMask fl src m i) = (if hasRoleSection fl m MALL_INFO then MallInfo src else MallInfo i)"
  "MainTaskInfo (fillRoleInfoByMask fl src m i) = (if hasRoleSection fl m MAIN_TASK_INFO then MainTaskInfo src else MainTaskInfo i)"
  "GuildInfo (fillRoleInfoByMask fl src m i) = (if hasRoleSection fl m GUILD_INFO then GuildInfo src else GuildInfo i)"
  "GuideInfo (fillRoleInfoByMask fl src m i) = (if hasRoleSection fl m GUIDE_INFO then GuideInfo src else GuideInfo i)"
  "OpenFunInfo (fillRoleInfoByMask fl src m i) = (if hasRoleSection fl m OPEN_FUNC_INFO then OpenFunInfo src else OpenFunInfo i)"
  "Actvity_Info (fillRoleInfoByMask fl src m i) = (if hasRoleSection fl m ACTVITY_TASK_INFO then Actvity_Info src else Actvity_Info i)"
  "GiftInfo (fillRoleInfoByMask fl src m i) = GiftInfo i"
  by (simp_all add: fillRoleInfoByMask_def)

lemma fill_same:
  "same_section s (fillRoleInfoByMask fl src m i) c \<longleftrightarrow>
     (if hasRoleSection fl m s then same_section s src c else same_section s i c)"
  by (cases s) simp_all

lemma same_fill:
  "same_section s i (fillRoleInfoByMask fl src m c) \<longleftrightarrow>
     (if hasRoleSection fl m s then same_section s i src else same_section s i c)"
  by (cases s) simp_all

lemma same_section_refl: "same_section s i i"
  by (cases s) simp_all

lemma client_map_None [simp]: "client_map None f = f"
  by (simp add: client_map_def)

lemma client_icon_None [simp]: "client_icon None i = i"
  by (simp add: client_icon_def)

lemma patch_map_or:
  "client_map (Some p) f = client_map (patch_or_nil p) f"
  by (auto simp: client_map_def patch_or_nil_def empty_patch_def)

lemma icon_view_maps:
  "map_view (map_option IconMap i) = IconMap (icon_view i)" "map_view (map_option FrameMap i) = FrameMap (icon_view i)"
  by (cases i; simp add: map_view_def icon_view_def)+

lemma client_icon_tracked:
  assumes "tracked r c ICON_INFO"
  shows "client_icon (buildIconPatch r) (icon_view (IconInfo c)) = icon_view (IconInfo (PbRole r))"
proof -
  let ?i = "icon_view (IconInfo (PbRole r))" and ?j = "icon_view (IconInfo c)"
  let ?ip = "map_patch_of (map_option IconMap (IconInfo (PbRole r))) (iconDirty r)"
    and ?fp = "map_patch_of (map_option FrameMap (IconInfo (PbRole r))) (frameDirty r)"
  let ?e = "if iconEquipDirty r then map_option (\<lambda>i. (IconUrl i, FrameId i)) (IconInfo (PbRole r)) else None"
  have t: "map_tracked (IconMap ?i) (IconMap ?j) (iconDirty r)" "map_tracked (FrameMap ?i) (FrameMap ?j) (frameDirty r)"
    "if iconEquipDirty r then IconInfo (PbRole r) \<noteq> None else IconUrl ?i = IconUrl ?j \<and> FrameId ?i = FrameId ?j"
    using assms by (simp_all add: Let_def)
  have maps: "client_map (patch_or_nil ?ip) (IconMap ?j) = IconMap ?i" "client_map (patch_or_nil ?fp) (FrameMap ?j) = FrameMap ?i"
    using client_map_tracked [of "map_option IconMap (IconInfo (PbRole r))" "IconMap ?j" "iconDirty r"]
      client_map_tracked [of "map_option FrameMap (IconInfo (PbRole r))" "FrameMap ?j" "frameDirty r"] t(1,2)
    by (simp_all add: icon_view_maps)
  have equip: "(case ?e of None \<Rightarrow> IconUrl ?j | Some (u, _) \<Rightarrow> u) = IconUrl ?i"
      "(case ?e of None \<Rightarrow> FrameId ?j | Some (_, f) \<Rightarrow> f) = FrameId ?i"
    using t(3) by (cases "iconEquipDirty r"; force simp: icon_view_def)+
  show ?thesis
  proof (cases "?e = None \<and> empty_patch ?ip \<and> empty_patch ?fp")
    case True
    then show ?thesis using maps equip
      by (auto simp: buildIconPatch_def Let_def patch_or_nil_def intro!: RoleIconInfo.equality)
  next
    case False
    then have "buildIconPatch r = Some \<lparr>CurrentEquip = ?e, IconPatch = ?ip, FramePatch = ?fp\<rparr>"
      by (auto simp: buildIconPatch_def Let_def)
    then show ?thesis using maps equip
      by (simp add: client_icon_def patch_map_or) 
  qed
qed

lemma clear_fields [simp]:
  "PbRole (clearSyncedState fl f p r) = PbRole r" "connBusId (clearSyncedState fl f p r) = connBusId r"
  by (simp_all add: clearSyncedState_def Let_def clearActTaskDirty_def clearIconDirty_def clearMallDirty_def clearInventoryDirty_def)

lemma clearSyncedState_full:
  assumes "flags_ok fl" "hasRoleSection fl (pendingFullSyncMask (clearSyncedState fl f p r)) s"
  shows "hasRoleSection fl (pendingFullSyncMask r) s \<and> \<not> hasRoleSection fl f s"
  using assms by (auto simp: clearSyncedState_def Let_def mask_simps clearActTaskDirty_def clearIconDirty_def
      clearMallDirty_def clearInventoryDirty_def split: if_splits)

lemma clearSyncedState_unmarked:
  assumes "flags_ok fl" "hasRoleSection fl f s \<or> hasRoleSection fl p s \<or> unmarked r s"
  shows "unmarked (clearSyncedState fl f p r) s"
  using assms by (cases s) (auto simp: clearSyncedState_def Let_def clearActTaskDirty_def clearIconDirty_def
      clearMallDirty_def clearInventoryDirty_def)

text \<open>After a successful flush every section was sent in full, was patched, or was not marked.\<close>

lemma flushed_inv:
  assumes fl: "flags_ok fl" and inv: "sync_inv fl r c"
    and all: "\<And>s. hasRoleSection fl (pendingFullSyncMask r) s \<Longrightarrow> hasRoleSection fl f s"
    and pat: "\<And>s. hasRoleSection fl (pendingPatchMask r) s \<Longrightarrow> patchable s \<Longrightarrow> hasRoleSection fl f s \<or> hasRoleSection fl p s"
    and sent: "\<And>s. hasRoleSection fl f s \<or> tracked r c s \<and> (hasRoleSection fl p s \<or> unmarked r s)
      \<Longrightarrow> same_section s (PbRole r) c'"
  shows "sync_inv fl (clearSyncedState fl f p r) c' \<and> (\<forall>s. same_section s (PbRole (clearSyncedState fl f p r)) c')"
proof -
  have s: "hasRoleSection fl f s \<or> tracked r c s \<and> (hasRoleSection fl p s \<or> unmarked r s)" for s
  proof (cases "hasRoleSection fl (pendingFullSyncMask r) s")
    case False
    then have t: "tracked r c s" "hasRoleSection fl (pendingPatchMask r) s \<or> unmarked r s"
      using inv by (auto simp: sync_inv_def)
    moreover have "unmarked r s" if "\<not> patchable s" using that by (cases s) (simp_all add: patchable_def)
    ultimately show ?thesis using pat by blast
  qed (use all in blast)
  let ?r = "clearSyncedState fl f p r"
  have same: "same_section s (PbRole ?r) c'" for s using sent [OF s] by simp
  have "unmarked ?r s" for s using s [of s] by (intro clearSyncedState_unmarked [OF fl]) auto
  then have "sync_inv fl ?r c'" using same same_unmarked by (auto simp: sync_inv_def)
  then show ?thesis using same by blast
qed

lemma not_marked_same:
  assumes "flags_ok fl" "sync_inv fl r c" "\<And>s. \<not> hasRoleSection fl (pendingFullSyncMask r) s"
    "\<And>s. patchable s \<Longrightarrow> \<not> hasRoleSection fl (pendingPatchMask r) s"
  shows "same_section s (PbRole r) c"
proof -
  have "tracked r c s" "hasRoleSection fl (pendingPatchMask r) s \<or> unmarked r s"
    using assms(2,3) by (auto simp: sync_inv_def)
  moreover have "unmarked r s" if "\<not> patchable s" using that by (cases s) (simp_all add: patchable_def)
  ultimately show ?thesis using assms(4) tracked_unmarked by blast
qed

definition asked :: "section_flags \<Rightarrow> mask \<Rightarrow> RoleSection \<Rightarrow> 'p option \<Rightarrow> 'p option" where
  "asked fl q s b = (if hasRoleSection fl q s then b else None)"

definition patches_applied :: "section_flags \<Rightarrow> Role \<Rightarrow> mask \<Rightarrow> RoleInfo \<Rightarrow> RoleInfo" where
  "patches_applied fl r q c =
     c\<lparr>InventoryInfo := Some (client_map (asked fl q INVENTORY_INFO (buildInventoryPatch r)) (map_view (InventoryInfo c))),
       MallInfo := Some (client_map (asked fl q MALL_INFO (buildMallPatch r)) (map_view (MallInfo c))),
       IconInfo := Some (client_icon (asked fl q ICON_INFO (buildIconPatch r)) (icon_view (IconInfo c))),
       Actvity_Info := Some (client_map (asked fl q ACTVITY_TASK_INFO (buildActvityTaskPatch r)) (map_view (Actvity_Info c)))\<rparr>"

lemma patches_applied_same:
  assumes "hasRoleSection fl q s \<Longrightarrow> tracked r c s" and "\<not> hasRoleSection fl q s \<Longrightarrow> same_section s (PbRole r) c"
  shows "same_section s (PbRole r) (patches_applied fl r q c)"
proof (cases s)
  case INVENTORY_INFO
  then show ?thesis using assms client_map_tracked [of "InventoryInfo (PbRole r)"]
    by (cases "hasRoleSection fl q s") (simp_all add: patches_applied_def asked_def buildInventoryPatch_def)
next
  case MALL_INFO
  then show ?thesis using assms client_map_tracked [of "MallInfo (PbRole r)"]
    by (cases "hasRoleSection fl q s") (simp_all add: patches_applied_def asked_def buildMallPatch_def)
next
  case ACTVITY_TASK_INFO
  then show ?thesis using assms client_map_tracked [of "Actvity_Info (PbRole r)"]
    by (cases "hasRoleSection fl q s") (simp_all add: patches_applied_def asked_def buildActvityTaskPatch_def)
next
  case ICON_INFO
  then show ?thesis using assms client_icon_tracked [of r c]
    by (cases "hasRoleSection fl q s") (simp_all add: patches_applied_def asked_def del: tracked.simps)
qed (use assms in \<open>cases "hasRoleSection fl q s"; simp add: patches_applied_def asked_def\<close>)+

lemma tracked_cong:
  "same_section s c1 c2 \<Longrightarrow> tracked r c1 s \<longleftrightarrow> tracked r c2 s"
  by (cases s) auto

definition asked_mask :: "section_flags \<Rightarrow> Role \<Rightarrow> mask \<Rightarrow> mask" where
  "asked_mask fl r q = patch_bit fl INVENTORY_INFO (asked fl q INVENTORY_INFO (buildInventoryPatch r))
     OR patch_bit fl MALL_INFO (asked fl q MALL_INFO (buildMallPatch r))
     OR patch_bit fl ICON_INFO (asked fl q ICON_INFO (buildIconPatch r))
     OR patch_bit fl ACTVITY_TASK_INFO (asked fl q ACTVITY_TASK_INFO (buildActvityTaskPatch r))"

lemma buildSyncDataV2_asked:
  "buildSyncDataV2 fl r f q =
     (if f = 0 \<and> asked_mask fl r q = 0 then (None, 0)
      else (Some \<lparr>FullSectionMask = f, PatchSectionMask = asked_mask fl r q,
              scRoleInfo = (if f \<noteq> 0 then Some (fillRoleInfoByMask fl (PbRole r) f empty_info) else None),
              InventoryPatch = asked fl q INVENTORY_INFO (buildInventoryPatch r),
              MallPatch = asked fl q MALL_INFO (buildMallPatch r),
              scIconPatch = asked fl q ICON_INFO (buildIconPatch r),
              ActvityTaskPatch = asked fl q ACTVITY_TASK_INFO (buildActvityTaskPatch r)\<rparr>, asked_mask fl r q))"
  by (simp only: buildSyncDataV2_def asked_mask_def asked_def Let_def)

lemma buildSyncDataV2_none:
  assumes "flags_ok fl" "buildSyncDataV2 fl r f q = (None, a)" "tracked r c s" "hasRoleSection fl q s"
  shows "f = 0 \<and> a = 0 \<and> same_section s (PbRole r) c"
proof -
  have or0: "x OR y = 0 \<longleftrightarrow> x = 0 \<and> y = 0" for x y :: mask by (metis or.right_neutral or_eq_0_iff)
  have nil: "patch_bit fl t b = 0 \<longleftrightarrow> b = None" for t and b :: "'p option"
    using flag_nonzero [OF assms(1), of t] by (simp add: patch_bit_def split: option.splits)
  have fa: "f = 0" "a = 0" "asked_mask fl r q = 0"
    using assms(2) unfolding buildSyncDataV2_asked by (simp_all split: if_splits)
  have z: "asked fl q INVENTORY_INFO (buildInventoryPatch r) = None" "asked fl q MALL_INFO (buildMallPatch r) = None"
    "asked fl q ICON_INFO (buildIconPatch r) = None" "asked fl q ACTVITY_TASK_INFO (buildActvityTaskPatch r) = None"
    using fa(3) by (simp_all only: asked_mask_def or0 nil)
  have "same_section s (PbRole r) (patches_applied fl r q c)"
    using assms(3,4) by (intro patches_applied_same) auto
  moreover have "same_section s (PbRole r) (patches_applied fl r q c) \<longleftrightarrow> same_section s (PbRole r) c"
    using z by (cases s) (simp_all add: patches_applied_def)
  ultimately show ?thesis using fa by simp
qed

lemma buildSyncDataV2_some:
  assumes "buildSyncDataV2 fl r f q = (Some d, a)"
  shows "client_apply fl (SyncV2 d) c = patches_applied fl r q (fillRoleInfoByMask fl (PbRole r) f c)"
proof -
  have one: "(case (if f \<noteq> 0 then Some (fillRoleInfoByMask fl (PbRole r) f empty_info) else None) of
      None \<Rightarrow> c | Some data \<Rightarrow> fillRoleInfoByMask fl data f c) = fillRoleInfoByMask fl (PbRole r) f c"
    by (rule RoleInfo.equality) (simp_all)
  have d: "d = \<lparr>FullSectionMask = f, PatchSectionMask = asked_mask fl r q,
      scRoleInfo = (if f \<noteq> 0 then Some (fillRoleInfoByMask fl (PbRole r) f empty_info) else None),
      InventoryPatch = asked fl q INVENTORY_INFO (buildInventoryPatch r), MallPatch = asked fl q MALL_INFO (buildMallPatch r),
      scIconPatch = asked fl q ICON_INFO (buildIconPatch r),
      ActvityTaskPatch = asked fl q ACTVITY_TASK_INFO (buildActvityTaskPatch r)\<rparr>"
    using assms unfolding buildSyncDataV2_asked by (auto split: if_split_asm)
  show ?thesis unfolding d client_apply.simps ScSyncUserDataV2.simps Let_def one patches_applied_def ..
qed

lemma flush_nothing:
  "spFull (prepareSyncPayload fl usePatch r) = 0 \<and> spRequested (prepareSyncPayload fl usePatch r) = 0
   \<Longrightarrow> FlushClientSync fl usePatch sendOk r = (r, None, True)"
  by (simp add: FlushClientSync_def Let_def)

lemma FlushClientSync_legacy_inv:
  assumes fl: "flags_ok fl" and inv: "sync_inv fl r c"
    and flush: "FlushClientSync fl False sendOk r = (r', msg, ok)"
    and c': "c' = (case msg of None \<Rightarrow> c | Some m \<Rightarrow> client_apply fl m c)"
  shows "sync_inv fl r' c' \<and> (ok \<longrightarrow> (\<forall>s. same_section s (PbRole r') c'))"
proof -
  define F where "F = pendingFullSyncMask r"
  define Q where "Q = pendingPatchMask r AND patchableRoleSectionMask fl"
  have Q: "hasRoleSection fl Q s \<longleftrightarrow> hasRoleSection fl (pendingPatchMask r) s \<and> patchable s" for s
    using fl by (simp add: Q_def mask_simps)
  let ?f = "F OR Q"
  have p: "prepareSyncPayload fl False r = \<lparr>spFull = ?f, spRequested = 0, spActual = 0,
      spLegacy = (if ?f \<noteq> 0 then Some (buildLegacySyncData fl r ?f) else None), spV2 = None\<rparr>"
    by (simp add: prepareSyncPayload_def Let_def F_def Q_def)
  have h: "hasRoleSection fl ?f s \<longleftrightarrow> hasRoleSection fl F s \<or> hasRoleSection fl Q s" for s
    using fl by (simp add: mask_simps)
  consider "?f = 0" | "?f \<noteq> 0" "connBusId r = 0 \<or> \<not> sendOk" | "?f \<noteq> 0" "connBusId r \<noteq> 0" sendOk by blast
  then show ?thesis
  proof cases
    case 1
    then have n: "\<not> hasRoleSection fl F s" "\<not> hasRoleSection fl Q s" for s using h [of s] by simp_all
    have "same_section s (PbRole r) c" for s
      by (rule not_marked_same [OF fl inv]) (use n Q in \<open>auto simp: F_def\<close>)
    then show ?thesis using 1 flush c' inv by (simp add: FlushClientSync_def p)
  next
    case 2
    then show ?thesis using flush c' inv by (auto simp: FlushClientSync_def p Let_def split: if_splits)
  next
    case 3
    then have r': "r' = clearSyncedState fl ?f 0 r" "msg = Some (SyncLegacy ?f (buildLegacySyncData fl r ?f))"
      using flush by (simp_all add: FlushClientSync_def p Let_def)
    have "same_section s (PbRole r) c'"
      if "hasRoleSection fl ?f s \<or> tracked r c s \<and> (hasRoleSection fl 0 s \<or> unmarked r s)" for s
      using that tracked_unmarked [of r c s]
      by (auto simp: c' r'(2) buildLegacySyncData_def same_fill fill_same same_section_refl)
    then show ?thesis unfolding r'(1)
      using flushed_inv [OF fl inv, of ?f 0 c'] h Q by (auto simp: F_def)
  qed
qed

lemma FlushClientSync_patch_inv:
  assumes fl: "flags_ok fl" and inv: "sync_inv fl r c"
    and flush: "FlushClientSync fl True sendOk r = (r', msg, ok)"
    and c': "c' = (case msg of None \<Rightarrow> c | Some m \<Rightarrow> client_apply fl m c)"
  shows "sync_inv fl r' c' \<and> (ok \<longrightarrow> (\<forall>s. same_section s (PbRole r') c'))"
proof -
  define F where "F = pendingFullSyncMask r"
  define Q where "Q = pendingPatchMask r AND patchableRoleSectionMask fl"
  have Q: "hasRoleSection fl Q s \<longleftrightarrow> hasRoleSection fl (pendingPatchMask r) s \<and> patchable s" for s
    using fl by (simp add: Q_def mask_simps)
  let ?q = "if F = flag_ALL fl then 0 else Q AND NOT F"
  have q: "hasRoleSection fl ?q s \<Longrightarrow> \<not> hasRoleSection fl F s" 
    "hasRoleSection fl Q s \<Longrightarrow> hasRoleSection fl F s \<or> hasRoleSection fl ?q s" for s
    using fl by (auto simp: mask_simps split: if_splits)
  have all: "\<And>s. hasRoleSection fl (pendingFullSyncMask r) s \<Longrightarrow> hasRoleSection fl F s" by (simp add: F_def)
  have pat: "\<And>s. hasRoleSection fl (pendingPatchMask r) s \<Longrightarrow> patchable s \<Longrightarrow> hasRoleSection fl F s \<or> hasRoleSection fl ?q s"
    using q(2) Q by blast
  obtain v2 a where b: "buildSyncDataV2 fl r F ?q = (v2, a)" by fastforce
  show ?thesis
  proof (cases "F = 0 \<and> ?q = 0")
    case True
    then have n: "\<not> hasRoleSection fl F s" "\<not> hasRoleSection fl Q s" for s using q(2) [of s] by auto
    have same: "same_section s (PbRole r) c" for s
      by (rule not_marked_same [OF fl inv]) (use n Q in \<open>auto simp: F_def\<close>)
    have p: "prepareSyncPayload fl True r = \<lparr>spFull = F, spRequested = ?q, spActual = 0, spLegacy = None, spV2 = None\<rparr>"
      unfolding prepareSyncPayload_def F_def [symmetric] Q_def [symmetric] Let_def
      by (simp only: if_P [OF True] if_P [OF TrueI] not_True_eq_False if_False)
    have "FlushClientSync fl True sendOk r = (r, None, True)"
      by (rule flush_nothing) (simp only: p sync_payload.simps, rule True)
    with same show ?thesis using flush c' inv by simp
  next
    case False
    have p: "prepareSyncPayload fl True r = \<lparr>spFull = F, spRequested = ?q, spActual = a, spLegacy = None, spV2 = v2\<rparr>"
      using False b by (auto simp: prepareSyncPayload_def Let_def F_def [symmetric] Q_def [symmetric])
    show ?thesis
    proof (cases "connBusId r = 0")
      case True
      then show ?thesis using flush c' inv False by (auto simp: FlushClientSync_def p)
    next
      case online: False
      show ?thesis
      proof (cases v2)
        case None
        have z: "F = 0" "a = 0" using b None unfolding buildSyncDataV2_asked by (simp_all split: if_splits)
        then have r': "r' = clearSyncedState fl 0 ?q r" "c' = c"
          using flush c' online None False by (auto simp: FlushClientSync_def p)
        have "same_section s (PbRole r) c"
          if "hasRoleSection fl 0 s \<or> tracked r c s \<and> (hasRoleSection fl ?q s \<or> unmarked r s)" for s
          using that tracked_unmarked [of r c s] buildSyncDataV2_none [OF fl b [unfolded None], of c s] by auto
        note sent = this
        have f0: "hasRoleSection fl F s = hasRoleSection fl 0 s" for s by (simp only: z(1))
        show ?thesis unfolding r' using flushed_inv [OF fl inv all [unfolded f0] pat [unfolded f0] sent] by simp
      next
        case (Some d)
        show ?thesis
        proof (cases sendOk)
          case False
          then show ?thesis using flush c' inv online Some \<open>\<not> (F = 0 \<and> ?q = 0)\<close> by (auto simp: FlushClientSync_def p)
        next
          case True
          then have r': "r' = clearSyncedState fl F ?q r" "c' = client_apply fl (SyncV2 d) c"
            using flush c' online Some \<open>\<not> (F = 0 \<and> ?q = 0)\<close> by (auto simp: FlushClientSync_def p)
          have c2: "c' = patches_applied fl r ?q (fillRoleInfoByMask fl (PbRole r) F c)"
            unfolding r'(2) by (rule buildSyncDataV2_some [OF b [unfolded Some]])
          have "same_section s (PbRole r) c'"
            if s: "hasRoleSection fl F s \<or> tracked r c s \<and> (hasRoleSection fl ?q s \<or> unmarked r s)" for s
            unfolding c2
          proof (rule patches_applied_same)
            assume qs: "hasRoleSection fl ?q s"
            have "same_section s c (fillRoleInfoByMask fl (PbRole r) F c)"
              using q(1) [OF qs] by (simp add: same_fill same_section_refl)
            then show "tracked r (fillRoleInfoByMask fl (PbRole r) F c) s"
              using s q(1) [OF qs] tracked_cong by blast
          next
            assume "\<not> hasRoleSection fl ?q s"
            then show "same_section s (PbRole r) (fillRoleInfoByMask fl (PbRole r) F c)"
              using s tracked_unmarked [of r c s] by (auto simp: same_fill same_section_refl)
          qed
          then show ?thesis unfolding r'(1) using flushed_inv [OF fl inv, of F ?q c'] all pat by blast
        qed
      qed
    qed
  qed
qed

lemma FlushClientSync_inv:
  assumes "flags_ok fl" and "sync_inv fl r c"
    and "FlushClientSync fl usePatch sendOk r = (r', msg, ok)"
    and "c' = (case msg of None \<Rightarrow> c | Some m \<Rightarrow> client_apply fl m c)"
  shows "sync_inv fl r' c' \<and> (ok \<longrightarrow> (\<forall>s. same_section s (PbRole r') c'))"
  using assms(3) FlushClientSync_legacy_inv [OF assms(1,2), of sendOk r' msg ok c'] assms(4)
    FlushClientSync_patch_inv [OF assms(1,2), of sendOk r' msg ok c']
  by (cases usePatch) simp_all

section \<open>Executions\<close>

text \<open>What happens to a role: a section is replaced and touched, an entry of a map is stored or
  deleted and marked, a section is asked for in full, the gateway of the player changes, a flush is
  tried.\<close>

datatype sync_op =
    OTouch RoleSection section_msg string
  | OItem int "int option"
  | OMall int "PbMallItem option"
  | OIcon int "bool option"
  | OFrame int "bool option"
  | OEquip string int
  | OTask int "string option"
  | OFull mask
  | OConn int
  | OFlush bool bool

fun exec_sync :: "section_flags \<Rightarrow> Role \<times> RoleInfo \<Rightarrow> int \<times> sync_op \<Rightarrow> Role \<times> RoleInfo" where
  "exec_sync fl (r, c) (now, OTouch s msg w) =
     (TouchSection fl now s w (r\<lparr>PbRole := unmarshalSection s msg (PbRole r)\<rparr>), c)"
| "exec_sync fl (r, c) (now, OItem k v) = (MarkInventoryDirty fl now k (v = None) (set_inventory k v r), c)"
| "exec_sync fl (r, c) (now, OMall k v) = (MarkMallDirty fl now k (v = None) (set_mall k v r), c)"
| "exec_sync fl (r, c) (now, OIcon k v) =
     (MarkIconDirty fl now k (v = None) (set_icons (\<lambda>i. i\<lparr>IconMap := (IconMap i)(k := v)\<rparr>) r), c)"
| "exec_sync fl (r, c) (now, OFrame k v) =
     (MarkFrameDirty fl now k (v = None) (set_icons (\<lambda>i. i\<lparr>FrameMap := (FrameMap i)(k := v)\<rparr>) r), c)"
| "exec_sync fl (r, c) (now, OEquip u f) =
     (MarkIconEquipDirty fl now (set_icons (\<lambda>i. i\<lparr>IconUrl := u, FrameId := f\<rparr>) r), c)"
| "exec_sync fl (r, c) (now, OTask k v) = (MarkActvityTaskDirty fl now k (v = None) (set_task k v r), c)"
| "exec_sync fl (r, c) (now, OFull m) = (MarkFullSync fl m r, c)"
| "exec_sync fl (r, c) (now, OConn b) = (r\<lparr>connBusId := b\<rparr>, c)"
| "exec_sync fl (r, c) (now, OFlush usePatch sendOk) =
     (case FlushClientSync fl usePatch sendOk r of
        (r', msg, ok) \<Rightarrow> (r', case msg of None \<Rightarrow> c | Some m \<Rightarrow> client_apply fl m c))"

lemma unmarshal_only: "only_section s i (unmarshalSection s msg i)"
  unfolding only_section_def by (intro allI impI, case_tac t; cases s; cases msg; simp)

lemma exec_sync_inv:
  assumes "flags_ok fl" "sync_inv fl r c" "exec_sync fl (r, c) (now, a) = (r', c')"
  shows "sync_inv fl r' c'"
proof (cases a)
  case (OTouch s msg w)
  then show ?thesis using assms TouchSection_inv [OF assms(1,2) unmarshal_only] by auto
next
  case (OFlush usePatch sendOk)
  obtain r1 msg ok where f: "FlushClientSync fl usePatch sendOk r = (r1, msg, ok)" using prod_cases3 by blast
  show ?thesis using FlushClientSync_inv [OF assms(1,2) f refl] assms(3) OFlush f by simp
next
  case (OConn b)
  then show ?thesis using assms(2,3) by (auto intro: same_fields_inv)
qed (use assms MarkInventoryDirty_inv [OF assms(1,2)] MarkMallDirty_inv [OF assms(1,2)]
    MarkActvityTaskDirty_inv [OF assms(1,2)] MarkIconDirty_inv [OF assms(1,2)] MarkFrameDirty_inv [OF assms(1,2)]
    MarkIconEquipDirty_inv [OF assms(1,2)] MarkFullSync_inv [OF assms(1,2)] in auto)

interpretation sync: op_invariant "exec_sync fl" "\<lambda>s. flags_ok fl \<longrightarrow> sync_inv fl (fst s) (snd s)" for fl
proof (unfold_locales, goal_cases)
  case (1 s a)
  obtain r c now b r' c' where "s = (r, c)" "a = (now, b)" "exec_sync fl s a = (r', c')" by (metis surj_pair)
  then show ?case using 1 exec_sync_inv by fastforce
qed

text \<open>C16: The client's copy converges.  From a login, when everything is due, and whatever the client
  held before, any mixture of tracked changes, requests for full sections, reconnections and flushes,
  in either mode and with failing sends, followed by a flush that returns nil leaves every section of
  the client equal to the role's.\<close>

theorem client_copy_converges:
  assumes "flags_ok fl" and "pendingFullSyncMask r0 = flag_ALL fl"
    and "foldl (exec_sync fl) (r0, c0) as = (r1, c1)"
    and "FlushClientSync fl usePatch sendOk r1 = (r2, msg, True)"
  shows "same_section s (PbRole r2) (case msg of None \<Rightarrow> c1 | Some m \<Rightarrow> client_apply fl m c1)"
proof -
  have "sync_inv fl r0 c0" using has_ALL [OF assms(1)] assms(2) by (simp add: sync_inv_def)
  then have "sync_inv fl r1 c1" using sync.run_inv [of fl "(r0, c0)" as] assms(1,3) by simp
  then show ?thesis using FlushClientSync_inv [OF assms(1) _ assms(4) refl] by blast
qed

fun section_no :: "RoleSection \<Rightarrow> nat" where
  "section_no REGISTER_INFO = 0" | "section_no LOGIN_INFO = 1" | "section_no GAME_INFO = 2"
| "section_no BASIC_INFO = 3" | "section_no INVENTORY_INFO = 4" | "section_no ICON_INFO = 5"
| "section_no MALL_INFO = 6" | "section_no MAIN_TASK_INFO = 7" | "section_no GUILD_INFO = 8"
| "section_no GUIDE_INFO = 9" | "section_no OPEN_FUNC_INFO = 10" | "section_no ACTVITY_TASK_INFO = 11"

definition sample_flags :: section_flags where
  "sample_flags = \<lparr>flag_of = (\<lambda>s. push_bit (section_no s) 1), flag_ALL = 0xFFF\<rparr>"

lemma sample_flags_ok: "flags_ok sample_flags"
  unfolding flags_ok_def
proof (intro exI conjI allI)
  show "inj section_no" by (rule injI, case_tac x; case_tac y; simp)
  fix s
  show "section_no s < 32" by (cases s) simp_all
  show "flag_of sample_flags s = push_bit (section_no s) 1" by (simp add: sample_flags_def)
  show "bit (flag_ALL sample_flags) (section_no s)" by (cases s) (simp_all add: sample_flags_def)
qed

definition sample_role :: Role where
  "sample_role = \<lparr>PbRole = empty_info, connBusId = 7, HeartBeatExpiryTime = 0, HeartBeatCount = 0, pendingFullSyncMask = flag_ALL sample_flags, pendingPatchMask = 0,
     inventoryDirty = no_keys, mallDirty = no_keys, iconDirty = no_keys, frameDirty = no_keys, actTaskDirty = no_keys,
     iconEquipDirty = False, needPersist = False, persistDirtySince = 0, lastPersistAt = 0, persistReasons = {},
     persistDirtyMask = 0\<rparr>"

theorem client_copy_converges_witness:
  "\<exists>r c. foldl (exec_sync sample_flags) (sample_role, empty_info) [(0, OItem 5 (Some 3)), (0, OFlush True True), (1, OItem 5 (Some 2)), (2, OFlush True True)] = (r, c)
     \<and> same_section INVENTORY_INFO (PbRole r) c"
proof -
  obtain r1 c1 where run: "foldl (exec_sync sample_flags) (sample_role, empty_info)
      [(0, OItem 5 (Some 3)), (0, OFlush True True), (1, OItem 5 (Some 2))] = (r1, c1)" by fastforce
  obtain r2 msg ok where f: "FlushClientSync sample_flags True True r1 = (r2, msg, ok)" using prod_cases3 by blast
  have "snd (snd (FlushClientSync sample_flags True True (fst (foldl (exec_sync sample_flags) (sample_role, empty_info)
      [(0, OItem 5 (Some 3)), (0, OFlush True True), (1, OItem 5 (Some 2))]))))" by code_simp
  then have ok: ok by (simp only: run fst_conv snd_conv f)
  have "pendingFullSyncMask sample_role = flag_ALL sample_flags" by (simp add: sample_role_def)
  from client_copy_converges [OF sample_flags_ok this run, of True True r2 msg INVENTORY_INFO] f ok
  have "same_section INVENTORY_INFO (PbRole r2) (case msg of None \<Rightarrow> c1 | Some m \<Rightarrow> client_apply sample_flags m c1)"
    by simp
  moreover have "foldl (exec_sync sample_flags) (sample_role, empty_info)
      [(0, OItem 5 (Some 3)), (0, OFlush True True), (1, OItem 5 (Some 2)), (2, OFlush True True)]
    = (r2, case msg of None \<Rightarrow> c1 | Some m \<Rightarrow> client_apply sample_flags m c1)"
    using run f by simp
  ultimately show ?thesis by blast
qed

end
