(* ===== verification/Inventory.thy ===== *)
theory Inventory
  imports RoleSync
begin

text \<open>
  Items and currencies of a role (\<open>mainsvr/role/item.go\<close>, \<open>icon.go\<close>, \<open>mall.go\<close>).  The identifiers of
  the protocol package, the configuration tables, the clock and the outcomes of random drops are one
  argument, the environment.  Counts are \<open>int64\<close> written as \<^typ>\<open>int\<close> with \<^const>\<open>i64\<close> where the source
  adds, subtracts or multiplies.

  Using an item can give an item that is used at once in its turn, so adding recurses as deep as the
  tables say; \<open>OutOfFuel\<close> means that the recursion goes deeper than the fuel.  \<open>Panic\<close> is a nil
  dereference of the source.
\<close>

section \<open>Environment\<close>

record ItemConfig =
  ItType :: int
  MainType :: int
  SubType :: int
  Sale :: int
  Quality :: int
  BagType :: int

record ItemRuleConfig =
  MaxOwnCount :: int
  Getuse :: int

record ItemUseConfig =
  UseType :: int
  UseId :: int
  UseValue :: int
  useIsEnable :: int

record ItemDecomposeConfig =
  OutputItemId :: int
  OutputCount :: int
  decIsEnable :: int

record MallConfig =
  DailyBuyLimit :: int
  BuyLimit :: int

type_synonym PbItem = "int \<times> int"

record item_ids =
  ID_GOLD :: int
  ID_DIAMOND :: int
  ID_CREDIT :: int
  ID_LIVENESS :: int
  ID_GUILDGOLD :: int
  ID_ACECOIN :: int
  ID_WINACECOIN :: int
  ID_EXP :: int
  TYPE_DROP :: int
  MAIN_ICON :: int
  SUB_ICON_ICON :: int
  SUB_ICON_FRAME :: int

text \<open>\<open>dropOf n dropID\<close> is what the \<open>n\<close>-th drop of the history yields; \<open>mapOrder\<close> is the order in
  which Go goes through a map of items, of which only \<open>order_ok\<close> is known.\<close>

record inv_env =
  flags :: section_flags
  now :: int
  ids :: item_ids
  GetItemByItemId :: "int \<Rightarrow> ItemConfig option"
  GetItemRuleRefByItemId :: "int \<Rightarrow> int option"
  GetItemRuleById :: "int \<Rightarrow> ItemRuleConfig option"
  GetItemUseById :: "int \<Rightarrow> ItemUseConfig option"
  GroupItemDecomposeByItemId :: "int \<Rightarrow> ItemDecomposeConfig list"
  GetMallById :: "int \<Rightarrow> MallConfig option"
  dropOf :: "nat \<Rightarrow> int \<Rightarrow> PbItem list"
  mapOrder :: "PbItem list \<Rightarrow> PbItem list"

definition order_ok :: "inv_env \<Rightarrow> bool" where
  "order_ok e \<longleftrightarrow> (\<forall>items. mset (mapOrder e items) = mset items)"

definition ids_ok :: "item_ids \<Rightarrow> bool" where
  "ids_ok i \<longleftrightarrow> distinct [ID_GOLD i, ID_DIAMOND i, ID_CREDIT i, ID_LIVENESS i, ID_GUILDGOLD i, ID_ACECOIN i,
     ID_WINACECOIN i, ID_EXP i]"

text \<open>A reason counts only through whether it is \<open>REASON_INIT\<close>.\<close>

record Reason = isInit :: bool

definition shouldTrackMutation :: "Reason \<Rightarrow> bool" where "shouldTrackMutation rs \<longleftrightarrow> \<not> isInit rs"

datatype item_code =
    ERR_OK | ERR_ARGV | ERR_CONF | ERR_ITEM_OVER_LIMIT | ERR_ITEM_ADD_ERROR | ERR_GOLD_NOT_ENOUGH
  | ERR_DIAMOND_NOT_ENOUGH | ERR_SINEW_NOT_ENOUGH | ERR_ITEM_NOT_ENOUGH | ERR_ACE_COIN_NOT_ENOUGH
  | ERR_ITEM_CAN_NOT_USE | ERR_ITEM_CAN_NOT_SELL | ERR_ITEM_CAN_NOT_DECOMPOSE | ERR_NIL_REF
  | ERR_MALL_DAILY_LIMIT | ERR_MALL_BUY_LIMIT | ERR_ICON_NOT_HAVE | ERR_FRAME_NOT_HAVE | ERR_INVALID_NAME

datatype 'a run = Done 'a | Panic | OutOfFuel

section \<open>Counts\<close>

definition isBasicInfoItem :: "item_ids \<Rightarrow> int \<Rightarrow> bool" where
  "isBasicInfoItem i k \<longleftrightarrow> k \<in> {ID_GOLD i, ID_DIAMOND i, ID_CREDIT i, ID_LIVENESS i, ID_GUILDGOLD i, ID_ACECOIN i, ID_WINACECOIN i}"

definition basic_count :: "item_ids \<Rightarrow> int \<Rightarrow> RoleBasicInfo \<Rightarrow> int" where
  "basic_count i k b =
     (if k = ID_GOLD i then Gold b else if k = ID_DIAMOND i then Diamond b else if k = ID_CREDIT i then Credit b
      else if k = ID_LIVENESS i then Liveness b else if k = ID_GUILDGOLD i then GuildCoin b
      else if k = ID_ACECOIN i then AceCoin b else WinAceCoin b)"

definition basic_set :: "item_ids \<Rightarrow> int \<Rightarrow> int \<Rightarrow> RoleBasicInfo \<Rightarrow> RoleBasicInfo" where
  "basic_set i k n b =
     (if k = ID_GOLD i then b\<lparr>Gold := n\<rparr> else if k = ID_DIAMOND i then b\<lparr>Diamond := n\<rparr>
      else if k = ID_CREDIT i then b\<lparr>Credit := n\<rparr> else if k = ID_LIVENESS i then b\<lparr>Liveness := n\<rparr>
      else if k = ID_GUILDGOLD i then b\<lparr>GuildCoin := n\<rparr> else if k = ID_ACECOIN i then b\<lparr>AceCoin := n\<rparr>
      else b\<lparr>WinAceCoin := n\<rparr>)"

abbreviation item_map :: "Role \<Rightarrow> (int \<rightharpoonup> int)" where
  "item_map r \<equiv> map_view (InventoryInfo (PbRole r))"

text \<open>The cnt behind \<open>ItemGetCountRef\<close>, and an assignment through it.  A role whose fields are
  initialised has \<open>BasicInfo\<close>.\<close>

definition ItemGetCountRef :: "inv_env \<Rightarrow> Role \<Rightarrow> int \<Rightarrow> int option" where
  "ItemGetCountRef e r k =
     (if isBasicInfoItem (ids e) k then map_option (basic_count (ids e) k) (BasicInfo (PbRole r)) else item_map r k)"

definition put_count :: "inv_env \<Rightarrow> int \<Rightarrow> int \<Rightarrow> Role \<Rightarrow> Role" where
  "put_count e k n r =
     (if isBasicInfoItem (ids e) k then r\<lparr>PbRole := (PbRole r)\<lparr>BasicInfo := map_option (basic_set (ids e) k n) (BasicInfo (PbRole r))\<rparr>\<rparr>
      else set_inventory k (Some n) r)"

definition GetItemCount :: "inv_env \<Rightarrow> Role \<Rightarrow> int \<Rightarrow> int" where
  "GetItemCount e r k = (case ItemGetCountRef e r k of None \<Rightarrow> 0 | Some n \<Rightarrow> n)"

definition TouchBasicInfo :: "inv_env \<Rightarrow> Role \<Rightarrow> Role" where
  "TouchBasicInfo e r = TouchSection (flags e) (now e) BASIC_INFO ''basic_info'' r"

definition trackItemMutation :: "inv_env \<Rightarrow> int \<Rightarrow> bool \<Rightarrow> Reason \<Rightarrow> Role \<Rightarrow> Role" where
  "trackItemMutation e k deleted rs r =
     (if \<not> shouldTrackMutation rs then r
      else if isBasicInfoItem (ids e) k then TouchBasicInfo e r
      else MarkInventoryDirty (flags e) (now e) k deleted r)"

section \<open>Checks\<close>

definition getItemRule :: "inv_env \<Rightarrow> int \<Rightarrow> ItemRuleConfig option" where
  "getItemRule e k = (case GetItemRuleRefByItemId e k of
      None \<Rightarrow> None | Some ruleId \<Rightarrow> if ruleId = 0 then None else GetItemRuleById e ruleId)"

definition ItemCheckAdd :: "inv_env \<Rightarrow> Role \<Rightarrow> int \<Rightarrow> int \<Rightarrow> item_code" where
  "ItemCheckAdd e r k n =
     (if n \<le> 0 then ERR_ARGV
      else if GetItemByItemId e k = None then ERR_CONF
      else if isBasicInfoItem (ids e) k then ERR_OK
      else case getItemRule e k of
        None \<Rightarrow> ERR_OK
      | Some rule \<Rightarrow>
          if MaxOwnCount rule > 0 \<and> i64 (GetItemCount e r k + n) > MaxOwnCount rule then ERR_ITEM_OVER_LIMIT
          else ERR_OK)"

definition ItemsCheckAdd :: "inv_env \<Rightarrow> Role \<Rightarrow> PbItem list \<Rightarrow> item_code" where
  "ItemsCheckAdd e r items = (if \<forall>(k, n)\<in>set items. ItemCheckAdd e r k n = ERR_OK then ERR_OK else ERR_ITEM_ADD_ERROR)"

text \<open>\<open>GetItemOutcomes\<close> is nil for every item, so the checks return no outcomes.\<close>

definition ItemCheckReduce :: "inv_env \<Rightarrow> Role \<Rightarrow> int \<Rightarrow> int \<Rightarrow> item_code" where
  "ItemCheckReduce e r k n =
     (if n = 0 then ERR_OK
      else if GetItemCount e r k < n then
        (if k = ID_GOLD (ids e) then ERR_GOLD_NOT_ENOUGH else if k = ID_DIAMOND (ids e) then ERR_DIAMOND_NOT_ENOUGH
         else if k = ID_CREDIT (ids e) then ERR_SINEW_NOT_ENOUGH else ERR_ITEM_NOT_ENOUGH)
      else ERR_OK)"

fun check_reduce_loop :: "inv_env \<Rightarrow> Role \<Rightarrow> PbItem list \<Rightarrow> item_code" where
  "check_reduce_loop e r [] = ERR_OK"
| "check_reduce_loop e r ((k, n) # items) =
     (let ret = ItemCheckReduce e r k n in if ret \<noteq> ERR_OK then ret else check_reduce_loop e r items)"

text \<open>Equal identifiers are added up; the caller's list is refilled in the order of the Go map.\<close>

fun itemAggregate :: "PbItem list \<Rightarrow> PbItem list \<Rightarrow> PbItem list" where
  "itemAggregate [] m = m"
| "itemAggregate ((k, n) # items) m =
     itemAggregate items (alist_put k (case map_of m k of None \<Rightarrow> n | Some c \<Rightarrow> i64 (c + n)) m)"

definition ItemsCheckReduce :: "inv_env \<Rightarrow> Role \<Rightarrow> PbItem list \<Rightarrow> PbItem list \<times> item_code" where
  "ItemsCheckReduce e r items = (let agg = mapOrder e (itemAggregate items []) in (agg, check_reduce_loop e r agg))"

section \<open>Taking away\<close>

definition ItemRemove :: "inv_env \<Rightarrow> int \<Rightarrow> Role \<Rightarrow> Role" where
  "ItemRemove e k r = MarkInventoryDirty (flags e) (now e) k True
     (if InventoryInfo (PbRole r) \<noteq> None then set_inventory k None r else r)"

definition take_count :: "inv_env \<Rightarrow> Reason \<Rightarrow> int \<Rightarrow> int \<Rightarrow> int \<Rightarrow> Role \<Rightarrow> Role" where
  "take_count e rs k c n r =
     (let r1 = put_count e k (i64 (c - n)) r
      in if i64 (c - n) = 0 then (if isBasicInfoItem (ids e) k then TouchBasicInfo e r1 else ItemRemove e k r1)
         else trackItemMutation e k False rs r1)"

definition ItemReduce :: "inv_env \<Rightarrow> Reason \<Rightarrow> int \<Rightarrow> int \<Rightarrow> Role \<Rightarrow> (Role \<times> item_code) run" where
  "ItemReduce e rs k n r =
     (if n = 0 then Done (r, ERR_OK)
      else let ret = ItemCheckReduce e r k n in
        if ret \<noteq> ERR_OK then Done (r, ret)
        else case ItemGetCountRef e r k of
          None \<Rightarrow> Panic
        | Some c \<Rightarrow> Done (take_count e rs k c n r, ERR_OK))"

fun reduce_loop :: "inv_env \<Rightarrow> Reason \<Rightarrow> PbItem list \<Rightarrow> Role \<Rightarrow> Role \<times> item_code" where
  "reduce_loop e rs [] r = (r, ERR_OK)"
| "reduce_loop e rs ((k, n) # items) r =
     (if n = 0 then reduce_loop e rs items r
      else case ItemGetCountRef e r k of
        None \<Rightarrow> (r, ERR_NIL_REF)
      | Some c \<Rightarrow> reduce_loop e rs items (take_count e rs k c n r))"

definition ItemsReduce :: "inv_env \<Rightarrow> Reason \<Rightarrow> PbItem list \<Rightarrow> Role \<Rightarrow> Role \<times> item_code" where
  "ItemsReduce e rs items r =
     (if items = [] then (r, ERR_OK)
      else case ItemsCheckReduce e r items of
        (agg, ret) \<Rightarrow> if ret \<noteq> ERR_OK then (r, ret) else reduce_loop e rs agg r)"

section \<open>Icons (icon.go)\<close>

abbreviation icons :: "Role \<Rightarrow> RoleIconInfo" where
  "icons r \<equiv> icon_view (IconInfo (PbRole r))"

definition IconAdd :: "inv_env \<Rightarrow> Reason \<Rightarrow> int \<Rightarrow> Role \<Rightarrow> Role" where
  "IconAdd e rs k r =
     (let red = (if \<not> isInit rs then True else (case IconMap (icons r) k of None \<Rightarrow> False | Some b \<Rightarrow> b));
          r1 = set_icons (\<lambda>i. i\<lparr>IconMap := (IconMap i)(k := Some red)\<rparr>) r
      in if shouldTrackMutation rs then MarkIconDirty (flags e) (now e) k False r1 else r1)"

definition FrameAdd :: "inv_env \<Rightarrow> Reason \<Rightarrow> int \<Rightarrow> Role \<Rightarrow> Role" where
  "FrameAdd e rs k r =
     (let red = (if \<not> isInit rs then True else (case FrameMap (icons r) k of None \<Rightarrow> False | Some b \<Rightarrow> b));
          r1 = set_icons (\<lambda>i. i\<lparr>FrameMap := (FrameMap i)(k := Some red)\<rparr>) r
      in if shouldTrackMutation rs then MarkFrameDirty (flags e) (now e) k False r1 else r1)"

definition IconHas :: "Role \<Rightarrow> int \<Rightarrow> bool" where "IconHas r k \<longleftrightarrow> IconMap (icons r) k \<noteq> None"
definition FrameHas :: "Role \<Rightarrow> int \<Rightarrow> bool" where "FrameHas r k \<longleftrightarrow> FrameMap (icons r) k \<noteq> None"

text \<open>\<open>url\<close> is \<open>headicon_\<close> with the number.\<close>

definition IconChange :: "inv_env \<Rightarrow> (int \<Rightarrow> string) \<Rightarrow> int \<Rightarrow> Role \<Rightarrow> Role \<times> item_code" where
  "IconChange e url k r =
     (if k \<le> 0 then (r, ERR_ICON_NOT_HAVE)
      else (MarkIconEquipDirty (flags e) (now e) (set_icons (\<lambda>i. i\<lparr>IconUrl := url k\<rparr>) r), ERR_OK))"

definition FrameChange :: "inv_env \<Rightarrow> int \<Rightarrow> Role \<Rightarrow> Role \<times> item_code" where
  "FrameChange e k r =
     (if k > 0 \<and> \<not> FrameHas r k then (r, ERR_FRAME_NOT_HAVE)
      else (MarkIconEquipDirty (flags e) (now e) (set_icons (\<lambda>i. i\<lparr>FrameId := k\<rparr>) r), ERR_OK))"

definition IconTouchRedPoint :: "inv_env \<Rightarrow> int \<Rightarrow> Role \<Rightarrow> Role" where
  "IconTouchRedPoint e k r =
     (if IconHas r k then MarkIconDirty (flags e) (now e) k False (set_icons (\<lambda>i. i\<lparr>IconMap := (IconMap i)(k := Some False)\<rparr>) r)
      else r)"

definition FrameTouchRedPoint :: "inv_env \<Rightarrow> int \<Rightarrow> Role \<Rightarrow> Role" where
  "FrameTouchRedPoint e k r =
     (if FrameHas r k then MarkFrameDirty (flags e) (now e) k False (set_icons (\<lambda>i. i\<lparr>FrameMap := (FrameMap i)(k := Some False)\<rparr>) r)
      else r)"

section \<open>Giving\<close>

text \<open>The role and the number of drops drawn so far.\<close>

type_synonym inv_state = "Role \<times> nat"

definition ItemSee :: "inv_env \<Rightarrow> PbItem \<Rightarrow> inv_state \<Rightarrow> PbItem list \<times> inv_state" where
  "ItemSee e item s = (case GetItemByItemId e (fst item) of
      None \<Rightarrow> ([], s)
    | Some conf \<Rightarrow>
        if ItType conf = TYPE_DROP (ids e) then (dropOf e (snd s) (fst item), (fst s, Suc (snd s)))
        else ([item], s))"

fun ItemsSee :: "inv_env \<Rightarrow> PbItem list \<Rightarrow> inv_state \<Rightarrow> PbItem list \<times> inv_state" where
  "ItemsSee e [] s = ([], s)"
| "ItemsSee e (item # items) s =
     (case ItemSee e item s of (out, s1) \<Rightarrow> (case ItemsSee e items s1 of (rest, s2) \<Rightarrow> (out @ rest, s2)))"

type_synonym item_adder = "int \<Rightarrow> int \<Rightarrow> inv_state \<Rightarrow> (inv_state \<times> item_code) run"

text \<open>The loops over produced items ignore the result of each addition.\<close>

fun add_each :: "item_adder \<Rightarrow> PbItem list \<Rightarrow> inv_state \<Rightarrow> inv_state run" where
  "add_each add [] s = Done s"
| "add_each add ((k, n) # items) s = (case add k n s of
      Done (s1, _) \<Rightarrow> add_each add items s1
    | Panic \<Rightarrow> Panic
    | OutOfFuel \<Rightarrow> OutOfFuel)"

definition ok_run :: "inv_state run \<Rightarrow> (inv_state \<times> item_code) run" where
  "ok_run x = (case x of Done s \<Rightarrow> Done (s, ERR_OK) | Panic \<Rightarrow> Panic | OutOfFuel \<Rightarrow> OutOfFuel)"

definition ItemAdd_by :: "item_adder \<Rightarrow> inv_env \<Rightarrow> int \<Rightarrow> int \<Rightarrow> inv_state \<Rightarrow> (inv_state \<times> item_code) run" where
  "ItemAdd_by add e k n s =
     (if n = 0 then Done (s, ERR_OK)
      else case ItemSee e (k, n) s of (items, s1) \<Rightarrow> ok_run (add_each add items s1))"

definition itemUseTypeGainItem :: int where "itemUseTypeGainItem = 2"
definition itemUseTypeDropGroup :: int where "itemUseTypeDropGroup = 3"

fun draw_drops :: "inv_env \<Rightarrow> int \<Rightarrow> nat \<Rightarrow> nat \<Rightarrow> PbItem list \<times> nat" where
  "draw_drops e dropID 0 d = ([], d)"
| "draw_drops e dropID (Suc n) d = (case draw_drops e dropID n (Suc d) of (rest, d') \<Rightarrow> (dropOf e d dropID @ rest, d'))"

text \<open>\<open>count\<close> is an \<open>int32\<close>; the produced items of a drop group go through \<open>ItemAdd\<close> one by one.\<close>

definition applyItemUse_by ::
  "item_adder \<Rightarrow> inv_env \<Rightarrow> ItemUseConfig \<Rightarrow> int \<Rightarrow> inv_state \<Rightarrow> (inv_state \<times> item_code) run" where
  "applyItemUse_by add e useConf cnt s =
     (if UseType useConf = itemUseTypeGainItem then
        (let prod0 = i64 (UseValue useConf * cnt); prodCnt = (if prod0 \<le> 0 then cnt else prod0)
         in ItemAdd_by add e (UseId useConf) prodCnt s)
      else if UseType useConf = itemUseTypeDropGroup then
        (case draw_drops e (UseId useConf) (nat cnt) (snd s) of
           (produced, d) \<Rightarrow> ok_run (add_each (ItemAdd_by add e) produced (fst s, d)))
      else Done (s, ERR_ITEM_CAN_NOT_USE))"

text \<open>The last part of \<open>itemDoAdd\<close>, where the cnt changes.  \<open>ExpAdd\<close> does nothing.\<close>

definition book_item :: "inv_env \<Rightarrow> Reason \<Rightarrow> ItemConfig \<Rightarrow> int \<Rightarrow> int \<Rightarrow> Role \<Rightarrow> Role run" where
  "book_item e rs conf k n r =
     (let ref = ItemGetCountRef e r k in
      if k \<in> {ID_GOLD (ids e), ID_DIAMOND (ids e), ID_LIVENESS (ids e), ID_GUILDGOLD (ids e)} then
        (case ref of None \<Rightarrow> Panic
         | Some c \<Rightarrow> Done (trackItemMutation e k False rs (put_count e k (i64 (c + n)) r)))
      else if k = ID_EXP (ids e) then
        Done (if shouldTrackMutation rs then TouchBasicInfo e r else r)
      else if MainType conf = MAIN_ICON (ids e) then
        (if SubType conf = SUB_ICON_ICON (ids e) then Done (IconAdd e rs k r)
         else if SubType conf = SUB_ICON_FRAME (ids e) then Done (FrameAdd e rs k r)
         else Done r)
      else
        (let c = (case ref of None \<Rightarrow> 0 | Some c \<Rightarrow> c)
         in Done (trackItemMutation e k False rs (put_count e k (i64 (c + n)) r))))"

fun itemDoAdd :: "nat \<Rightarrow> inv_env \<Rightarrow> Reason \<Rightarrow> int \<Rightarrow> int \<Rightarrow> inv_state \<Rightarrow> (inv_state \<times> item_code) run" where
  "itemDoAdd 0 e rs k n s = OutOfFuel"
| "itemDoAdd (Suc fuel) e rs k n s =
     (if n = 0 then Done (s, ERR_OK)
      else case GetItemByItemId e k of
        None \<Rightarrow> Done (s, ERR_CONF)
      | Some conf \<Rightarrow>
          let ret = ItemCheckAdd e (fst s) k n;
              used = (case getItemRule e k of
                  None \<Rightarrow> None
                | Some rule \<Rightarrow> if Getuse rule > 0 then
                    (case GetItemUseById e k of None \<Rightarrow> None
                     | Some u \<Rightarrow> if useIsEnable u \<noteq> 0 then Some u else None) else None)
          in if ret \<noteq> ERR_OK then Done (s, ret)
             else case used of
               Some u \<Rightarrow> applyItemUse_by (\<lambda>k n s. itemDoAdd fuel e rs k n s) e u (i32 n) s
             | None \<Rightarrow> (case book_item e rs conf k n (fst s) of
                 Done r \<Rightarrow> Done ((r, snd s), ERR_OK)
               | Panic \<Rightarrow> Panic | OutOfFuel \<Rightarrow> OutOfFuel))"

definition ItemAdd :: "nat \<Rightarrow> inv_env \<Rightarrow> Reason \<Rightarrow> int \<Rightarrow> int \<Rightarrow> inv_state \<Rightarrow> (inv_state \<times> item_code) run" where
  "ItemAdd fuel e rs k n s = ItemAdd_by (itemDoAdd fuel e rs) e k n s"

definition ItemsAdd :: "nat \<Rightarrow> inv_env \<Rightarrow> Reason \<Rightarrow> PbItem list \<Rightarrow> inv_state \<Rightarrow> (inv_state \<times> item_code) run" where
  "ItemsAdd fuel e rs items s =
     (if items = [] then Done (s, ERR_OK)
      else let ret = ItemsCheckAdd e (fst s) items in
        if ret \<noteq> ERR_OK then Done (s, ret)
        else case ItemsSee e items s of (realItems, s1) \<Rightarrow> ok_run (add_each (itemDoAdd fuel e rs) realItems s1))"

section \<open>Using, selling, exchanging\<close>

definition after_reduce ::
  "inv_env \<Rightarrow> Reason \<Rightarrow> int \<Rightarrow> int \<Rightarrow> inv_state \<Rightarrow> (inv_state \<Rightarrow> (inv_state \<times> item_code) run) \<Rightarrow> (inv_state \<times> item_code) run" where
  "after_reduce e rs k n s next = (case ItemReduce e rs k n (fst s) of
      Done (r, ret) \<Rightarrow> if ret \<noteq> ERR_OK then Done ((r, snd s), ret) else next (r, snd s)
    | Panic \<Rightarrow> Panic | OutOfFuel \<Rightarrow> OutOfFuel)"

definition ItemUse :: "nat \<Rightarrow> inv_env \<Rightarrow> Reason \<Rightarrow> int \<Rightarrow> int \<Rightarrow> inv_state \<Rightarrow> (inv_state \<times> item_code) run" where
  "ItemUse fuel e rs k cnt s =
     (if cnt \<le> 0 then Done (s, ERR_ARGV)
      else case GetItemUseById e k of
        None \<Rightarrow> Done (s, ERR_ITEM_CAN_NOT_USE)
      | Some u \<Rightarrow>
          if useIsEnable u = 0 then Done (s, ERR_ITEM_CAN_NOT_USE)
          else after_reduce e rs k cnt s (\<lambda>s1. applyItemUse_by (itemDoAdd fuel e rs) e u cnt s1))"

definition ItemSell :: "nat \<Rightarrow> inv_env \<Rightarrow> Reason \<Rightarrow> int \<Rightarrow> int \<Rightarrow> inv_state \<Rightarrow> (inv_state \<times> item_code) run" where
  "ItemSell fuel e rs k cnt s =
     (if cnt \<le> 0 then Done (s, ERR_ARGV)
      else if isBasicInfoItem (ids e) k then Done (s, ERR_ITEM_CAN_NOT_SELL)
      else case GetItemByItemId e k of
        None \<Rightarrow> Done (s, ERR_ITEM_CAN_NOT_SELL)
      | Some conf \<Rightarrow>
          if Sale conf \<le> 0 then Done (s, ERR_ITEM_CAN_NOT_SELL)
          else after_reduce e rs k cnt s
                 (\<lambda>s1. ItemAdd fuel e rs (ID_GOLD (ids e)) (i64 (Sale conf * cnt)) s1))"

fun decompose_loop ::
  "nat \<Rightarrow> inv_env \<Rightarrow> Reason \<Rightarrow> int \<Rightarrow> ItemDecomposeConfig list \<Rightarrow> inv_state \<Rightarrow> (inv_state \<times> PbItem list) run" where
  "decompose_loop fuel e rs cnt [] s = Done (s, [])"
| "decompose_loop fuel e rs cnt (out # outs) s =
     (let prodCnt = i64 (OutputCount out * cnt) in
      if decIsEnable out = 0 \<or> prodCnt \<le> 0 then decompose_loop fuel e rs cnt outs s
      else case ItemAdd fuel e rs (OutputItemId out) prodCnt s of
        Done (s1, ret) \<Rightarrow> (case decompose_loop fuel e rs cnt outs s1 of
            Done (s2, rewards) \<Rightarrow> Done (s2, if ret \<noteq> ERR_OK then rewards else (OutputItemId out, prodCnt) # rewards)
          | x \<Rightarrow> x)
      | Panic \<Rightarrow> Panic | OutOfFuel \<Rightarrow> OutOfFuel)"

definition ItemDecompose ::
  "nat \<Rightarrow> inv_env \<Rightarrow> Reason \<Rightarrow> int \<Rightarrow> int \<Rightarrow> inv_state \<Rightarrow> (inv_state \<times> PbItem list \<times> item_code) run" where
  "ItemDecompose fuel e rs k cnt s =
     (if cnt \<le> 0 then Done (s, [], ERR_ARGV)
      else if isBasicInfoItem (ids e) k then Done (s, [], ERR_ITEM_CAN_NOT_DECOMPOSE)
      else if GroupItemDecomposeByItemId e k = [] then Done (s, [], ERR_ITEM_CAN_NOT_DECOMPOSE)
      else case ItemReduce e rs k cnt (fst s) of
        Done (r, ret) \<Rightarrow>
          if ret \<noteq> ERR_OK then Done ((r, snd s), [], ret)
          else (case decompose_loop fuel e rs cnt (GroupItemDecomposeByItemId e k) (r, snd s) of
                  Done (s2, rewards) \<Rightarrow> Done (s2, rewards, ERR_OK) | Panic \<Rightarrow> Panic | OutOfFuel \<Rightarrow> OutOfFuel)
      | Panic \<Rightarrow> Panic | OutOfFuel \<Rightarrow> OutOfFuel)"

definition ItemExchange ::
  "nat \<Rightarrow> inv_env \<Rightarrow> Reason \<Rightarrow> int \<Rightarrow> int \<Rightarrow> int \<Rightarrow> int \<Rightarrow> inv_state \<Rightarrow> (inv_state \<times> item_code) run" where
  "ItemExchange fuel e rs consumeID consumeCnt productId productCnt s =
     (let ret = ItemCheckReduce e (fst s) consumeID consumeCnt in
      if ret \<noteq> ERR_OK then Done (s, ret)
      else after_reduce e rs consumeID consumeCnt s (\<lambda>s1. ItemAdd fuel e rs productId productCnt s1))"

section \<open>Currencies\<close>

definition DiamondReduce :: "inv_env \<Rightarrow> Reason \<Rightarrow> int \<Rightarrow> Role \<Rightarrow> (Role \<times> item_code) run" where
  "DiamondReduce e rs n r = ItemReduce e rs (ID_DIAMOND (ids e)) n r"

definition GoldReduce :: "inv_env \<Rightarrow> Reason \<Rightarrow> int \<Rightarrow> Role \<Rightarrow> (Role \<times> item_code) run" where
  "GoldReduce e rs n r = ItemReduce e rs (ID_GOLD (ids e)) n r"

definition AceCoinCheckEnough :: "inv_env \<Rightarrow> int \<Rightarrow> Role \<Rightarrow> item_code" where
  "AceCoinCheckEnough e n r =
     (if i64 (GetItemCount e r (ID_ACECOIN (ids e)) + GetItemCount e r (ID_WINACECOIN (ids e))) < n
      then ERR_ACE_COIN_NOT_ENOUGH else ERR_OK)"

text \<open>\<open>AceCoinReduce\<close> takes from the first currency and the rest from the second;
  \<open>WinAceCoinReduce\<close> is the same the other way round.\<close>

definition reduce_two :: "inv_env \<Rightarrow> Reason \<Rightarrow> int \<Rightarrow> int \<Rightarrow> int \<Rightarrow> Role \<Rightarrow> (Role \<times> item_code) run" where
  "reduce_two e rs first second n r =
     (let have1 = GetItemCount e r first in
      if have1 \<ge> n then ItemReduce e rs first n r
      else case ItemReduce e rs first have1 r of
        Done (r1, _) \<Rightarrow> ItemReduce e rs second (i64 (n - have1)) r1
      | Panic \<Rightarrow> Panic | OutOfFuel \<Rightarrow> OutOfFuel)"

definition AceCoinReduce :: "inv_env \<Rightarrow> Reason \<Rightarrow> int \<Rightarrow> Role \<Rightarrow> (Role \<times> item_code) run" where
  "AceCoinReduce e rs n r = reduce_two e rs (ID_ACECOIN (ids e)) (ID_WINACECOIN (ids e)) n r"

definition WinAceCoinReduce :: "inv_env \<Rightarrow> Reason \<Rightarrow> int \<Rightarrow> Role \<Rightarrow> (Role \<times> item_code) run" where
  "WinAceCoinReduce e rs n r = reduce_two e rs (ID_WINACECOIN (ids e)) (ID_ACECOIN (ids e)) n r"

section \<open>The mall (mall.go) and the backpack\<close>

text \<open>Reading a mall item creates it; nothing marks that change.\<close>

definition no_purchases :: PbMallItem where "no_purchases = \<lparr>DailyBuyCount = 0, TotalBuyCount = 0\<rparr>"

definition MallGetItem :: "int \<Rightarrow> Role \<Rightarrow> PbMallItem \<times> Role" where
  "MallGetItem k r = (case map_view (MallInfo (PbRole r)) k of
      None \<Rightarrow> (no_purchases, set_mall k (Some no_purchases) r)
    | Some i \<Rightarrow> (i, r))"

definition MallAddBuyCount :: "inv_env \<Rightarrow> int \<Rightarrow> Role \<Rightarrow> Role" where
  "MallAddBuyCount e k r =
     (case MallGetItem k r of (i, r1) \<Rightarrow>
        MarkMallDirty (flags e) (now e) k False
          (set_mall k (Some \<lparr>DailyBuyCount = i32 (DailyBuyCount i + 1), TotalBuyCount = i32 (TotalBuyCount i + 1)\<rparr>) r1))"

fun refresh_loop :: "inv_env \<Rightarrow> int list \<Rightarrow> Role \<Rightarrow> Role" where
  "refresh_loop e [] r = r"
| "refresh_loop e (k # ks) r =
     refresh_loop e ks (MarkMallDirty (flags e) (now e) k False
       (set_mall k (map_option (\<lambda>v. v\<lparr>DailyBuyCount := 0\<rparr>) (map_view (MallInfo (PbRole r)) k)) r))"

text \<open>\<open>keys\<close> are the keys of the map, in the order of the iteration.\<close>

definition MallDailyRefresh :: "inv_env \<Rightarrow> int list \<Rightarrow> Role \<Rightarrow> Role" where
  "MallDailyRefresh e keys r = refresh_loop e keys r"

definition MallCheckBuyCondition :: "inv_env \<Rightarrow> int \<Rightarrow> Role \<Rightarrow> Role \<times> item_code" where
  "MallCheckBuyCondition e k r = (case GetMallById e k of
      None \<Rightarrow> (r, ERR_CONF)
    | Some conf \<Rightarrow> (case MallGetItem k r of (i, r1) \<Rightarrow>
        (r1, if DailyBuyCount i \<ge> DailyBuyLimit conf \<and> DailyBuyLimit conf > 0 then ERR_MALL_DAILY_LIMIT
             else if TotalBuyCount i \<ge> BuyLimit conf \<and> BuyLimit conf > 0 then ERR_MALL_BUY_LIMIT
             else ERR_OK)))"

text \<open>The handler \<open>MallBuyPackage\<close> after the role is found.  A package that costs ace coins is counted as
  bought, but neither paid for nor handed out.  The first number of \<open>cost\<close> is the item, the second the
  amount, the third the package.\<close>

definition MallBuyPackage ::
  "nat \<Rightarrow> inv_env \<Rightarrow> (int \<Rightarrow> int \<times> int \<times> int) \<Rightarrow> Reason \<Rightarrow> int \<Rightarrow> inv_state \<Rightarrow> (inv_state \<times> item_code) run" where
  "MallBuyPackage fuel e cost rs k s = (case MallCheckBuyCondition e k (fst s) of
      (r1, code) \<Rightarrow>
        if code \<noteq> ERR_OK then Done ((r1, snd s), code)
        else (case cost k of (costId, costCnt, package) \<Rightarrow>
          let ret = ItemCheckReduce e r1 costId costCnt in
          if ret \<noteq> ERR_OK then Done ((r1, snd s), ret)
          else if costId = ID_ACECOIN (ids e) then Done ((MallAddBuyCount e k r1, snd s), ERR_OK)
          else (case ItemExchange fuel e rs costId costCnt package 1 (r1, snd s) of
            Done (s2, code2) \<Rightarrow> if code2 \<noteq> ERR_OK then Done (s2, code2)
                               else Done ((MallAddBuyCount e k (fst s2), snd s2), ERR_OK)
          | Panic \<Rightarrow> Panic | OutOfFuel \<Rightarrow> OutOfFuel)))"

text \<open>The handler \<open>ChangeName\<close> up to its flush.  It asks for 100 gold or a free change, and takes
  neither.\<close>

definition ChangeName :: "inv_env \<Rightarrow> (string \<Rightarrow> bool) \<Rightarrow> string \<Rightarrow> Role \<Rightarrow> Role \<times> item_code" where
  "ChangeName e sensitive newName r =
     (let free = (case BasicInfo (PbRole r) of None \<Rightarrow> 0 | Some b \<Rightarrow> FreeCnt b) in
      if ItemCheckReduce e r (ID_GOLD (ids e)) 100 \<noteq> ERR_OK \<and> free \<le> 0 then (r, ERR_DIAMOND_NOT_ENOUGH)
      else if sensitive newName then (r, ERR_INVALID_NAME)
      else (TouchSection (flags e) (now e) BASIC_INFO ''change_name''
              (r\<lparr>PbRole := (PbRole r)\<lparr>BasicInfo := map_option (\<lambda>b. b\<lparr>Name := newName\<rparr>) (BasicInfo (PbRole r))\<rparr>\<rparr>), ERR_OK))"

definition itemQuality :: "inv_env \<Rightarrow> int \<Rightarrow> int" where
  "itemQuality e k = (case GetItemByItemId e k of None \<Rightarrow> 0 | Some c \<Rightarrow> Quality c)"

definition backpack_before :: "inv_env \<Rightarrow> PbItem \<Rightarrow> PbItem \<Rightarrow> bool" where
  "backpack_before e a b \<longleftrightarrow> itemQuality e (fst a) > itemQuality e (fst b)
     \<or> itemQuality e (fst a) = itemQuality e (fst b) \<and> fst a < fst b"

text \<open>The insertion sort of \<open>sortBackpackViews\<close>: an element moves left past those it precedes.
  The prefix is reversed.\<close>

fun move_left :: "inv_env \<Rightarrow> PbItem \<Rightarrow> PbItem list \<Rightarrow> PbItem list" where
  "move_left e x [] = [x]"
| "move_left e x (y # ys) = (if backpack_before e x y then y # move_left e x ys else x # y # ys)"

definition sortBackpackViews :: "inv_env \<Rightarrow> PbItem list \<Rightarrow> PbItem list" where
  "sortBackpackViews e views = rev (foldl (\<lambda>acc x. move_left e x acc) [] views)"

definition buildBackpackViews :: "inv_env \<Rightarrow> int list \<Rightarrow> int \<Rightarrow> Role \<Rightarrow> PbItem list" where
  "buildBackpackViews e keys bagType r =
     sortBackpackViews e (List.map_filter (\<lambda>k. case item_map r k of
        None \<Rightarrow> None
      | Some n \<Rightarrow>
          if n \<le> 0 then None
          else (case GetItemByItemId e k of
                  None \<Rightarrow> Some (k, n)
                | Some conf \<Rightarrow> if bagType \<noteq> 0 \<and> BagType conf \<noteq> bagType then None else Some (k, n))) keys)"

text \<open>\<open>views[start:end]\<close> panics when its bounds are not in order.\<close>

definition slice_views :: "int \<Rightarrow> int \<Rightarrow> 'a list \<Rightarrow> 'a list run" where
  "slice_views lo hi xs =
     (if 0 \<le> lo \<and> lo \<le> hi \<and> hi \<le> int (length xs) then Done (take (nat (hi - lo)) (drop (nat lo) xs)) else Panic)"

definition QueryBackpack :: "inv_env \<Rightarrow> int list \<Rightarrow> int \<Rightarrow> int \<Rightarrow> int \<Rightarrow> Role \<Rightarrow> (int \<times> PbItem list) run" where
  "QueryBackpack e keys bagType pageIdx0 pageSize0 r =
     (let pageIdx = (if pageIdx0 \<le> 0 then 1 else pageIdx0);
          pageSize1 = (if pageSize0 \<le> 0 then 30 else pageSize0);
          pageSize = (if pageSize1 > 100 then 100 else pageSize1);
          views = buildBackpackViews e keys bagType r;
          total = i32 (int (length views));
          start = i32 ((pageIdx - 1) * pageSize)
      in if start < total
         then (let end0 = i32 (start + pageSize); end1 = (if end0 > total then total else end0)
               in (case slice_views start end1 views of
                     Done items \<Rightarrow> Done (total, items) | Panic \<Rightarrow> Panic | OutOfFuel \<Rightarrow> OutOfFuel))
         else Done (total, []))"

section \<open>Sequences of operations\<close>

datatype inv_op =
    IAdd int int
  | IAddAll "PbItem list"
  | IReduce int int
  | IReduceAll "PbItem list"
  | IUse int int
  | ISell int int
  | IDecompose int int
  | IExchange int int int int
  | IAce int
  | IWinAce int

definition fst_run :: "('a \<times> 'b) run \<Rightarrow> 'a run" where
  "fst_run x = (case x of Done (s, _) \<Rightarrow> Done s | Panic \<Rightarrow> Panic | OutOfFuel \<Rightarrow> OutOfFuel)"

definition with_draws :: "nat \<Rightarrow> (Role \<times> item_code) run \<Rightarrow> inv_state run" where
  "with_draws d x = (case x of Done (r, _) \<Rightarrow> Done (r, d) | Panic \<Rightarrow> Panic | OutOfFuel \<Rightarrow> OutOfFuel)"

fun exec_inv :: "nat \<Rightarrow> inv_env \<Rightarrow> Reason \<Rightarrow> inv_state \<Rightarrow> inv_op \<Rightarrow> inv_state run" where
  "exec_inv fuel e rs s (IAdd k n) = fst_run (ItemAdd fuel e rs k n s)"
| "exec_inv fuel e rs s (IAddAll items) = fst_run (ItemsAdd fuel e rs items s)"
| "exec_inv fuel e rs s (IReduce k n) = with_draws (snd s) (ItemReduce e rs k n (fst s))"
| "exec_inv fuel e rs s (IReduceAll items) = Done (fst (ItemsReduce e rs items (fst s)), snd s)"
| "exec_inv fuel e rs s (IUse k n) = fst_run (ItemUse fuel e rs k n s)"
| "exec_inv fuel e rs s (ISell k n) = fst_run (ItemSell fuel e rs k n s)"
| "exec_inv fuel e rs s (IDecompose k n) = fst_run (ItemDecompose fuel e rs k n s)"
| "exec_inv fuel e rs s (IExchange k n k' n') = fst_run (ItemExchange fuel e rs k n k' n' s)"
| "exec_inv fuel e rs s (IAce n) = with_draws (snd s) (AceCoinReduce e rs n (fst s))"
| "exec_inv fuel e rs s (IWinAce n) = with_draws (snd s) (WinAceCoinReduce e rs n (fst s))"

fun run_inv_ops :: "nat \<Rightarrow> inv_env \<Rightarrow> Reason \<Rightarrow> inv_state \<Rightarrow> inv_op list \<Rightarrow> inv_state run" where
  "run_inv_ops fuel e rs s [] = Done s"
| "run_inv_ops fuel e rs s (a # as) = (case exec_inv fuel e rs s a of
      Done s1 \<Rightarrow> run_inv_ops fuel e rs s1 as | Panic \<Rightarrow> Panic | OutOfFuel \<Rightarrow> OutOfFuel)"

section \<open>Counts after a change\<close>

lemma basic_get_set:
  assumes "ids_ok i" "isBasicInfoItem i k" "isBasicInfoItem i k'"
  shows "basic_count i k' (basic_set i k n b) = (if k' = k then n else basic_count i k' b)"
  using assms by (auto simp: ids_ok_def isBasicInfoItem_def basic_count_def basic_set_def)

text \<open>A role whose fields are initialised has \<open>BasicInfo\<close>.\<close>

abbreviation has_basic :: "Role \<Rightarrow> bool" where "has_basic r \<equiv> BasicInfo (PbRole r) \<noteq> None"

lemma mark_PbRole [simp]:
  "PbRole (MarkInventoryDirty fl t k b r) = PbRole r"
  "PbRole (TouchBasicInfo e r) = PbRole r"
  "PbRole (trackItemMutation e k b rs r) = PbRole r"
  by (auto simp: MarkInventoryDirty_def markPatchSection_def TouchBasicInfo_def TouchSection_def trackItemMutation_def
      markPersistSectionDirty_def MarkPersistDirty_def Let_def)

text \<open>What a cnt is depends on the role's information only.\<close>

lemma ref_cong: "PbRole r = PbRole r' \<Longrightarrow> ItemGetCountRef e r = ItemGetCountRef e r'"
  by (auto simp: ItemGetCountRef_def fun_eq_iff)

lemma ref_put:
  assumes "ids_ok (ids e)" "isBasicInfoItem (ids e) k \<Longrightarrow> has_basic r"
  shows "ItemGetCountRef e (put_count e k n r) k' = (if k' = k then Some n else ItemGetCountRef e r k')"
  using assms basic_get_set [OF assms(1)] by (auto simp: ItemGetCountRef_def put_count_def)

lemma ref_basic: "ItemGetCountRef e r k = Some c \<Longrightarrow> isBasicInfoItem (ids e) k \<Longrightarrow> has_basic r"
  by (auto simp: ItemGetCountRef_def)

lemma ref_remove:
  "ItemGetCountRef e (ItemRemove e k r) k' =
     (if k' = k \<and> \<not> isBasicInfoItem (ids e) k then None else ItemGetCountRef e r k')"
  by (auto simp: ItemRemove_def ItemGetCountRef_def map_view_def split: option.splits)

lemma take_count_count:
  assumes "ids_ok (ids e)" "ItemGetCountRef e r k = Some c"
  shows "GetItemCount e (take_count e rs k c n r) k' = (if k' = k then i64 (c - n) else GetItemCount e r k')"
  using ref_put [OF assms(1) ref_basic [OF assms(2)], of k]
  by (simp add: take_count_def GetItemCount_def Let_def ref_remove ref_cong [OF mark_PbRole(2)] ref_cong [OF mark_PbRole(3)])

lemma distinct_itemAggregate: "distinct (map fst m) \<Longrightarrow> distinct (map fst (itemAggregate items m))"
  by (induction items m rule: itemAggregate.induct) (simp_all del: keys_alist_put)

lemma check_reduce_enough:
  "check_reduce_loop e r items = ERR_OK \<Longrightarrow> (k, n) \<in> set items \<Longrightarrow> n \<noteq> 0 \<Longrightarrow> n \<le> GetItemCount e r k"
  by (induction e r items rule: check_reduce_loop.induct)
    (auto simp: Let_def ItemCheckReduce_def split: if_splits)

lemma fst_run_Done: "fst_run x = Done s \<Longrightarrow> \<exists>ret. x = Done (s, ret)"
  by (auto simp: fst_run_def split: run.splits)

lemma with_draws_Done: "with_draws d x = Done s \<Longrightarrow> \<exists>r ret. x = Done (r, ret) \<and> s = (r, d)"
  by (auto simp: with_draws_def split: run.splits)

section \<open>What every operation does, from its two elementary steps\<close>

text \<open>Every operation is made of bookings, takings and draws.  A relation between states that these
  steps satisfy holds of all of them; \<open>takes_ok\<close> restricts the amounts that are taken.\<close>

locale inventory_steps =
  fixes e :: inv_env and rs :: Reason
    and R :: "inv_state \<Rightarrow> inv_state \<Rightarrow> bool"
    and takes_ok :: "int \<Rightarrow> int \<Rightarrow> bool"
  assumes R_refl: "R s s"
    and R_trans: "R s t \<Longrightarrow> R t u \<Longrightarrow> R s u"
    and R_draw: "R (r, d) (r, d')"
    and R_book: "ItemCheckAdd e r k n = ERR_OK \<Longrightarrow> book_item e rs conf k n r = Done r' \<Longrightarrow> R (r, d) (r', d)"
    and R_take: "ItemGetCountRef e r k = Some c \<Longrightarrow> takes_ok k n \<Longrightarrow> n \<le> c \<Longrightarrow> R (r, d) (take_count e rs k c n r, d)"
    and takes_pos: "0 < n \<Longrightarrow> takes_ok k n"
    and takes_basic: "isBasicInfoItem (ids e) k \<Longrightarrow> takes_ok k n"
begin

definition adds_R :: "item_adder \<Rightarrow> bool" where
  "adds_R add \<longleftrightarrow> (\<forall>k n s s' ret. add k n s = Done (s', ret) \<longrightarrow> R s s')"

lemma add_each_R:
  assumes "adds_R add"
  shows "add_each add items s = Done s' \<Longrightarrow> R s s'"
proof (induction items arbitrary: s)
  case (Cons item items)
  obtain k n where item: "item = (k, n)" by fastforce
  obtain s1 ret where one: "add k n s = Done (s1, ret)" "add_each add items s1 = Done s'"
    using Cons.prems item by (auto split: run.splits)
  have "R s s1" using assms one(1) unfolding adds_R_def by blast
  then show ?case using Cons.IH [OF one(2)] by (rule R_trans)
qed (simp add: R_refl)

lemma ok_run_Done: "ok_run x = Done (s, ret) \<Longrightarrow> x = Done s"
  by (auto simp: ok_run_def split: run.splits)

lemma ItemSee_R: "ItemSee e item s = (items, s') \<Longrightarrow> R s s'"
  by (cases s) (auto simp: ItemSee_def R_refl R_draw split: option.splits if_splits)

lemma ItemsSee_R: "ItemsSee e items s = (out, s') \<Longrightarrow> R s s'"
proof (induction items arbitrary: s out)
  case (Cons item items)
  obtain o1 s1 where one: "ItemSee e item s = (o1, s1)" using prod.exhaust by blast
  obtain o2 where "ItemsSee e items s1 = (o2, s')" using Cons.prems one by (auto split: prod.splits)
  from R_trans [OF ItemSee_R [OF one] Cons.IH [OF this]] show ?case .
qed (simp add: R_refl)

lemma ItemAdd_by_R:
  assumes "adds_R add"
  shows "adds_R (ItemAdd_by add e)"
  unfolding adds_R_def
proof (intro allI impI)
  fix k n s s' ret
  assume run: "ItemAdd_by add e k n s = Done (s', ret)"
  obtain items s1 where see: "ItemSee e (k, n) s = (items, s1)" using prod.exhaust by blast
  show "R s s'"
  proof (cases "n = 0")
    case False
    then have "add_each add items s1 = Done s'" using run see by (simp add: ItemAdd_by_def ok_run_Done)
    from R_trans [OF ItemSee_R [OF see] add_each_R [OF assms this]] show ?thesis .
  qed (use run in \<open>simp add: ItemAdd_by_def R_refl\<close>)
qed

lemma applyItemUse_by_R:
  assumes add: "adds_R add" and use: "applyItemUse_by add e u n s = Done (s', ret)"
  shows "R s s'"
proof -
  note A = ItemAdd_by_R [OF add]
  consider "UseType u = itemUseTypeGainItem" | "UseType u \<noteq> itemUseTypeGainItem" "UseType u = itemUseTypeDropGroup"
    | "UseType u \<noteq> itemUseTypeGainItem" "UseType u \<noteq> itemUseTypeDropGroup" by blast
  then show ?thesis
  proof cases
    case 1
    then obtain m where "ItemAdd_by add e (UseId u) m s = Done (s', ret)"
      using use by (simp add: applyItemUse_by_def Let_def)
    then show ?thesis using A unfolding adds_R_def by blast
  next
    case 2
    obtain items d where d: "draw_drops e (UseId u) (nat n) (snd s) = (items, d)" by fastforce
    have "add_each (ItemAdd_by add e) items (fst s, d) = Done s'"
      using use 2 d by (auto simp: applyItemUse_by_def dest!: ok_run_Done)
    from R_trans [OF R_draw add_each_R [OF A this], of "snd s"] show ?thesis by simp
  next
    case 3
    then show ?thesis using use by (simp add: applyItemUse_by_def R_refl)
  qed
qed

lemma itemDoAdd_R: "adds_R (itemDoAdd fuel e rs)"
proof (induction fuel)
  case (Suc fuel)
  have "R s s'" if run: "itemDoAdd (Suc fuel) e rs k n s = Done (s', ret)" for k n s s' ret
  proof -
    have IH: "adds_R (\<lambda>k n s. itemDoAdd fuel e rs k n s)" using Suc by simp
    have book: "R s (r', snd s)" if "ItemCheckAdd e (fst s) k n = ERR_OK" "book_item e rs conf k n (fst s) = Done r'" for conf r'
      using R_book [OF that, of "snd s"] by simp
    show ?thesis using run applyItemUse_by_R [OF IH] book
      by (auto simp: R_refl Let_def split: if_splits option.splits run.splits)
  qed
  then show ?case unfolding adds_R_def by blast
qed (simp add: adds_R_def)

lemma ItemAdd_R: "ItemAdd fuel e rs k n s = Done (s', ret) \<Longrightarrow> R s s'"
  unfolding ItemAdd_def using ItemAdd_by_R [OF itemDoAdd_R] unfolding adds_R_def by blast

lemma ItemsAdd_R:
  assumes "ItemsAdd fuel e rs items s = Done (s', ret)"
  shows "R s s'"
proof -
  obtain out s1 where see: "ItemsSee e items s = (out, s1)" using prod.exhaust by blast
  have "s' = s \<or> add_each (itemDoAdd fuel e rs) out s1 = Done s'"
    using assms see by (auto simp: ItemsAdd_def Let_def split: if_splits dest!: ok_run_Done)
  then show ?thesis using R_refl R_trans [OF ItemsSee_R [OF see] add_each_R [OF itemDoAdd_R]] by blast
qed

lemma ItemReduce_R:
  assumes "ItemReduce e rs k n r = Done (r', ret)" "takes_ok k n"
  shows "R (r, d) (r', d)"
proof -
  have "n \<le> c" if "ItemGetCountRef e r k = Some c" "ItemCheckReduce e r k n = ERR_OK" "n \<noteq> 0" for c
    using that by (auto simp: ItemCheckReduce_def GetItemCount_def split: if_splits)
  then show ?thesis using assms R_take
    by (auto simp: ItemReduce_def Let_def R_refl split: if_splits option.splits)
qed

lemma after_reduce_R:
  assumes run: "after_reduce e rs k n s next = Done (s', ret)" and n: "takes_ok k n"
    and step: "\<And>t t' ret. next t = Done (t', ret) \<Longrightarrow> R t t'"
  shows "R s s'"
proof -
  obtain r c where red: "ItemReduce e rs k n (fst s) = Done (r, c)"
    and res: "(c \<noteq> ERR_OK \<and> s' = (r, snd s)) \<or> next (r, snd s) = Done (s', ret)"
    using run by (auto simp: after_reduce_def split: run.splits if_splits)
  have "R s (r, snd s)" using ItemReduce_R [OF red, of "snd s"] n by simp
  then show ?thesis using res step R_trans by blast
qed

lemma ItemUse_R: "ItemUse fuel e rs k n s = Done (s', ret) \<Longrightarrow> R s s'"
  using after_reduce_R [OF _ takes_pos] applyItemUse_by_R [OF itemDoAdd_R]
  by (auto simp: ItemUse_def R_refl not_le split: if_splits option.splits)

lemma ItemSell_R: "ItemSell fuel e rs k n s = Done (s', ret) \<Longrightarrow> R s s'"
  using after_reduce_R [OF _ takes_pos] ItemAdd_R
  by (auto simp: ItemSell_def R_refl not_le split: if_splits option.splits)

lemma ItemExchange_R: "takes_ok k n \<Longrightarrow> ItemExchange fuel e rs k n k' n' s = Done (s', ret) \<Longrightarrow> R s s'"
  using after_reduce_R ItemAdd_R
  by (auto simp: ItemExchange_def Let_def R_refl split: if_splits)

lemma decompose_loop_R: "decompose_loop fuel e rs n outs s = Done (s', rewards) \<Longrightarrow> R s s'"
proof (induction outs arbitrary: s rewards)
  case (Cons out outs)
  show ?case
  proof (cases "decIsEnable out = 0 \<or> i64 (OutputCount out * n) \<le> 0")
    case True
    then show ?thesis using Cons by (simp add: Let_def)
  next
    case False
    then obtain s1 ret rw where "ItemAdd fuel e rs (OutputItemId out) (i64 (OutputCount out * n)) s = Done (s1, ret)"
        "decompose_loop fuel e rs n outs s1 = Done (s', rw)"
      using Cons.prems by (auto simp: Let_def split: run.splits)
    then show ?thesis using Cons.IH ItemAdd_R R_trans by blast
  qed
qed (simp add: R_refl)

lemma ItemDecompose_R:
  assumes "ItemDecompose fuel e rs k n s = Done (s', res)"
  shows "R s s'"
proof (cases "0 < n")
  case True
  consider "s' = s" | r ret where "ItemReduce e rs k n (fst s) = Done (r, ret)"
      "s' = (r, snd s) \<or> (\<exists>rw. decompose_loop fuel e rs n (GroupItemDecomposeByItemId e k) (r, snd s) = Done (s', rw))"
    using assms by (auto simp: ItemDecompose_def split: if_splits run.splits)
  then show ?thesis
  proof cases
    case 2
    have "R s (r, snd s)" using ItemReduce_R [OF 2(1), of "snd s"] takes_pos [OF True] by simp
    then show ?thesis using 2(2) decompose_loop_R R_trans by blast
  qed (simp add: R_refl)
qed (use assms in \<open>simp add: ItemDecompose_def R_refl\<close>)

lemma reduce_loop_R:
  assumes "\<forall>(k, n)\<in>set items. n \<noteq> 0 \<longrightarrow> takes_ok k n \<and> n \<le> GetItemCount e r k" and "distinct (map fst items)"
    and "reduce_loop e rs items r = (r', ret)" and ids: "ids_ok (ids e)"
  shows "R (r, d) (r', d)"
  using assms(1,2,3)
proof (induction items arbitrary: r)
  case (Cons item items)
  obtain k n where item: "item = (k, n)" by fastforce
  show ?case
  proof (cases "n = 0 \<or> ItemGetCountRef e r k = None")
    case True
    show ?thesis
    proof (cases "n = 0")
      case True
      have "\<forall>(k, n)\<in>set items. n \<noteq> 0 \<longrightarrow> takes_ok k n \<and> n \<le> GetItemCount e r k" "distinct (map fst items)"
        using Cons.prems(1,2) by simp_all
      from Cons.IH [OF this] show ?thesis using Cons.prems(3) item True by simp
    qed (use True Cons.prems(3) item in \<open>simp add: R_refl\<close>)
  next
    case False
    then obtain c where c: "ItemGetCountRef e r k = Some c" "n \<noteq> 0" by blast
    have "n \<le> c" "takes_ok k n" using Cons.prems(1) c item by (auto simp: GetItemCount_def)
    then have one: "R (r, d) (take_count e rs k c n r, d)" using R_take c(1) by blast
    have "\<forall>(k', n')\<in>set items. n' \<noteq> 0 \<longrightarrow> takes_ok k' n' \<and> n' \<le> GetItemCount e (take_count e rs k c n r) k'"
    proof safe
      fix k' n' assume i: "(k', n') \<in> set items" "n' \<noteq> 0"
      then have "k' \<noteq> k" using Cons.prems(2) item by (auto simp: image_iff)
      then show "n' \<le> GetItemCount e (take_count e rs k c n r) k'"
        using take_count_count [OF ids c(1)] Cons.prems(1) i item by fastforce
      show "takes_ok k' n'" using Cons.prems(1) i item by fastforce
    qed
    from Cons.IH [OF this] have "R (take_count e rs k c n r, d) (r', d)" using Cons.prems(2,3) item c by simp
    with one show ?thesis by (rule R_trans)
  qed
qed (simp add: R_refl)


lemma ItemsReduce_R:
  assumes order: "order_ok e" and ids: "ids_ok (ids e)" and run: "ItemsReduce e rs items r = (r', ret)"
    and ok: "\<forall>(k, n)\<in>set (itemAggregate items []). n = 0 \<or> takes_ok k n"
  shows "R (r, d) (r', d)"
proof -
  define agg where "agg = mapOrder e (itemAggregate items [])"
  have m: "mset agg = mset (itemAggregate items [])" using order by (simp add: agg_def order_ok_def)
  consider "r' = r" | "check_reduce_loop e r agg = ERR_OK" "reduce_loop e rs agg r = (r', ret)"
    using run by (auto simp: ItemsReduce_def ItemsCheckReduce_def Let_def agg_def split: if_splits)
  then show ?thesis
  proof cases
    case 2
    have "mset (map fst agg) = mset (map fst (itemAggregate items []))" using m by simp
    then have "distinct (map fst agg)" using distinct_itemAggregate [of "[]" items] mset_eq_imp_distinct_iff by fastforce
    moreover have "\<forall>(k, n)\<in>set agg. n \<noteq> 0 \<longrightarrow> takes_ok k n \<and> n \<le> GetItemCount e r k"
    proof safe
      fix k n assume i: "(k, n) \<in> set agg" "n \<noteq> 0"
      show "n \<le> GetItemCount e r k" by (rule check_reduce_enough [OF 2(1) i])
      show "takes_ok k n" using ok i unfolding mset_eq_setD [OF m] by blast
    qed
    ultimately show ?thesis using 2(2) reduce_loop_R ids by blast
  qed (simp add: R_refl)
qed

lemma reduce_two_R:
  assumes run: "reduce_two e rs first second n r = Done (r', ret)"
    and "isBasicInfoItem (ids e) first" "isBasicInfoItem (ids e) second"
  shows "R (r, d) (r', d)"
proof (cases "GetItemCount e r first \<ge> n")
  case True
  then show ?thesis using run ItemReduce_R assms takes_basic by (simp add: reduce_two_def)
next
  case False
  then obtain r1 c where "ItemReduce e rs first (GetItemCount e r first) r = Done (r1, c)"
      "ItemReduce e rs second (i64 (n - GetItemCount e r first)) r1 = Done (r', ret)"
    using run by (auto simp: reduce_two_def Let_def split: run.splits)
  then show ?thesis using R_trans [OF ItemReduce_R ItemReduce_R] assms takes_basic by blast
qed

fun op_takes_ok :: "inv_op \<Rightarrow> bool" where
  "op_takes_ok (IReduce k n) = takes_ok k n"
| "op_takes_ok (IReduceAll items) = (\<forall>(k, n)\<in>set (itemAggregate items []). n = 0 \<or> takes_ok k n)"
| "op_takes_ok (IExchange k n k' n') = takes_ok k n"
| "op_takes_ok _ = True"

lemma exec_inv_R:
  assumes hyps: "order_ok e" "ids_ok (ids e)" and run: "exec_inv fuel e rs s a = Done s'" and ok: "op_takes_ok a"
  shows "R s s'"
proof -
  have ace: "isBasicInfoItem (ids e) (ID_ACECOIN (ids e))" "isBasicInfoItem (ids e) (ID_WINACECOIN (ids e))"
    by (simp_all add: isBasicInfoItem_def)
  show ?thesis
  proof (cases a)
    case (IAdd k n)
    then have "fst_run (ItemAdd fuel e rs k n s) = Done s'" using run by simp
    from fst_run_Done [OF this] obtain ret where "ItemAdd fuel e rs k n s = Done (s', ret)" ..
    then show ?thesis by (rule ItemAdd_R)
  next
    case (IAddAll items)
    then have "fst_run (ItemsAdd fuel e rs items s) = Done s'" using run by simp
    from fst_run_Done [OF this] obtain ret where "ItemsAdd fuel e rs items s = Done (s', ret)" ..
    then show ?thesis by (rule ItemsAdd_R)
  next
    case (IReduce k n)
    obtain r ret where "ItemReduce e rs k n (fst s) = Done (r, ret)" "s' = (r, snd s)"
      using with_draws_Done [of "snd s" "ItemReduce e rs k n (fst s)" s'] run IReduce by auto
    with ItemReduce_R [of k n "fst s" r ret "snd s"] ok IReduce show ?thesis by simp
  next
    case (IReduceAll items)
    with run ok ItemsReduce_R [OF hyps, of items "fst s" "fst s'" "snd (ItemsReduce e rs items (fst s))" "snd s"]
    show ?thesis by auto
  next
    case (IUse k n)
    then have "fst_run (ItemUse fuel e rs k n s) = Done s'" using run by simp
    from fst_run_Done [OF this] obtain ret where "ItemUse fuel e rs k n s = Done (s', ret)" ..
    then show ?thesis by (rule ItemUse_R)
  next
    case (ISell k n)
    then have "fst_run (ItemSell fuel e rs k n s) = Done s'" using run by simp
    from fst_run_Done [OF this] obtain ret where "ItemSell fuel e rs k n s = Done (s', ret)" ..
    then show ?thesis by (rule ItemSell_R)
  next
    case (IDecompose k n)
    then have "fst_run (ItemDecompose fuel e rs k n s) = Done s'" using run by simp
    from fst_run_Done [OF this] obtain ret where "ItemDecompose fuel e rs k n s = Done (s', ret)" ..
    then show ?thesis by (rule ItemDecompose_R)
  next
    case (IExchange k n k' n')
    then have "fst_run (ItemExchange fuel e rs k n k' n' s) = Done s'" using run by simp
    from fst_run_Done [OF this] obtain ret where "ItemExchange fuel e rs k n k' n' s = Done (s', ret)" ..
    then show ?thesis using ok IExchange ItemExchange_R by simp
  next
    case (IAce n)
    obtain r ret where "AceCoinReduce e rs n (fst s) = Done (r, ret)" "s' = (r, snd s)"
      using with_draws_Done [of "snd s" "AceCoinReduce e rs n (fst s)" s'] run IAce by auto
    with reduce_two_R [OF _ ace, of n "fst s" r ret "snd s"] show ?thesis by (simp add: AceCoinReduce_def)
  next
    case (IWinAce n)
    obtain r ret where "WinAceCoinReduce e rs n (fst s) = Done (r, ret)" "s' = (r, snd s)"
      using with_draws_Done [of "snd s" "WinAceCoinReduce e rs n (fst s)" s'] run IWinAce by auto
    with reduce_two_R [OF _ ace(2,1), of n "fst s" r ret "snd s"] show ?thesis by (simp add: WinAceCoinReduce_def)
  qed
qed

lemma run_inv_ops_R:
  "order_ok e \<Longrightarrow> ids_ok (ids e) \<Longrightarrow> run_inv_ops fuel e rs s as = Done s' \<Longrightarrow> \<forall>a\<in>set as. op_takes_ok a \<Longrightarrow> R s s'"
proof (induction as arbitrary: s)
  case (Cons a as)
  then obtain s1 where one: "exec_inv fuel e rs s a = Done s1" and rest: "run_inv_ops fuel e rs s1 as = Done s'"
    by (auto split: run.splits)
  have "R s s1" using exec_inv_R [OF Cons.prems(1,2) one] Cons.prems(4) by simp
  then show ?case using Cons.IH [OF Cons.prems(1,2) rest] Cons.prems(4) R_trans by simp
qed (simp add: R_refl)

end

section \<open>Every change is marked\<close>

text \<open>\<open>changes\<close> holds when marked changes alone lead from one role to the other.\<close>

fun change_op :: "sync_op \<Rightarrow> bool" where
  "change_op (OFull _) = False"
| "change_op (OConn _) = False"
| "change_op (OFlush _ _) = False"
| "change_op _ = True"

definition changes :: "section_flags \<Rightarrow> Role \<Rightarrow> Role \<Rightarrow> bool" where
  "changes fl r r' \<longleftrightarrow> (\<exists>as. (\<forall>a\<in>set as. change_op (snd a)) \<and> (\<forall>c. foldl (exec_sync fl) (r, c) as = (r', c)))"

lemma changes_refl: "changes fl r r"
  unfolding changes_def by (rule exI [of _ "[]"]) simp

lemma changes_one: "change_op a \<Longrightarrow> (\<And>c. exec_sync fl (r, c) (t, a) = (r', c)) \<Longrightarrow> changes fl r r'"
  unfolding changes_def by (rule exI [of _ "[(t, a)]"]) simp

lemma changes_trans:
  assumes "changes fl r s" "changes fl s t"
  shows "changes fl r t"
proof -
  obtain as bs where "\<forall>a\<in>set as. change_op (snd a)" "\<forall>c. foldl (exec_sync fl) (r, c) as = (s, c)"
      "\<forall>a\<in>set bs. change_op (snd a)" "\<forall>c. foldl (exec_sync fl) (s, c) bs = (t, c)"
    using assms unfolding changes_def by blast
  then have "\<forall>a\<in>set (as @ bs). change_op (snd a)" "\<forall>c. foldl (exec_sync fl) (r, c) (as @ bs) = (t, c)" by auto
  then show ?thesis unfolding changes_def by blast
qed

lemma changes_item:
  "changes (flags e) r (MarkInventoryDirty (flags e) (now e) k (v = None) (set_inventory k v r))"
  by (rule changes_one [of "OItem k v" _ _ "now e"]) simp_all

lemma changes_icon:
  "changes (flags e) r (MarkIconDirty (flags e) (now e) k False (set_icons (\<lambda>i. i\<lparr>IconMap := (IconMap i)(k := Some b)\<rparr>) r))"
  by (rule changes_one [of "OIcon k (Some b)" _ _ "now e"]) simp_all

lemma changes_frame:
  "changes (flags e) r (MarkFrameDirty (flags e) (now e) k False (set_icons (\<lambda>i. i\<lparr>FrameMap := (FrameMap i)(k := Some b)\<rparr>) r))"
  by (rule changes_one [of "OFrame k (Some b)" _ _ "now e"]) simp_all

lemma changes_basic:
  "changes (flags e) r (TouchBasicInfo e (r\<lparr>PbRole := (PbRole r)\<lparr>BasicInfo := Some b\<rparr>\<rparr>))"
  by (rule changes_one [of "OTouch BASIC_INFO (BasicMsg b) ''basic_info''" _ _ "now e"]) (simp_all add: TouchBasicInfo_def)

text \<open>An assignment through the reference, together with what marks it.\<close>

lemma changes_put:
  assumes "has_basic r" "shouldTrackMutation rs"
  shows "changes (flags e) r (trackItemMutation e k False rs (put_count e k n r))"
proof (cases "isBasicInfoItem (ids e) k")
  case True
  obtain b where "BasicInfo (PbRole r) = Some b" using assms(1) by blast
  then show ?thesis using changes_basic [of e r "basic_set (ids e) k n b"] True assms(2)
    by (simp add: trackItemMutation_def put_count_def)
next
  case False
  then show ?thesis using changes_item [of e r k "Some n"] assms(2) by (simp add: trackItemMutation_def put_count_def)
qed

lemma has_basic_put [simp]: "(BasicInfo (PbRole (put_count e k n r)) = None) = (BasicInfo (PbRole r) = None)"
  by (simp add: put_count_def)

lemma has_basic_remove [simp]: "BasicInfo (PbRole (ItemRemove e k r)) = BasicInfo (PbRole r)"
  by (simp add: ItemRemove_def)

lemma has_basic_take: "(BasicInfo (PbRole (take_count e rs k c n r)) = None) = (BasicInfo (PbRole r) = None)"
  by (simp add: take_count_def Let_def)

lemma has_basic_icons [simp]: "BasicInfo (PbRole (IconAdd e rs k r)) = BasicInfo (PbRole r)"
    "BasicInfo (PbRole (FrameAdd e rs k r)) = BasicInfo (PbRole r)"
  by (auto simp: IconAdd_def FrameAdd_def Let_def MarkIconDirty_def MarkFrameDirty_def markPatchSection_def)

lemma book_item_changes:
  assumes b: "has_basic r" and t: "shouldTrackMutation rs" and run: "book_item e rs conf k n r = Done r'"
  shows "has_basic r' \<and> changes (flags e) r r'"
proof -
  obtain info where info: "BasicInfo (PbRole r) = Some info" using b by blast
  have "(PbRole r)\<lparr>BasicInfo := Some info\<rparr> = PbRole r" using info by (cases "PbRole r") simp
  then have touch: "changes (flags e) r (TouchBasicInfo e r)" using changes_basic [of e r info] by simp
  have icons: "changes (flags e) r (IconAdd e rs k r)" "changes (flags e) r (FrameAdd e rs k r)"
    using t unfolding IconAdd_def FrameAdd_def Let_def by (simp_all only: if_True changes_icon changes_frame)
  consider "r' = r" | "r' = TouchBasicInfo e r" | "r' = IconAdd e rs k r" | "r' = FrameAdd e rs k r"
    | m where "r' = trackItemMutation e k False rs (put_count e k m r)"
    using run by (auto simp: book_item_def Let_def split: if_splits option.splits)
  then show ?thesis
    by cases (use b in \<open>simp_all add: touch icons changes_put [OF b t] changes_refl del: not_None_eq\<close>)
qed

lemma take_count_changes:
  assumes b: "has_basic r" and t: "shouldTrackMutation rs" and ref: "ItemGetCountRef e r k = Some c"
  shows "has_basic (take_count e rs k c n r) \<and> changes (flags e) r (take_count e rs k c n r)"
proof -
  let ?r = "put_count e k (i64 (c - n)) r"
  show ?thesis
  proof (cases "i64 (c - n) = 0 \<and> \<not> isBasicInfoItem (ids e) k")
    case True
    then have inv: "InventoryInfo (PbRole r) \<noteq> None" using ref by (auto simp: ItemGetCountRef_def map_view_def split: option.splits)
    have "ItemRemove e k ?r = MarkInventoryDirty (flags e) (now e) k True (set_inventory k None r)"
      using True by (simp add: ItemRemove_def put_count_def)
    then show ?thesis using True b changes_item [of e r k None] by (simp add: take_count_def del: not_None_eq)
  next
    case False
    have "take_count e rs k c n r = trackItemMutation e k False rs ?r"
      using False t by (auto simp: take_count_def Let_def trackItemMutation_def)
    then show ?thesis using b changes_put [OF b t] by (simp del: not_None_eq)
  qed
qed

interpretation tracked: inventory_steps e rs
  "\<lambda>s t. shouldTrackMutation rs \<longrightarrow> has_basic (fst s) \<longrightarrow> has_basic (fst t) \<and> changes (flags e) (fst s) (fst t)" "\<lambda>_ _. True"
  for e rs
proof (unfold_locales, goal_cases)
  case (2 s t u)
  then show ?case using changes_trans by blast
next
  case (4 r k n conf r' d)
  then show ?case using book_item_changes [of r rs e conf k n r'] by (simp del: not_None_eq)
next
  case (5 r k c n d)
  then show ?case using take_count_changes [of r rs e k c n] by (simp del: not_None_eq)
qed (simp_all add: changes_refl)

lemma inventory_changes:
  assumes "order_ok e" "ids_ok (ids e)" "\<not> isInit rs" "has_basic (fst s)" "run_inv_ops fuel e rs s as = Done s'"
  shows "changes (flags e) (fst s) (fst s')"
proof -
  have "\<forall>a\<in>set as. tracked.op_takes_ok a"
  proof
    fix a assume "a \<in> set as"
    show "tracked.op_takes_ok a" by (cases a) auto
  qed
  from tracked.run_inv_ops_R [OF assms(1,2,5) this] show ?thesis using assms(3,4) by (simp add: shouldTrackMutation_def)
qed

lemma changes_inv:
  assumes "flags_ok fl" "changes fl r r'" "sync_inv fl r c"
  shows "sync_inv fl r' c"
proof -
  obtain as where "foldl (exec_sync fl) (r, c) as = (r', c)" using assms(2) unfolding changes_def by blast
  then show ?thesis using sync.run_inv [of fl "(r, c)" as] assms(1,3) by simp
qed

text \<open>C17: Whatever the inventory does reaches the client.  If the client is up to date up to what is
  marked, then after any sequence of operations that add, take, use, sell, decompose or exchange items,
  failing ones included, for a reason other than the initialisation of the role, a flush that returns
  nil leaves every section of the client equal to the role's.\<close>

theorem inventory_reaches_client:
  assumes "flags_ok (flags e)" "order_ok e" "ids_ok (ids e)" "\<not> isInit rs"
    and "sync_inv (flags e) (fst s) c" "BasicInfo (PbRole (fst s)) \<noteq> None"
    and "run_inv_ops fuel e rs s as = Done s'"
    and "FlushClientSync (flags e) usePatch sendOk (fst s') = (r2, msg, True)"
  shows "same_section x (PbRole r2) (case msg of None \<Rightarrow> c | Some m \<Rightarrow> client_apply (flags e) m c)"
  using FlushClientSync_inv [OF assms(1) changes_inv [OF assms(1) inventory_changes [OF assms(2,3,4,6,7)] assms(5)] assms(8) refl]
  by blast

definition sample_ids :: item_ids where
  "sample_ids = \<lparr>ID_GOLD = 1, ID_DIAMOND = 2, ID_CREDIT = 3, ID_LIVENESS = 4, ID_GUILDGOLD = 5, ID_ACECOIN = 6,
     ID_WINACECOIN = 7, ID_EXP = 8, TYPE_DROP = 9, MAIN_ICON = 10, SUB_ICON_ICON = 1, SUB_ICON_FRAME = 2\<rparr>"

definition sample_item :: ItemConfig where
  "sample_item = \<lparr>ItType = 1, MainType = 1, SubType = 1, Sale = 5, Quality = 1, BagType = 1\<rparr>"

text \<open>Every item is configured; item 30 is limited to 10.\<close>

definition sample_env :: inv_env where
  "sample_env = \<lparr>flags = sample_flags, now = 100, ids = sample_ids, GetItemByItemId = (\<lambda>_. Some sample_item),
     GetItemRuleRefByItemId = (\<lambda>k. if k = 30 then Some 1 else None),
     GetItemRuleById = (\<lambda>_. Some \<lparr>MaxOwnCount = 10, Getuse = 0\<rparr>), GetItemUseById = (\<lambda>_. None),
     GroupItemDecomposeByItemId = (\<lambda>_. []), GetMallById = (\<lambda>_. None), dropOf = (\<lambda>_ _. []), mapOrder = (\<lambda>items. items)\<rparr>"

definition sample_basic :: RoleBasicInfo where
  "sample_basic = \<lparr>Name = ''n'', Level = 1, Gold = 100, Diamond = 0, Credit = 0, Liveness = 0, GuildCoin = 0,
     AceCoin = 3, WinAceCoin = 4, FreeCnt = 0\<rparr>"

definition sample_player :: Role where
  "sample_player = sample_role\<lparr>pendingFullSyncMask := 0, PbRole := empty_info\<lparr>BasicInfo := Some sample_basic, InventoryInfo := Some [20 \<mapsto> 6, 30 \<mapsto> 8]\<rparr>\<rparr>"

definition play :: Reason where "play = \<lparr>isInit = False\<rparr>"

lemma sample_env_ok: "order_ok sample_env" "ids_ok (ids sample_env)" "flags_ok (flags sample_env)"
  using sample_flags_ok by (simp_all add: order_ok_def sample_env_def ids_ok_def sample_ids_def)

lemma sample_player_synced: "sync_inv sample_flags sample_player (PbRole sample_player)"
proof -
  have "tracked sample_player (PbRole sample_player) x" for x
    by (rule same_unmarked, simp add: same_section_refl, cases x)
      (simp_all add: sample_player_def sample_role_def)
  moreover have "unmarked sample_player x" for x by (cases x) (simp_all add: sample_player_def sample_role_def)
  ultimately show ?thesis by (simp add: sync_inv_def)
qed

lemma run_Done: "(case x of Done s \<Rightarrow> P s | _ \<Rightarrow> False) \<Longrightarrow> \<exists>s. x = Done s \<and> P s"
  by (cases x) auto

theorem inventory_reaches_client_witness:
  "\<exists>s r2 msg. run_inv_ops 5 sample_env play (sample_player, 0) [ISell 20 2, IAce 5] = Done s
     \<and> FlushClientSync sample_flags True True (fst s) = (r2, msg, True)
     \<and> same_section INVENTORY_INFO (PbRole r2)
         (case msg of None \<Rightarrow> PbRole sample_player | Some m \<Rightarrow> client_apply sample_flags m (PbRole sample_player))"
proof -
  have "case run_inv_ops 5 sample_env play (sample_player, 0) [ISell 20 2, IAce 5] of
      Done s \<Rightarrow> snd (snd (FlushClientSync sample_flags True True (fst s))) | _ \<Rightarrow> False" by code_simp
  then obtain s where run: "run_inv_ops 5 sample_env play (sample_player, 0) [ISell 20 2, IAce 5] = Done s"
    and ok: "snd (snd (FlushClientSync sample_flags True True (fst s)))" using run_Done by blast
  obtain r2 msg where flush: "FlushClientSync sample_flags True True (fst s) = (r2, msg, True)"
    using ok by (metis prod.collapse)
  have fl: "flags sample_env = sample_flags" by (simp add: sample_env_def)
  have rs: "\<not> isInit play" by (simp add: play_def)
  have b: "BasicInfo (PbRole (fst (sample_player, 0))) \<noteq> None" by (simp add: sample_player_def)
  from inventory_reaches_client [OF sample_env_ok(3,1,2) rs _ b run, unfolded fl, OF _ flush]
  show ?thesis using run flush sample_player_synced by fastforce
qed

section \<open>Limits\<close>

definition within_limits :: "inv_env \<Rightarrow> Role \<Rightarrow> bool" where
  "within_limits e r \<longleftrightarrow> (\<forall>k rule. getItemRule e k = Some rule \<and> MaxOwnCount rule > 0 \<and> \<not> isBasicInfoItem (ids e) k
     \<longrightarrow> GetItemCount e r k \<le> MaxOwnCount rule)"

text \<open>\<open>MaxOwnCount\<close> is a signed number of at most 64 bits.\<close>

definition rules_ok :: "inv_env \<Rightarrow> bool" where
  "rules_ok e \<longleftrightarrow> (\<forall>k rule. getItemRule e k = Some rule \<longrightarrow> MaxOwnCount rule < 9223372036854775808)"

fun nonneg_op :: "inv_op \<Rightarrow> bool" where
  "nonneg_op (IReduce k n) = (0 \<le> n)"
| "nonneg_op (IReduceAll items) = (\<forall>(k, n)\<in>set (itemAggregate items []). 0 \<le> n)"
| "nonneg_op (IExchange k n k' n') = (0 \<le> n)"
| "nonneg_op _ = True"

lemma icons_ref [simp]:
  "ItemGetCountRef e (IconAdd e' rs k r) = ItemGetCountRef e r" "ItemGetCountRef e (FrameAdd e' rs k r) = ItemGetCountRef e r"
  by (auto simp: fun_eq_iff ItemGetCountRef_def IconAdd_def FrameAdd_def Let_def MarkIconDirty_def MarkFrameDirty_def markPatchSection_def)

lemma book_item_count:
  assumes "ids_ok (ids e)" and run: "book_item e rs conf k n r = Done r'" and nb: "\<not> isBasicInfoItem (ids e) k'"
  shows "GetItemCount e r' k' = GetItemCount e r k' \<or> k' = k \<and> GetItemCount e r' k' = i64 (GetItemCount e r k + n)"
proof -
  have put: "GetItemCount e (trackItemMutation e k False rs (put_count e k m r)) k' = (if k' = k then m else GetItemCount e r k')" for m
    using ref_put [OF assms(1), of k r m k'] nb
    by (auto simp: GetItemCount_def ref_cong [OF mark_PbRole(3)] put_count_def ItemGetCountRef_def)
  consider "r' = r \<or> r' = TouchBasicInfo e r \<or> r' = IconAdd e rs k r \<or> r' = FrameAdd e rs k r"
    | "r' = trackItemMutation e k False rs (put_count e k (i64 (GetItemCount e r k + n)) r)"
    using run by (auto simp: book_item_def Let_def GetItemCount_def split: if_splits option.splits)
  then show ?thesis
  proof cases
    case 1
    then show ?thesis by (auto simp: GetItemCount_def ref_cong [OF mark_PbRole(2)])
  qed (simp add: put)
qed

lemma book_item_limits:
  assumes ids: "ids_ok (ids e)" and lim: "within_limits e r"
    and ok: "ItemCheckAdd e r k n = ERR_OK" and run: "book_item e rs conf k n r = Done r'"
  shows "within_limits e r'"
  unfolding within_limits_def
proof (intro allI impI, elim conjE)
  fix k' rule assume r: "getItemRule e k' = Some rule" "0 < MaxOwnCount rule" "\<not> isBasicInfoItem (ids e) k'"
  have "i64 (GetItemCount e r k + n) \<le> MaxOwnCount rule" if "k' = k"
    using ok r that by (auto simp: ItemCheckAdd_def split: if_splits option.splits)
  then show "GetItemCount e r' k' \<le> MaxOwnCount rule"
    using book_item_count [OF ids run r(3)] lim r unfolding within_limits_def by metis
qed

lemma take_count_limits:
  assumes ids: "ids_ok (ids e)" and rules: "rules_ok e" and lim: "within_limits e r"
    and ref: "ItemGetCountRef e r k = Some c" and n: "isBasicInfoItem (ids e) k \<or> 0 \<le> n" "n \<le> c"
  shows "within_limits e (take_count e rs k c n r)"
  unfolding within_limits_def
proof (intro allI impI, elim conjE)
  fix k' rule assume r: "getItemRule e k' = Some rule" "0 < MaxOwnCount rule" "\<not> isBasicInfoItem (ids e) k'"
  have le: "GetItemCount e r k' \<le> MaxOwnCount rule" "MaxOwnCount rule < 9223372036854775808"
    using lim rules r by (auto simp: within_limits_def rules_ok_def)
  have "i64 (c - n) \<le> MaxOwnCount rule" if k: "k' = k"
    using le n r(3) ref k i64_id [of "c - n"] by (simp add: GetItemCount_def)
  then show "GetItemCount e (take_count e rs k c n r) k' \<le> MaxOwnCount rule"
    using take_count_count [OF ids ref] le by simp
qed

interpretation limited: inventory_steps e rs
  "\<lambda>s t. ids_ok (ids e) \<longrightarrow> rules_ok e \<longrightarrow> within_limits e (fst s) \<longrightarrow> within_limits e (fst t)"
  "\<lambda>k n. isBasicInfoItem (ids e) k \<or> 0 \<le> n"
  for e rs
proof (unfold_locales, goal_cases)
  case (4 r k n conf r' d)
  then show ?case using book_item_limits by auto
next
  case (5 r k c n d)
  then show ?case using take_count_limits by auto
qed simp_all

text \<open>C20: No item goes over its limit.  Once every item with a rule is within its \<open>MaxOwnCount\<close>, no
  sequence of operations whose taken amounts are not negative brings one over it, whatever is added,
  dropped or produced, however deep items that are used at once give each other, and although the
  sums wrap around.\<close>

theorem inventory_within_limits:
  assumes "order_ok e" "ids_ok (ids e)" "rules_ok e" and "within_limits e (fst s)"
    and "\<forall>a\<in>set as. nonneg_op a" and "run_inv_ops fuel e rs s as = Done s'"
  shows "within_limits e (fst s')"
proof -
  have "limited.op_takes_ok e a" if "a \<in> set as" for a
    using bspec [OF assms(5) that] by (cases a) auto
  then show ?thesis using limited.run_inv_ops_R [OF assms(1,2,6)] assms(2,3,4) by blast
qed

lemma sample_limits: "rules_ok sample_env" "within_limits sample_env sample_player"
  by (auto simp: rules_ok_def within_limits_def getItemRule_def sample_env_def sample_player_def GetItemCount_def
      ItemGetCountRef_def isBasicInfoItem_def sample_ids_def split: if_splits)

theorem inventory_within_limits_witness:
  "\<exists>s. run_inv_ops 5 sample_env play (sample_player, 0) [IAdd 30 2, IAdd 30 1, IReduce 30 4] = Done s
     \<and> within_limits sample_env (fst s) \<and> GetItemCount sample_env (fst s) 30 = 6"
proof -
  let ?as = "[IAdd 30 2, IAdd 30 1, IReduce 30 4]"
  have "case run_inv_ops 5 sample_env play (sample_player, 0) ?as of
      Done s \<Rightarrow> GetItemCount sample_env (fst s) 30 = 6 | _ \<Rightarrow> False" by code_simp
  then obtain s where s: "run_inv_ops 5 sample_env play (sample_player, 0) ?as = Done s"
      "GetItemCount sample_env (fst s) 30 = 6" using run_Done by blast
  have "within_limits sample_env (fst s)"
    by (rule inventory_within_limits [OF sample_env_ok(1,2) sample_limits(1) _ _ s(1)]) (simp_all add: sample_limits(2))
  with s show ?thesis by blast
qed

section \<open>Taking many items at once\<close>

definition amount :: "PbItem list \<Rightarrow> int \<Rightarrow> int" where
  "amount items k = sum_list (map snd (filter (\<lambda>i. fst i = k) items))"

lemma amount_simps [simp]: "amount [] k = 0" "amount ((k', n) # items) k = (if k' = k then n else 0) + amount items k"
  by (simp_all add: amount_def)

lemma amount_nonneg: "\<forall>(k, n)\<in>set items. 0 \<le> n \<Longrightarrow> 0 \<le> amount items k"
  by (induction items) auto

lemma aggregate_amount:
  assumes "\<forall>(k, n)\<in>set items. 0 \<le> n" and "\<forall>k. 0 \<le> weight_of (\<lambda>n. n) (map_of m k)"
    and "\<forall>k. weight_of (\<lambda>n. n) (map_of m k) + amount items k < 9223372036854775808"
  shows "weight_of (\<lambda>n. n) (map_of (itemAggregate items m) k) = weight_of (\<lambda>n. n) (map_of m k) + amount items k"
  using assms
proof (induction items m rule: itemAggregate.induct)
  case (2 j n items m)
  define v where "v = (case map_of m j of None \<Rightarrow> n | Some c \<Rightarrow> i64 (c + n))"
  have "0 \<le> weight_of (\<lambda>n. n) (map_of m j)" "weight_of (\<lambda>n. n) (map_of m j) + (n + amount items j) < 9223372036854775808"
    "0 \<le> n" "0 \<le> amount items j" using 2(2-4) amount_nonneg [of items j] by (auto dest: spec [of _ j])
  then have v: "v = weight_of (\<lambda>n. n) (map_of m j) + n" by (cases "map_of m j") (auto simp: v_def i64_id)
  have w: "weight_of (\<lambda>n. n) (map_of (alist_put j v m) i) = weight_of (\<lambda>n. n) (map_of m i) + (if j = i then n else 0)" for i
    by (simp add: v)
  have "weight_of (\<lambda>n. n) (map_of (itemAggregate items (alist_put j v m)) k) = weight_of (\<lambda>n. n) (map_of (alist_put j v m) k) + amount items k"
    unfolding v_def
  proof (rule 2(1))
    show "\<forall>(k, n)\<in>set items. 0 \<le> n" using 2(2) by simp
    show "\<forall>i. 0 \<le> weight_of (\<lambda>n. n) (map_of (alist_put j (case map_of m j of None \<Rightarrow> n | Some c \<Rightarrow> i64 (c + n)) m) i)"
      unfolding v_def [symmetric] w using 2(2,3) by simp
    show "\<forall>i. weight_of (\<lambda>n. n) (map_of (alist_put j (case map_of m j of None \<Rightarrow> n | Some c \<Rightarrow> i64 (c + n)) m) i) + amount items i
        < 9223372036854775808"
      unfolding v_def [symmetric] w using 2(4) by (simp add: add.assoc)
  qed
  then show ?case using v by (simp add: v_def [symmetric])
qed simp

lemma reduce_loop_exact:
  assumes "ids_ok (ids e)" and "\<forall>(k, n)\<in>set items. 0 \<le> n \<and> n \<le> GetItemCount e r k" and "distinct (map fst items)"
    and "\<forall>k. GetItemCount e r k < 9223372036854775808"
  shows "\<exists>r'. reduce_loop e rs items r = (r', ERR_OK)
    \<and> (\<forall>k. GetItemCount e r' k = GetItemCount e r k - weight_of (\<lambda>n. n) (map_of items k))"
  using assms(2-4)
proof (induction items arbitrary: r)
  case (Cons item items)
  obtain k n where item: "item = (k, n)" by fastforce
  have new: "k \<notin> fst ` set items" and dist: "distinct (map fst items)" using Cons.prems(2) item by auto
  then have none: "map_of items k = None" by (simp add: map_of_eq_None_iff)
  show ?case
  proof (cases "n = 0")
    case True
    have "\<forall>(k, n)\<in>set items. 0 \<le> n \<and> n \<le> GetItemCount e r k" using Cons.prems(1) by simp
    from Cons.IH [OF this dist Cons.prems(3)] show ?thesis using none by (auto simp: item True)
  next
    case False
    then obtain c where c: "ItemGetCountRef e r k = Some c"
      using Cons.prems(1) item by (auto simp: GetItemCount_def split: option.splits)
    have n: "0 < n" "n \<le> c" "c < 9223372036854775808"
      using Cons.prems(1) spec [OF Cons.prems(3), of k] False c item by (auto simp: GetItemCount_def)
    let ?r = "take_count e rs k c n r"
    have cnt: "GetItemCount e ?r j = (if j = k then c - n else GetItemCount e r j)" for j
      using take_count_count [OF assms(1) c, of rs n j] n i64_id [of "c - n"] by simp
    have "\<forall>(j, m)\<in>set items. 0 \<le> m \<and> m \<le> GetItemCount e ?r j"
      using Cons.prems(1) new by (force simp: cnt)
    moreover have "\<forall>j. GetItemCount e ?r j < 9223372036854775808" using Cons.prems(3) n by (simp add: cnt)
    ultimately obtain r' where "reduce_loop e rs items ?r = (r', ERR_OK)"
        "\<forall>j. GetItemCount e r' j = GetItemCount e ?r j - weight_of (\<lambda>n. n) (map_of items j)"
      using Cons.IH dist by blast
    moreover have "GetItemCount e r k = c" using c by (simp add: GetItemCount_def)
    ultimately show ?thesis using False c none by (auto simp: item cnt)
  qed
qed simp

lemma check_reduce_ok:
  "check_reduce_loop e r items = ERR_OK \<longleftrightarrow> (\<forall>(k, n)\<in>set items. n = 0 \<or> n \<le> GetItemCount e r k)"
  by (induction e r items rule: check_reduce_loop.induct) (auto simp: Let_def ItemCheckReduce_def)

lemma weight_of_mset:
  assumes "mset xs = mset ys" "distinct (map fst ys)"
  shows "map_of xs = map_of ys"
proof -
  have "mset (map fst xs) = mset (map fst ys)" using assms(1) by simp
  then have "distinct (map fst xs)" using assms(2) mset_eq_imp_distinct_iff by blast
  then show ?thesis using assms map_of_eqI mset_eq_setD by (metis map_of_inject_set)
qed

text \<open>C21: Taking a list of items is all or nothing, and exact.  For amounts that are not negative and
  totals within \<open>int64\<close>, \<open>ItemsReduce\<close> succeeds exactly when the role has the total of every item,
  entries with the same identifier added up; it then takes exactly these totals and changes no other
  count, in whatever order Go goes through the aggregated map; otherwise it changes nothing.\<close>

theorem ItemsReduce_all_or_nothing:
  assumes "order_ok e" "ids_ok (ids e)" and "\<forall>(k, n)\<in>set items. 0 \<le> n"
    and "\<forall>k. amount items k < 9223372036854775808" and "\<forall>k. 0 \<le> GetItemCount e r k \<and> GetItemCount e r k < 9223372036854775808"
  shows "case ItemsReduce e rs items r of (r', ret) \<Rightarrow>
    if \<forall>k. amount items k \<le> GetItemCount e r k
    then ret = ERR_OK \<and> (\<forall>k. GetItemCount e r' k = GetItemCount e r k - amount items k)
    else ret \<noteq> ERR_OK \<and> r' = r"
proof -
  define agg where "agg = mapOrder e (itemAggregate items [])"
  have m: "mset agg = mset (itemAggregate items [])" using assms(1) by (simp add: agg_def order_ok_def)
  have d: "distinct (map fst (itemAggregate items []))" by (simp add: distinct_itemAggregate)
  have "mset (map fst agg) = mset (map fst (itemAggregate items []))" using m by simp
  then have dist: "distinct (map fst agg)" using d mset_eq_imp_distinct_iff by blast
  have tot: "weight_of (\<lambda>n. n) (map_of agg k) = amount items k" for k
    using aggregate_amount [of items "[]" k] assms(3,4) weight_of_mset [OF m d] by simp
  have mem: "n = amount items k" if "(k, n) \<in> set agg" for k n using tot [of k] dist that by simp
  have ok: "check_reduce_loop e r agg = ERR_OK \<longleftrightarrow> (\<forall>k. amount items k \<le> GetItemCount e r k)"
  proof
    assume c: "check_reduce_loop e r agg = ERR_OK"
    show "\<forall>k. amount items k \<le> GetItemCount e r k"
    proof
      fix k show "amount items k \<le> GetItemCount e r k"
      proof (cases "map_of agg k")
        case None
        then show ?thesis using tot [of k] assms(5) by simp
      next
        case (Some n)
        then show ?thesis using c tot [of k] assms(5) map_of_SomeD [OF Some] by (auto simp: check_reduce_ok)
      qed
    qed
  qed (use mem in \<open>auto simp: check_reduce_ok\<close>)
  show ?thesis
  proof (cases "\<forall>k. amount items k \<le> GetItemCount e r k")
    case True
    have "\<forall>(k, n)\<in>set agg. 0 \<le> n \<and> n \<le> GetItemCount e r k"
      using True mem amount_nonneg [OF assms(3)] by auto
    from reduce_loop_exact [OF assms(2) this dist, of rs] assms(5) obtain r' where
      "reduce_loop e rs agg r = (r', ERR_OK)" "\<forall>k. GetItemCount e r' k = GetItemCount e r k - amount items k"
      by (auto simp: tot)
    then show ?thesis using True ok by (auto simp: ItemsReduce_def ItemsCheckReduce_def Let_def agg_def)
  next
    case False
    then have "items \<noteq> []" using assms(5) by auto
    then show ?thesis using False ok by (auto simp: ItemsReduce_def ItemsCheckReduce_def Let_def agg_def)
  qed
qed

theorem ItemsReduce_all_or_nothing_witness:
  "case ItemsReduce sample_env play [(20, 1), (30, 3), (20, 2)] sample_player of (r', ret) \<Rightarrow>
     ret = ERR_OK \<and> GetItemCount sample_env r' 20 = GetItemCount sample_env sample_player 20 - 3"
proof -
  have counts: "GetItemCount sample_env sample_player k =
      (if k = 1 then 100 else if k = 6 then 3 else if k = 7 then 4 else if k = 20 then 6 else if k = 30 then 8 else 0)" for k
    by (auto simp: GetItemCount_def ItemGetCountRef_def sample_env_def sample_ids_def sample_player_def isBasicInfoItem_def
        basic_count_def sample_basic_def split: option.splits)
  have amounts: "amount [(20, 1), (30, 3), (20, 2)] k = (if k = 20 then 3 else if k = 30 then 3 else 0)" for k by simp
  have le: "\<forall>k. amount [(20, 1), (30, 3), (20, 2)] k \<le> GetItemCount sample_env sample_player k"
    unfolding amounts counts by auto
  have "\<forall>(k, n)\<in>set [(20, 1), (30, 3), (20, 2)]. (0::int) \<le> (n :: int)" by simp
  moreover have "\<forall>k. amount [(20, 1), (30, 3), (20, 2)] k < 9223372036854775808" unfolding amounts by simp
  moreover have "\<forall>k. 0 \<le> GetItemCount sample_env sample_player k \<and> GetItemCount sample_env sample_player k < 9223372036854775808"
    unfolding counts by simp
  ultimately show ?thesis
    using ItemsReduce_all_or_nothing [OF sample_env_ok(1,2), of "[(20, 1), (30, 3), (20, 2)]" sample_player play] le
    by (auto split: prod.splits simp: amounts)
qed

section \<open>Two purses\<close>

lemma ItemReduce_short: "n \<noteq> 0 \<Longrightarrow> GetItemCount e r k < n \<Longrightarrow> \<exists>ret. ret \<noteq> ERR_OK \<and> ItemReduce e rs k n r = Done (r, ret)"
  by (auto simp: ItemReduce_def ItemCheckReduce_def Let_def)

lemma ItemReduce_enough:
  assumes "ids_ok (ids e)" "0 \<le> n" "n \<le> GetItemCount e r k" "GetItemCount e r k < 9223372036854775808"
  shows "\<exists>r'. ItemReduce e rs k n r = Done (r', ERR_OK)
    \<and> (\<forall>k'. GetItemCount e r' k' = GetItemCount e r k' - (if k' = k then n else 0))"
proof (cases "n = 0")
  case False
  then obtain c where c: "ItemGetCountRef e r k = Some c"
    using assms(2,3) by (auto simp: GetItemCount_def split: option.splits)
  then have cnt: "GetItemCount e r k = c" by (simp add: GetItemCount_def)
  have run: "ItemReduce e rs k n r = Done (take_count e rs k c n r, ERR_OK)"
    using False assms(3) c by (simp add: ItemReduce_def ItemCheckReduce_def Let_def)
  have "i64 (c - n) = c - n" using assms(2-4) cnt by (simp add: i64_id)
  then show ?thesis unfolding run using take_count_count [OF assms(1) c, of rs n] cnt by simp
qed (simp add: ItemReduce_def)

lemma reduce_two_spec:
  assumes ids: "ids_ok (ids e)" and ne: "first \<noteq> second" and n: "0 \<le> n" "n < 9223372036854775808"
    and a: "0 \<le> GetItemCount e r first" "GetItemCount e r first < 9223372036854775808"
    and b: "0 \<le> GetItemCount e r second" "GetItemCount e r second < 9223372036854775808"
  defines "x \<equiv> min n (GetItemCount e r first)"
  defines "ok \<equiv> n \<le> GetItemCount e r first + GetItemCount e r second"
  shows "\<exists>r' ret. reduce_two e rs first second n r = Done (r', ret) \<and> (ret = ERR_OK \<longleftrightarrow> ok)
    \<and> (\<forall>k. GetItemCount e r' k = GetItemCount e r k - (if k = first then x else if k = second \<and> ok then n - x else 0))"
proof (cases "n \<le> GetItemCount e r first")
  case True
  then show ?thesis using ItemReduce_enough [OF ids n(1) True a(2), of rs] b ne
    by (auto simp: reduce_two_def x_def ok_def)
next
  case False
  let ?h = "GetItemCount e r first"
  have x: "x = ?h" using False by (simp add: x_def)
  obtain r1 where one: "ItemReduce e rs first ?h r = Done (r1, ERR_OK)"
    and cnt1: "\<And>k. GetItemCount e r1 k = GetItemCount e r k - (if k = first then ?h else 0)"
    using ItemReduce_enough [OF ids a(1) order.refl a(2)] by blast
  have rest: "i64 (n - ?h) = n - ?h" using n a False by (simp add: i64_id)
  have run: "reduce_two e rs first second n r = ItemReduce e rs second (n - ?h) r1"
    using False one rest by (simp add: reduce_two_def)
  show ?thesis
  proof (cases ok)
    case True
    then have "0 \<le> n - ?h" "n - ?h \<le> GetItemCount e r1 second" "GetItemCount e r1 second < 9223372036854775808"
      using False b ne by (auto simp: ok_def cnt1)
    from ItemReduce_enough [OF ids this, of rs] show ?thesis using True ne unfolding run x by (auto simp: cnt1)
  next
    case no: False
    then have "n - ?h \<noteq> 0" "GetItemCount e r1 second < n - ?h" using False ne by (auto simp: ok_def cnt1)
    from ItemReduce_short [OF this, of rs] show ?thesis using no unfolding run x by (auto simp: cnt1)
  qed
qed

text \<open>Paying in ace coins takes from the first purse as much as it has and the rest from the
  second.  The result is good exactly when both together have enough; but the first purse is emptied
  also when they do not, and the error is all that is left to tell it.\<close>

theorem AceCoinReduce_purses:
  assumes "ids_ok (ids e)" and "0 \<le> n" "n < 9223372036854775808"
    and "0 \<le> GetItemCount e r (ID_ACECOIN (ids e))" "GetItemCount e r (ID_ACECOIN (ids e)) < 9223372036854775808"
    and "0 \<le> GetItemCount e r (ID_WINACECOIN (ids e))" "GetItemCount e r (ID_WINACECOIN (ids e)) < 9223372036854775808"
    and "have_a = GetItemCount e r (ID_ACECOIN (ids e))" and "have_w = GetItemCount e r (ID_WINACECOIN (ids e))"
  shows "\<exists>r' ret. AceCoinReduce e rs n r = Done (r', ret) \<and> (ret = ERR_OK \<longleftrightarrow> n \<le> have_a + have_w)
    \<and> GetItemCount e r' (ID_ACECOIN (ids e)) = have_a - min n have_a
    \<and> GetItemCount e r' (ID_WINACECOIN (ids e)) = (if n \<le> have_a + have_w then have_w - (n - min n have_a) else have_w)"
proof -
  have ne: "ID_ACECOIN (ids e) \<noteq> ID_WINACECOIN (ids e)" using assms(1) by (auto simp: ids_ok_def)
  from reduce_two_spec [OF assms(1) ne assms(2-7), of rs, folded assms(8,9)]
  obtain r' ret where run: "AceCoinReduce e rs n r = Done (r', ret)" and ok: "ret = ERR_OK \<longleftrightarrow> n \<le> have_a + have_w"
    and cnt: "\<And>k. GetItemCount e r' k = GetItemCount e r k - (if k = ID_ACECOIN (ids e) then min n have_a
      else if k = ID_WINACECOIN (ids e) \<and> n \<le> have_a + have_w then n - min n have_a else 0)"
    unfolding AceCoinReduce_def by blast
  have "GetItemCount e r' (ID_ACECOIN (ids e)) = have_a - min n have_a"
    unfolding cnt assms(8) [symmetric] by (simp only: if_True simp_thms)
  moreover have "GetItemCount e r' (ID_WINACECOIN (ids e)) = (if n \<le> have_a + have_w then have_w - (n - min n have_a) else have_w)"
    unfolding cnt assms(9) [symmetric] using ne by (simp only: if_False if_True simp_thms not_sym [OF ne] split: if_split) simp
  ultimately show ?thesis using run ok by blast
qed

theorem AceCoinReduce_purses_witness:
  "\<exists>r' ret. AceCoinReduce sample_env play 9 sample_player = Done (r', ret) \<and> ret \<noteq> ERR_OK
     \<and> GetItemCount sample_env r' 6 = 0 \<and> GetItemCount sample_env r' 7 = 4"
proof -
  have "GetItemCount sample_env sample_player 6 = 3" "GetItemCount sample_env sample_player 7 = 4"
    "ID_ACECOIN (ids sample_env) = 6" "ID_WINACECOIN (ids sample_env) = 7" by code_simp+
  note counts = this
  have "\<exists>r' ret. AceCoinReduce sample_env play 9 sample_player = Done (r', ret) \<and> (ret = ERR_OK \<longleftrightarrow> (9::int) \<le> 3 + 4)
    \<and> GetItemCount sample_env r' (ID_ACECOIN (ids sample_env)) = 3 - min 9 3
    \<and> GetItemCount sample_env r' (ID_WINACECOIN (ids sample_env)) = (if (9::int) \<le> 3 + 4 then 4 - (9 - min 9 3) else 4)"
    by (rule AceCoinReduce_purses [OF sample_env_ok(2)]) (simp_all add: counts)
  then show ?thesis by (simp only: counts) simp
qed

section \<open>Pages of the backpack\<close>

lemma move_left_mset [simp]: "mset (move_left e x ys) = add_mset x (mset ys)"
  by (induction ys) auto

lemma sort_mset: "mset (sortBackpackViews e views) = mset views"
proof -
  have "mset (foldl (\<lambda>acc x. move_left e x acc) acc views) = mset acc + mset views" for acc
    by (induction views arbitrary: acc) simp_all
  then show ?thesis by (simp add: sortBackpackViews_def)
qed

definition in_order :: "inv_env \<Rightarrow> PbItem list \<Rightarrow> bool" where
  "in_order e = sorted_wrt (\<lambda>a b. \<not> backpack_before e b a)"

lemma backpack_trans: "backpack_before e a b \<Longrightarrow> \<not> backpack_before e c b \<Longrightarrow> \<not> backpack_before e c a"
  by (auto simp: backpack_before_def)

lemma backpack_total_trans: "\<not> backpack_before e b a \<Longrightarrow> \<not> backpack_before e c b \<Longrightarrow> \<not> backpack_before e c a"
  by (auto simp: backpack_before_def)

lemma move_left_sorted:
  "sorted_wrt (\<lambda>a b. \<not> backpack_before e a b) ys \<Longrightarrow> sorted_wrt (\<lambda>a b. \<not> backpack_before e a b) (move_left e x ys)"
proof (induction ys)
  case (Cons y ys)
  show ?case
  proof (cases "backpack_before e x y")
    case True
    then have "\<not> backpack_before e y x" by (auto simp: backpack_before_def)
    moreover have "set (move_left e x ys) = insert x (set ys)" by (metis move_left_mset set_mset_add_mset_insert set_mset_mset)
    ultimately show ?thesis using Cons True by simp
  next
    case False
    have "\<not> backpack_before e x z" if "z \<in> set ys" for z
      using backpack_total_trans [OF _ False, of z] Cons.prems that by auto
    then show ?thesis using False Cons.prems by simp
  qed
qed simp

lemma sort_in_order: "in_order e (sortBackpackViews e views)"
proof -
  have "sorted_wrt (\<lambda>a b. \<not> backpack_before e a b) (foldl (\<lambda>acc x. move_left e x acc) acc views)"
    if "sorted_wrt (\<lambda>a b. \<not> backpack_before e a b) acc" for acc
    using that by (induction views arbitrary: acc) (simp_all add: move_left_sorted)
  then show ?thesis by (simp add: in_order_def sortBackpackViews_def sorted_wrt_rev)
qed

text \<open>The entries a query selects.\<close>

definition selected :: "inv_env \<Rightarrow> int list \<Rightarrow> int \<Rightarrow> Role \<Rightarrow> PbItem list" where
  "selected e keys bagType r = filter (\<lambda>(k, n). n > 0
     \<and> (bagType = 0 \<or> (case GetItemByItemId e k of None \<Rightarrow> True | Some conf \<Rightarrow> BagType conf = bagType)))
     (List.map_filter (\<lambda>k. map_option (Pair k) (item_map r k)) keys)"

lemma build_selected: "mset (buildBackpackViews e keys bagType r) = mset (selected e keys bagType r)"
  unfolding buildBackpackViews_def sort_mset selected_def
  by (induction keys) (auto simp: List.map_filter_simps split: option.splits)

definition page_size :: "int \<Rightarrow> int" where
  "page_size n = (if n \<le> 0 then 30 else min n 100)"

lemma slice_page:
  assumes "0 \<le> start" "0 \<le> (n::int)"
  shows "slice_views start (min (start + n) (int (length xs))) xs = (if start \<le> int (length xs) then Done (take (nat n) (drop (nat start) xs)) else Panic)"
proof (cases "start + n \<le> int (length xs)")
  case True
  then show ?thesis using assms by (simp add: slice_views_def min_def)
next
  case False
  then have "length (drop (nat start) xs) \<le> nat (int (length xs) - start)" "length (drop (nat start) xs) \<le> nat n" by simp_all
  then show ?thesis using False assms by (simp add: slice_views_def min_def)
qed

text \<open>A page of the backpack is that page of the ordered list: by falling quality and rising
  identifier, the entries of the category that are not empty, each once, thirty or at most a hundred to a page.
  This holds as long as the position of the page fits 32 bits; where it does not, the product of page
  number and size can wrap around to a negative position, and cutting the list there panics.\<close>

theorem backpack_page:
  fixes pageSize :: int
  assumes "int (length (selected e keys bagType r)) < 2147483548" "pageIdx < 2147483648"
  defines "views \<equiv> buildBackpackViews e keys bagType r"
    and "page \<equiv> (if pageIdx \<le> 0 then 1 else pageIdx)" and "per \<equiv> page_size pageSize"
  shows "in_order e views \<and> mset views = mset (selected e keys bagType r)
    \<and> (if (page - 1) * per < 2147483648
       then QueryBackpack e keys bagType pageIdx pageSize r
            = Done (int (length views), take (nat per) (drop (nat ((page - 1) * per)) views))
       else i32 ((page - 1) * per) < 0 \<longrightarrow> QueryBackpack e keys bagType pageIdx pageSize r = Panic)"
proof -
  have m: "mset views = mset (selected e keys bagType r)" by (simp add: views_def build_selected)
  then have len: "int (length views) < 2147483548" using assms(1) by (metis size_mset)
  have tot: "i32 (int (length views)) = int (length views)" using len by (simp add: i32_id)
  have per: "(if (if pageSize \<le> 0 then 30 else pageSize) > 100 then 100 else (if pageSize \<le> 0 then 30 else pageSize)) = per"
    "0 < per" "per \<le> 100" by (simp_all add: per_def page_size_def min_def)
  define start where "start = i32 ((page - 1) * per)"
  have run: "QueryBackpack e keys bagType pageIdx pageSize r =
     (if start < int (length views)
      then (case slice_views start (let end0 = i32 (start + per) in if end0 > int (length views) then int (length views) else end0) views of
              Done items \<Rightarrow> Done (int (length views), items) | Panic \<Rightarrow> Panic | OutOfFuel \<Rightarrow> OutOfFuel)
      else Done (int (length views), []))"
    unfolding QueryBackpack_def Let_def per(1) page_def [symmetric] views_def [symmetric] tot start_def by (rule refl)
  have page: "1 \<le> page" by (simp add: page_def)
  have "QueryBackpack e keys bagType pageIdx pageSize r = Done (int (length views), take (nat per) (drop (nat ((page - 1) * per)) views))"
    if "(page - 1) * per < 2147483648"
  proof -
    have "0 \<le> (page - 1) * per" using page per by simp
    then have s: "start = (page - 1) * per" "0 \<le> start" using that by (simp_all add: start_def i32_id)
    show ?thesis
    proof (cases "start < int (length views)")
      case True
      have e: "i32 (start + per) = start + per" using True len s(2) per by (simp add: i32_id)
      have "(let end0 = i32 (start + per) in if end0 > int (length views) then int (length views) else end0)
        = min (start + per) (int (length views))" by (simp add: e min_def)
      then show ?thesis using True slice_page [OF s(2), of per views] per by (simp add: run s(1))
    next
      case False
      then have "drop (nat start) views = []" by simp
      then show ?thesis using False by (simp add: run s(1))
    qed
  qed
  moreover have "QueryBackpack e keys bagType pageIdx pageSize r = Panic" if "i32 ((page - 1) * per) < 0"
  proof -
    have "start < int (length views)" "\<not> 0 \<le> start" using that by (simp_all add: start_def)
    then show ?thesis by (simp add: run slice_views_def)
  qed
  ultimately show ?thesis using m by (simp add: views_def buildBackpackViews_def sort_in_order)
qed

theorem backpack_page_witness:
  "QueryBackpack sample_env [20, 30] 0 1 30 sample_player = Done (2, [(20, 6), (30, 8)])
   \<and> QueryBackpack sample_env [20, 30] 0 1073741825 30 sample_player = Panic"
proof -
  have len: "int (length (selected sample_env [20, 30] 0 sample_player)) < 2147483548" by code_simp
  have v: "buildBackpackViews sample_env [20, 30] 0 sample_player = [(20, 6), (30, 8)]" by code_simp
  have "page_size 30 = 30" by (simp add: page_size_def)
  moreover have "i32 32212254720 = - 2147483648" by (simp add: i32_def)
  ultimately show ?thesis
    using backpack_page [OF len, of 1 30] backpack_page [OF len, of 1073741825 30] by (simp add: v)
qed

section \<open>Selling\<close>

text \<open>Selling is an exact exchange.  Where gold is configured as an item of its own, \<open>ItemSell\<close>
  either fails and changes nothing, or takes the amount of the item and pays the price of each in gold,
  and no other count changes.  It fails exactly when the amount is not positive, the item is a
  currency, is not configured or has no price, or the role has not enough of it.\<close>

theorem ItemSell_exact:
  assumes "ids_ok (ids e)" and "GetItemByItemId e (ID_GOLD (ids e)) = Some gold" "ItType gold \<noteq> TYPE_DROP (ids e)"
    and "getItemRule e (ID_GOLD (ids e)) = None" and "BasicInfo (PbRole r) \<noteq> None" and "n < 2147483648"
    and "case GetItemByItemId e k of None \<Rightarrow> True | Some conf \<Rightarrow> Sale conf < 2147483648"
    and "0 \<le> GetItemCount e r k" "GetItemCount e r k < 9223372036854775808"
    and "0 \<le> GetItemCount e r (ID_GOLD (ids e))" "GetItemCount e r (ID_GOLD (ids e)) < 4611686018427387904"
  defines "price \<equiv> (case GetItemByItemId e k of None \<Rightarrow> 0 | Some conf \<Rightarrow> Sale conf)"
  shows "\<exists>r' ret. ItemSell (Suc fuel) e rs k n (r, d) = Done ((r', d), ret)
    \<and> (if 0 < n \<and> \<not> isBasicInfoItem (ids e) k \<and> 0 < price \<and> n \<le> GetItemCount e r k
       then ret = ERR_OK \<and> (\<forall>j. GetItemCount e r' j = GetItemCount e r j
              + (if j = k then - n else if j = ID_GOLD (ids e) then price * n else 0))
       else ret \<noteq> ERR_OK \<and> r' = r)"
proof (cases "0 < n \<and> \<not> isBasicInfoItem (ids e) k \<and> 0 < price")
  case False
  then show ?thesis by (auto simp: ItemSell_def price_def split: option.splits)
next
  case True
  then obtain conf where conf: "GetItemByItemId e k = Some conf" "price = Sale conf" by (auto simp: price_def split: option.splits)
  let ?g = "ID_GOLD (ids e)"
  have gk: "isBasicInfoItem (ids e) ?g" "k \<noteq> ?g" using True by (auto simp: isBasicInfoItem_def)
  have pay: "0 < price * n" "price * n < 4611686018427387904"
  proof -
    show "0 < price * n" using True by simp
    have "price * n \<le> 2147483647 * 2147483647" using True conf assms(6,7) by (intro mult_mono) auto
    then show "price * n < 4611686018427387904" by simp
  qed
  have sell: "ItemSell (Suc fuel) e rs k n (r, d) = after_reduce e rs k n (r, d) (\<lambda>s1. ItemAdd (Suc fuel) e rs ?g (i64 (Sale conf * n)) s1)"
    using True conf by (simp add: ItemSell_def)
  have i: "i64 (Sale conf * n) = price * n" using pay conf by (simp add: i64_id)
  show ?thesis
  proof (cases "n \<le> GetItemCount e r k")
    case False
    then obtain ret where "ret \<noteq> ERR_OK" "ItemReduce e rs k n r = Done (r, ret)" using ItemReduce_short [of n e r k rs] True by auto
    then show ?thesis using False by (simp add: sell after_reduce_def)
  next
    case enough: True
    obtain r1 where red: "ItemReduce e rs k n r = Done (r1, ERR_OK)"
      and cnt1: "\<And>j. GetItemCount e r1 j = GetItemCount e r j - (if j = k then n else 0)"
      using ItemReduce_enough [OF assms(1) _ enough assms(9), of rs] True by auto
    have "r1 = r \<or> (\<exists>c. r1 = take_count e rs k c n r)"
      using red by (auto simp: ItemReduce_def Let_def split: if_splits option.splits)
    then have b1: "BasicInfo (PbRole r1) \<noteq> None" using assms(5) has_basic_take by metis
    then obtain c where c: "ItemGetCountRef e r1 ?g = Some c" using gk(1) by (auto simp: ItemGetCountRef_def)
    have c_eq: "c = GetItemCount e r ?g" using cnt1 [of ?g] gk(2) c by (simp add: GetItemCount_def)
    let ?r = "trackItemMutation e ?g False rs (put_count e ?g (i64 (c + price * n)) r1)"
    have "ItemCheckAdd e r1 ?g (price * n) = ERR_OK" using pay(1) assms(2) gk(1) by (simp add: ItemCheckAdd_def)
    then have "itemDoAdd (Suc fuel) e rs ?g (price * n) (r1, d) = Done ((?r, d), ERR_OK)"
      using True assms(2,4) c by (simp add: book_item_def)
    then have "ItemAdd (Suc fuel) e rs ?g (price * n) (r1, d) = Done ((?r, d), ERR_OK)"
      using True assms(2,3) by (simp add: ItemAdd_def ItemAdd_by_def ItemSee_def ok_run_def)
    then have run: "ItemSell (Suc fuel) e rs k n (r, d) = Done ((?r, d), ERR_OK)"
      by (simp add: sell after_reduce_def red i)
    have "i64 (c + price * n) = c + price * n" using pay assms(10,11) c_eq by (simp add: i64_id)
    then have "GetItemCount e ?r j = (if j = ?g then c + price * n else GetItemCount e r1 j)" for j
      using ref_put [OF assms(1), of ?g r1] b1 by (simp add: GetItemCount_def ref_cong [OF mark_PbRole(3)])
    then show ?thesis using run True enough gk(2) c_eq cnt1 by simp
  qed
qed

theorem ItemSell_exact_witness:
  "\<exists>r' ret. ItemSell 1 sample_env play 20 2 (sample_player, 0) = Done ((r', 0), ret)
     \<and> ret = ERR_OK \<and> GetItemCount sample_env r' 20 = 4 \<and> GetItemCount sample_env r' 1 = 110"
proof -
  have c: "GetItemCount sample_env sample_player 20 = 6" "GetItemCount sample_env sample_player 1 = 100"
    "ID_GOLD (ids sample_env) = 1" "GetItemByItemId sample_env 20 = Some sample_item" "GetItemByItemId sample_env 1 = Some sample_item"
    "getItemRule sample_env 1 = None" "\<not> isBasicInfoItem (ids sample_env) 20" "Sale sample_item = 5"
    "ItType sample_item \<noteq> TYPE_DROP (ids sample_env)" "BasicInfo (PbRole sample_player) \<noteq> None" by code_simp+
  show ?thesis
    using ItemSell_exact [OF sample_env_ok(2), of sample_item sample_player 2 20 0 play 0] c by auto
qed

end
