(* ===== verification/RolePersist.thy ===== *)
theory RolePersist
  imports Inventory
begin

text \<open>
  What a role keeps across processes (\<open>mainsvr/role/role.go\<close>, \<open>role_mgr.go\<close>, \<open>persist_hash.go\<close> and the
  handlers of \<open>service/c2s_ssrpc.go\<close> that load, save and drop roles).  The Redis server is a map from
  players to hashes; \<open>fault\<close> tells which of its writes fail.
\<close>

section \<open>Creating and loading\<close>

text \<open>What is not in the repository or not looked into: the encoding of the fresh open-function
  section and the decimal notation of numbers.\<close>

record role_env =
  inv :: inv_env
  allOpen :: string
  decimal :: "int \<Rightarrow> string"

definition or_init :: "'a option \<Rightarrow> 'a \<Rightarrow> 'a option" where
  "or_init x d = (case x of None \<Rightarrow> Some d | Some _ \<Rightarrow> x)"

definition fresh_basic :: "role_env \<Rightarrow> 64 word \<Rightarrow> RoleBasicInfo" where
  "fresh_basic env uid = \<lparr>Name = ''Player'' @ decimal env (sint uid), Level = 1, Gold = 1000000, Diamond = 10000,
     Credit = 10000, Liveness = 0, GuildCoin = 0, AceCoin = 100000, WinAceCoin = 20000, FreeCnt = 1\<rparr>"

text \<open>\<open>int64(uid)%31\<close> takes the sign of the dividend.\<close>

definition RoleInitField :: "role_env \<Rightarrow> 64 word \<Rightarrow> RoleInfo \<Rightarrow> RoleInfo" where
  "RoleInitField env uid i = i\<lparr>
     RegisterInfo := or_init (RegisterInfo i) \<lparr>riUid = uid, TimeOffsetMinute = 0, RegisterTime = now (inv env)\<rparr>,
     LoginInfo := or_init (LoginInfo i) \<lparr>LastLoginTime = 0, NowLoginTime = 0, LastLogoutTime = 0, LastHartBeatTime = 0\<rparr>,
     GameInfo := or_init (GameInfo i) [],
     BasicInfo := or_init (BasicInfo i) (fresh_basic env uid),
     IconInfo := or_init (IconInfo i) \<lparr>IconUrl = ''headicon_'' @ decimal env (sgn (sint uid) * (\<bar>sint uid\<bar> mod 31)), FrameId = 0,
       IconMap = Map.empty, FrameMap = Map.empty\<rparr>,
     MallInfo := or_init (MallInfo i) Map.empty,
     MainTaskInfo := or_init (MainTaskInfo i) [],
     OpenFunInfo := or_init (OpenFunInfo i) (allOpen env),
     InventoryInfo := or_init (InventoryInfo i) Map.empty\<rparr>"

definition new_role :: "RoleInfo \<Rightarrow> Role" where
  "new_role i = \<lparr>PbRole = i, connBusId = 0, HeartBeatExpiryTime = 0, HeartBeatCount = 0, pendingFullSyncMask = 0,
     pendingPatchMask = 0, inventoryDirty = no_keys, mallDirty = no_keys, iconDirty = no_keys, frameDirty = no_keys,
     actTaskDirty = no_keys, iconEquipDirty = False, needPersist = False, persistDirtySince = 0, lastPersistAt = 0,
     persistReasons = {}, persistDirtyMask = 0\<rparr>"

definition OnRoleCreate :: "nat \<Rightarrow> role_env \<Rightarrow> inv_state \<Rightarrow> inv_state run" where
  "OnRoleCreate fuel env s =
     run_inv_ops fuel (inv env) \<lparr>isInit = True\<rparr> s
       [IAdd (ID_GOLD (ids (inv env))) 500000, IAdd (ID_DIAMOND (ids (inv env))) 500000, IAdd (ID_CREDIT (ids (inv env))) 500000]"

definition NewRole :: "nat \<Rightarrow> role_env \<Rightarrow> 64 word \<Rightarrow> nat \<Rightarrow> inv_state run" where
  "NewRole fuel env uid d = OnRoleCreate fuel env (new_role (RoleInitField env uid empty_info), d)"

text \<open>A hash without the register field makes \<open>loadRole\<close> dereference a nil \<open>RegisterInfo\<close>.\<close>

datatype load_outcome = LoadFailed | NoRole | Loaded Role

definition loadRole ::
  "role_env \<Rightarrow> (section_msg \<Rightarrow> bool) \<Rightarrow> bool \<Rightarrow> 64 word \<Rightarrow> 64 word \<Rightarrow> role_hash \<Rightarrow> load_outcome run" where
  "loadRole env blank getFault uid transUid h =
     (if uid \<noteq> transUid then Done LoadFailed
      else case loadRoleHash blank getFault h of
        LoadErr \<Rightarrow> Done LoadFailed
      | LoadNil \<Rightarrow> Done NoRole
      | LoadInfo i \<Rightarrow> (case RegisterInfo i of
            None \<Rightarrow> Panic
          | Some ri \<Rightarrow> Done (Loaded (new_role (RoleInitField env (riUid ri) i)))))"

section \<open>The manager (role_mgr.go)\<close>

record role_mgr =
  mapUidToRole :: "64 word \<rightharpoonup> Role"
  redis :: "64 word \<Rightarrow> role_hash"

text \<open>\<open>meanwhile\<close> is a role that another goroutine stores while this one loads.\<close>

definition obtainRole ::
  "nat \<Rightarrow> role_env \<Rightarrow> section_flags \<Rightarrow> (section_msg \<Rightarrow> bool) \<Rightarrow> bool \<Rightarrow> (RoleSection \<Rightarrow> bool) \<Rightarrow> Role option \<Rightarrow> nat
   \<Rightarrow> 64 word \<Rightarrow> 64 word \<Rightarrow> bool \<Rightarrow> role_mgr \<Rightarrow> (role_mgr \<times> Role option) run" where
  "obtainRole fuel env fl blank getFault fault meanwhile d uid transUid createIfNotExist m =
     (case mapUidToRole m uid of
        Some r \<Rightarrow> Done (m, Some r)
      | None \<Rightarrow> (case loadRole env blank getFault uid transUid (redis m uid) of
          Panic \<Rightarrow> Panic
        | OutOfFuel \<Rightarrow> OutOfFuel
        | Done LoadFailed \<Rightarrow> Done (m, None)
        | Done (Loaded r) \<Rightarrow> (case meanwhile of
              Some other \<Rightarrow> Done (m\<lparr>mapUidToRole := (mapUidToRole m)(uid \<mapsto> other)\<rparr>, Some other)
            | None \<Rightarrow> Done (m\<lparr>mapUidToRole := (mapUidToRole m)(uid \<mapsto> r)\<rparr>, Some r))
        | Done NoRole \<Rightarrow>
            if \<not> createIfNotExist then Done (m, None)
            else (case NewRole fuel env uid d of
              Panic \<Rightarrow> Panic
            | OutOfFuel \<Rightarrow> OutOfFuel
            | Done (r, _) \<Rightarrow> (case meanwhile of
                  Some other \<Rightarrow> Done (m\<lparr>mapUidToRole := (mapUidToRole m)(uid \<mapsto> other)\<rparr>, Some other)
                | None \<Rightarrow> (case SaveToDB fl fault transUid r (redis m uid) of
                    (r1, h1, _) \<Rightarrow> Done (\<lparr>mapUidToRole = (mapUidToRole m)(uid \<mapsto> r1), redis = (redis m)(uid := h1)\<rparr>, Some r1))))))"

definition DeleteRole :: "64 word \<Rightarrow> role_mgr \<Rightarrow> role_mgr" where
  "DeleteRole uid m = m\<lparr>mapUidToRole := (mapUidToRole m)(uid := None)\<rparr>"

text \<open>\<open>uids\<close> are the keys in the order of the iteration; \<open>saved\<close> and \<open>failed\<close> are counted.\<close>

fun FlushAllToDB ::
  "section_flags \<Rightarrow> (64 word \<Rightarrow> RoleSection \<Rightarrow> bool) \<Rightarrow> (64 word \<Rightarrow> bool) \<Rightarrow> 64 word list \<Rightarrow> role_mgr \<Rightarrow> role_mgr \<times> nat \<times> nat" where
  "FlushAllToDB fl fault giftFault [] m = (m, 0, 0)"
| "FlushAllToDB fl fault giftFault (uid # uids) m = (case mapUidToRole m uid of
      None \<Rightarrow> FlushAllToDB fl fault giftFault uids m
    | Some r \<Rightarrow> (case SaveToDBSync fl (fault uid) (giftFault uid) r (redis m uid) of
        (r1, h1, ok) \<Rightarrow>
          (case FlushAllToDB fl fault giftFault uids
                  \<lparr>mapUidToRole = (mapUidToRole m)(uid \<mapsto> r1), redis = (redis m)(uid := h1)\<rparr> of
             (m1, saved, failed) \<Rightarrow> if ok then (m1, Suc saved, failed) else (m1, saved, Suc failed))))"

text \<open>\<open>now\<close> is the clock of the process.  The result is the players to log out.\<close>

definition expired :: "int \<Rightarrow> Role \<Rightarrow> bool" where
  "expired t r \<longleftrightarrow> (case LoginInfo (PbRole r) of None \<Rightarrow> False
     | Some l \<Rightarrow> i32 (t - LastHartBeatTime l) > 120 \<and> t > i32 (HeartBeatExpiryTime r + 1))"

fun mark_expired :: "int \<Rightarrow> 64 word list \<Rightarrow> role_mgr \<Rightarrow> role_mgr \<times> 64 word list" where
  "mark_expired t [] m = (m, [])"
| "mark_expired t (uid # uids) m = (case mapUidToRole m uid of
      None \<Rightarrow> mark_expired t uids m
    | Some r \<Rightarrow>
        if expired t r
        then (case mark_expired t uids (m\<lparr>mapUidToRole := (mapUidToRole m)(uid \<mapsto> r\<lparr>HeartBeatExpiryTime := t\<rparr>)\<rparr>) of
                (m1, out) \<Rightarrow> (m1, uid # out))
        else mark_expired t uids m)"

text \<open>Without \<open>SelfLogoutSender\<close> the manager saves and drops them itself.\<close>

fun drop_expired ::
  "section_flags \<Rightarrow> (64 word \<Rightarrow> RoleSection \<Rightarrow> bool) \<Rightarrow> (64 word \<Rightarrow> bool) \<Rightarrow> 64 word list \<Rightarrow> role_mgr \<Rightarrow> role_mgr" where
  "drop_expired fl fault giftFault [] m = m"
| "drop_expired fl fault giftFault (uid # uids) m =
     (let m1 = (case mapUidToRole m uid of
           None \<Rightarrow> m
         | Some r \<Rightarrow> m\<lparr>redis := (redis m)(uid := fst (snd (SaveToDBSync fl (fault uid) (giftFault uid) r (redis m uid))))\<rparr>)
      in drop_expired fl fault giftFault uids (DeleteRole uid m1))"

definition removeExpiredRoles ::
  "section_flags \<Rightarrow> (64 word \<Rightarrow> RoleSection \<Rightarrow> bool) \<Rightarrow> (64 word \<Rightarrow> bool) \<Rightarrow> bool \<Rightarrow> int \<Rightarrow> 64 word list \<Rightarrow> role_mgr
   \<Rightarrow> role_mgr \<times> 64 word list" where
  "removeExpiredRoles fl fault giftFault hasSender t uids m = (case mark_expired t uids m of
     (m1, out) \<Rightarrow> if hasSender then (m1, out) else (drop_expired fl fault giftFault out m1, []))"

section \<open>Handlers that save and drop\<close>

definition set_login :: "(RoleLoginInfo \<Rightarrow> RoleLoginInfo) \<Rightarrow> Role \<Rightarrow> Role" where
  "set_login f r = r\<lparr>PbRole := (PbRole r)\<lparr>LoginInfo := map_option f (LoginInfo (PbRole r))\<rparr>\<rparr>"

text \<open>\<open>Logout\<close> ignores the result of the save.  The result of the handler is whether the role existed.\<close>

definition Logout ::
  "section_flags \<Rightarrow> int \<Rightarrow> (RoleSection \<Rightarrow> bool) \<Rightarrow> 64 word \<Rightarrow> role_mgr \<Rightarrow> role_mgr \<times> bool" where
  "Logout fl t fault uid m = (case mapUidToRole m uid of
      None \<Rightarrow> (m, False)
    | Some r \<Rightarrow> (case SaveToDB fl fault uid (set_login (\<lambda>l. l\<lparr>LastLogoutTime := t\<rparr>) r) (redis m uid) of
        (r1, h1, _) \<Rightarrow> (DeleteRole uid (m\<lparr>redis := (redis m)(uid := h1)\<rparr>), True)))"

text \<open>\<open>sameHour\<close> and \<open>sameDay\<close> compare with the last heartbeat; \<open>keys\<close> are the mall's keys in the
  order of the iteration.\<close>

definition OnClientHeartbeat :: "inv_env \<Rightarrow> bool \<Rightarrow> bool \<Rightarrow> int list \<Rightarrow> int \<Rightarrow> Role \<Rightarrow> Role" where
  "OnClientHeartbeat e sameHour sameDay keys t r =
     (let r1 = (if sameDay then r else MallDailyRefresh e keys r);
          m0 = (if sameHour then 0 else flag_of (flags e) ACTVITY_TASK_INFO);
          m1 = (if sameDay then m0 else m0 OR flag_of (flags e) MALL_INFO OR flag_of (flags e) ACTVITY_TASK_INFO);
          r2 = (if m1 > 0 then MarkFullSync (flags e) m1 r1 else r1)
      in set_login (\<lambda>l. l\<lparr>LastHartBeatTime := t\<rparr>) (r2\<lparr>HeartBeatCount := i32 (HeartBeatCount r2 + 1)\<rparr>))"

text \<open>The request replaces the whole information and keeps the gateway; then everything is flushed.\<close>

definition GmSetRole ::
  "section_flags \<Rightarrow> bool \<Rightarrow> bool \<Rightarrow> int \<Rightarrow> int \<Rightarrow> (RoleSection \<Rightarrow> bool) \<Rightarrow> 64 word \<Rightarrow> RoleInfo \<Rightarrow> Role \<Rightarrow> role_hash
   \<Rightarrow> Role \<times> role_hash \<times> sync_message option \<times> bool" where
  "GmSetRole fl usePatch sendOk conf t fault transUid info r h =
     FlushPending fl usePatch sendOk conf t fault (Some transUid) True
       (MarkPersistDirty t ''gm_set_role'' (MarkFullSync fl (flag_ALL fl) (r\<lparr>PbRole := info\<rparr>))) h"

section \<open>What a save writes\<close>

lemma all_sections [simp]: "s \<in> set roleSectionAccessors"
  by (cases s) (simp_all add: roleSectionAccessors_def)

lemma sections_distinct: "distinct roleSectionAccessors"
  by (simp add: roleSectionAccessors_def)

lemma save_fields_spec:
  assumes "save_fields fault wr i ss h = (h', ok)"
  shows "hashFields h' s = hashFields h s \<or> s \<in> set ss \<and> wr s \<and> hashFields h' s = Some (get_section s i)"
    and "ok \<Longrightarrow> s \<in> set ss \<Longrightarrow> wr s \<Longrightarrow> hashFields h' s = Some (get_section s i)"
    and "giftField h' = giftField h"
proof -
  have "(\<forall>s. hashFields h' s = hashFields h s \<or> s \<in> set ss \<and> wr s \<and> hashFields h' s = Some (get_section s i))
    \<and> (ok \<longrightarrow> (\<forall>s\<in>set ss. wr s \<longrightarrow> hashFields h' s = Some (get_section s i))) \<and> giftField h' = giftField h"
    using assms
  proof (induction ss arbitrary: h)
    case (Cons t ss)
    show ?case
    proof (cases "wr t")
      case False
      then have "save_fields fault wr i ss h = (h', ok)" using Cons.prems by simp
      from Cons.IH [OF this] False show ?thesis by (metis list.set_intros(2) set_ConsD)
    next
      case wr: True
      show ?thesis
      proof (cases "fault t")
        case True
        then have "h' = h" "\<not> ok" using wr Cons.prems by auto
        then show ?thesis by simp
      next
        case False
        then have "save_fields fault wr i ss (h\<lparr>hashFields := (hashFields h)(t \<mapsto> get_section t i)\<rparr>) = (h', ok)"
          using wr Cons.prems by simp
        note ih = Cons.IH [OF this, simplified]
        show ?thesis
        proof (intro conjI allI impI ballI)
          fix s
          show "hashFields h' s = hashFields h s \<or> s \<in> set (t # ss) \<and> wr s \<and> hashFields h' s = Some (get_section s i)"
            using ih wr by (cases "s = t") (metis list.set_intros(1), metis list.set_intros(2))
          show "giftField h' = giftField h" using ih by blast
          assume "ok" "s \<in> set (t # ss)" "wr s"
          then show "hashFields h' s = Some (get_section s i)" using ih by (metis set_ConsD)
        qed
      qed
    qed
  qed simp
  then show "hashFields h' s = hashFields h s \<or> s \<in> set ss \<and> wr s \<and> hashFields h' s = Some (get_section s i)"
    "ok \<Longrightarrow> s \<in> set ss \<Longrightarrow> wr s \<Longrightarrow> hashFields h' s = Some (get_section s i)" "giftField h' = giftField h" by blast+
qed

definition writes :: "section_flags \<Rightarrow> Role \<Rightarrow> bool \<Rightarrow> RoleSection \<Rightarrow> bool" where
  "writes fl r force s \<longleftrightarrow> force \<or> persistDirtyMask r = 0 \<or> persistDirtyMask r = flag_ALL fl \<or> hasRoleSection fl (persistDirtyMask r) s"

lemma saveRoleHash_spec:
  assumes "saveRoleHash fl fault giftFault r force h = (h', ok)"
  shows "hashFields h' s = hashFields h s \<or> writes fl r force s \<and> hashFields h' s = Some (get_section s (PbRole r))"
    and "ok \<Longrightarrow> writes fl r force s \<Longrightarrow> hashFields h' s = Some (get_section s (PbRole r))"
proof -
  define m where "m = (if force \<or> persistDirtyMask r = flag_ALL fl \<or> persistDirtyMask r = 0 then flag_ALL fl else persistDirtyMask r)"
  define wr where "wr = (\<lambda>s. force \<or> m = flag_ALL fl \<or> hasRoleSection fl m s)"
  have wr: "wr s = writes fl r force s" for s by (auto simp: wr_def m_def writes_def)
  obtain h1 ok1 where f: "save_fields fault wr (PbRole r) roleSectionAccessors h = (h1, ok1)" by fastforce
  have "saveRoleHash fl fault giftFault r force h = (if \<not> ok1 then (h1, False)
         else if force \<and> GiftInfo (PbRole r) \<noteq> None then
           (if giftFault then (h1, False) else (h1\<lparr>giftField := GiftInfo (PbRole r)\<rparr>, True))
         else (h1, True))"
    by (simp only: saveRoleHash_def Let_def m_def [symmetric] wr_def [symmetric] f prod.case)
  then have "hashFields h' = hashFields h1" "ok \<longrightarrow> ok1" using assms by (auto split: if_splits)
  then show "hashFields h' s = hashFields h s \<or> writes fl r force s \<and> hashFields h' s = Some (get_section s (PbRole r))"
    "ok \<Longrightarrow> writes fl r force s \<Longrightarrow> hashFields h' s = Some (get_section s (PbRole r))"
    using save_fields_spec(1,2) [OF f, of s] wr by auto
qed

text \<open>What is not marked is stored, and what is marked will be.\<close>

definition persist_inv :: "section_flags \<Rightarrow> Role \<Rightarrow> role_hash \<Rightarrow> bool" where
  "persist_inv fl r h \<longleftrightarrow> (persistDirtyMask r \<noteq> 0 \<longrightarrow> needPersist r)
     \<and> (\<forall>s. hasRoleSection fl (persistDirtyMask r) s \<or> hashFields h s = Some (get_section s (PbRole r)))"

definition stored :: "Role \<Rightarrow> role_hash \<Rightarrow> bool" where
  "stored r h \<longleftrightarrow> (\<forall>s. hashFields h s = Some (get_section s (PbRole r)))"

lemma persist_stored: "persist_inv fl r h \<Longrightarrow> \<not> needPersist r \<Longrightarrow> stored r h"
  by (auto simp: persist_inv_def stored_def)

lemma stored_inv: "stored r h \<Longrightarrow> persistDirtyMask r \<noteq> 0 \<longrightarrow> needPersist r \<Longrightarrow> persist_inv fl r h"
  by (auto simp: persist_inv_def stored_def)

lemma clear_persist_fields [simp]: "PbRole (clearPersistDirtyMask r) = PbRole r" "persistDirtyMask (clearPersistDirtyMask r) = 0"
  "needPersist (clearPersistDirtyMask r) = needPersist r"
  by (simp_all add: clearPersistDirtyMask_def)

lemma SaveToDB_inv:
  assumes "persist_inv fl r h" "SaveToDB fl fault uid r h = (r', h', ok)"
  shows "persist_inv fl r' h' \<and> PbRole r' = PbRole r \<and> needPersist r' = needPersist r \<and> (ok \<longrightarrow> stored r' h' \<and> persistDirtyMask r' = 0)"
proof (cases "Uid r = Some uid")
  case True
  obtain h1 ok1 where s: "saveRoleHash fl fault False r False h = (h1, ok1)" by fastforce
  have r: "h' = h1" "ok = ok1" "r' = (if ok1 then clearPersistDirtyMask r else r)"
    using assms(2) True s by (auto simp: SaveToDB_def split: bool.splits)
  have keep: "hashFields h1 s = hashFields h s \<or> hashFields h1 s = Some (get_section s (PbRole r))" for s
    using saveRoleHash_spec(1) [OF s] by blast
  show ?thesis
  proof (cases ok1)
    case True
    note ok1 = True
    have "hashFields h1 s = Some (get_section s (PbRole r))" for s
    proof (cases "hasRoleSection fl (persistDirtyMask r) s")
      case True
      then show ?thesis using saveRoleHash_spec(2) [OF s ok1, of s] by (simp add: writes_def)
    next
      case False
      then have "hashFields h s = Some (get_section s (PbRole r))" using assms(1) by (auto simp: persist_inv_def)
      then show ?thesis using keep [of s] by simp
    qed
    then show ?thesis using r True by (simp add: stored_def persist_inv_def)
  next
    case False
    have "hasRoleSection fl (persistDirtyMask r) s \<or> hashFields h1 s = Some (get_section s (PbRole r))" for s
      using keep [of s] assms(1) by (auto simp: persist_inv_def)
    then show ?thesis using r False assms(1) by (simp add: persist_inv_def)
  qed
qed (use assms in \<open>auto simp: SaveToDB_def\<close>)

lemma SaveToDBSync_inv:
  assumes "persist_inv fl r h" "SaveToDBSync fl fault giftFault r h = (r', h', ok)"
  shows "persist_inv fl r' h' \<and> PbRole r' = PbRole r \<and> (ok \<longrightarrow> stored r' h' \<and> persistDirtyMask r' = 0)"
proof -
  obtain h1 ok1 where s: "saveRoleHash fl fault giftFault r True h = (h1, ok1)" by fastforce
  have r: "h' = h1" "ok = ok1" "PbRole r' = PbRole r" "ok1 \<Longrightarrow> persistDirtyMask r' = 0" "\<not> ok1 \<Longrightarrow> r' = r"
    using assms(2) s by (auto simp: SaveToDBSync_def split: bool.splits)
  have keep: "hashFields h1 s = hashFields h s \<or> hashFields h1 s = Some (get_section s (PbRole r))" for s
    using saveRoleHash_spec(1) [OF s] by blast
  show ?thesis
  proof (cases ok1)
    case True
    then show ?thesis using r saveRoleHash_spec(2) [OF s] by (auto simp: writes_def stored_def persist_inv_def)
  next
    case False
    have "hasRoleSection fl (persistDirtyMask r) s \<or> hashFields h1 s = Some (get_section s (PbRole r))" for s
      using keep [of s] assms(1) by (auto simp: persist_inv_def)
    then show ?thesis using r False assms(1) by (simp add: persist_inv_def)
  qed
qed

lemma MaybeFlushPersist_inv:
  assumes "persist_inv fl r h" "MaybeFlushPersist fl conf t fault trns force r h = (r', h', ok)"
  shows "persist_inv fl r' h' \<and> PbRole r' = PbRole r \<and> (ok \<and> force \<and> trns \<noteq> None \<longrightarrow> \<not> needPersist r')"
proof -
  show ?thesis
  proof (cases "trns = None \<or> \<not> shouldFlushPersistNow conf t force r")
    case True
    then have e: "r' = r" "h' = h" using assms(2) by (auto simp: MaybeFlushPersist_def split: option.splits)
    moreover have "ok \<and> force \<and> trns \<noteq> None \<longrightarrow> \<not> needPersist r'"
      using True e by (auto simp: shouldFlushPersistNow_def)
    ultimately show ?thesis using assms(1) by blast
  next
    case False
    then obtain uid where uid: "trns = Some uid" by auto
    obtain r1 h1 ok1 where s: "SaveToDB fl fault uid r h = (r1, h1, ok1)" using prod_cases3 by blast
    note i = SaveToDB_inv [OF assms(1) s]
    have r: "h' = h1" "ok = ok1" "r' = (if ok1 then r1\<lparr>needPersist := False, persistDirtySince := 0, lastPersistAt := t, persistReasons := {}\<rparr> else r1)"
      using assms(2) False uid s by (auto simp: MaybeFlushPersist_def split: bool.splits)
    show ?thesis using i r by (cases ok1) (auto simp: persist_inv_def stored_def)
  qed
qed

section \<open>Changes\<close>

definition marks :: "section_flags \<Rightarrow> RoleSection \<Rightarrow> Role \<Rightarrow> Role \<Rightarrow> bool" where
  "marks fl s r r' \<longleftrightarrow> only_section s (PbRole r) (PbRole r') \<and> needPersist r'
     \<and> persistDirtyMask r' = persistDirtyMask r OR flag_of fl s"

lemma marks_inv:
  assumes "flags_ok fl" "marks fl s r r'" "persist_inv fl r h"
  shows "persist_inv fl r' h"
proof -
  have "hasRoleSection fl (persistDirtyMask r') x \<or> hashFields h x = Some (get_section x (PbRole r'))" for x
    using assms by (cases "x = s") (auto simp: marks_def persist_inv_def only_section_def mask_simps)
  then show ?thesis using assms(2) by (simp add: persist_inv_def marks_def)
qed

lemma persist_mark_marks:
  assumes "flags_ok fl" "persistDirtyMask r1 = persistDirtyMask r" "only_section s (PbRole r) (PbRole r1)"
  shows "marks fl s r (markPersistSectionDirty t (flag_of fl s) w r1)"
  using assms flag_nonzero [OF assms(1), of s]
  by (auto simp: marks_def markPersistSectionDirty_def MarkPersistDirty_def Let_def)

lemma patch_fields [simp]:
  "PbRole (markPatchSection fl s r) = PbRole r" "persistDirtyMask (markPatchSection fl s r) = persistDirtyMask r"
  "needPersist (markPatchSection fl s r) = needPersist r"
  by (simp_all add: markPatchSection_def)

lemma full_fields [simp]:
  "persistDirtyMask (MarkFullSync fl m r) = persistDirtyMask r" "needPersist (MarkFullSync fl m r) = needPersist r"
  by (simp_all add: MarkFullSync_def)

lemma only_one:
  "only_section INVENTORY_INFO i (i\<lparr>InventoryInfo := x\<rparr>)" "only_section MALL_INFO i (i\<lparr>MallInfo := y\<rparr>)"
  "only_section ICON_INFO i (i\<lparr>IconInfo := z\<rparr>)" "only_section ACTVITY_TASK_INFO i (i\<lparr>Actvity_Info := u\<rparr>)"
  "only_section LOGIN_INFO i (i\<lparr>LoginInfo := v\<rparr>)"
  by (simp_all add: only_section_def) (intro allI impI, case_tac t; simp)+

text \<open>The section that a change is about.\<close>

fun op_section :: "sync_op \<Rightarrow> RoleSection" where
  "op_section (OTouch s m w) = s"
| "op_section (OItem k v) = INVENTORY_INFO"
| "op_section (OMall k v) = MALL_INFO"
| "op_section (OTask k v) = ACTVITY_TASK_INFO"
| "op_section _ = ICON_INFO"

lemma change_marks:
  assumes "flags_ok fl" "change_op a" "exec_sync fl (r, c) (t, a) = (r', c')"
  shows "marks fl (op_section a) r r'"
proof -
  note m = persist_mark_marks [OF assms(1)]
  show ?thesis
    by (cases a; use assms(2,3) in \<open>clarsimp simp: TouchSection_def MarkInventoryDirty_def MarkMallDirty_def
        MarkIconDirty_def MarkFrameDirty_def MarkIconEquipDirty_def MarkActvityTaskDirty_def\<close>)
      (rule m; simp add: unmarshal_only only_one)+
qed

lemma clearSynced_fields [simp]:
  "persistDirtyMask (clearSyncedState fl a b r) = persistDirtyMask r" "needPersist (clearSyncedState fl a b r) = needPersist r"
  "PbRole (clearSyncedState fl a b r) = PbRole r"
  by (simp_all add: clearSyncedState_def Let_def clearActTaskDirty_def clearIconDirty_def clearMallDirty_def clearInventoryDirty_def)

lemma FlushClientSync_fields:
  assumes "FlushClientSync fl usePatch sendOk r = (r', msg, ok)"
  shows "PbRole r' = PbRole r" "persistDirtyMask r' = persistDirtyMask r" "needPersist r' = needPersist r"
  using assms by (auto simp: FlushClientSync_def Let_def split: if_splits option.splits)

lemma persist_cong:
  "persist_inv fl r h \<Longrightarrow> PbRole r' = PbRole r \<Longrightarrow> persistDirtyMask r' = persistDirtyMask r \<Longrightarrow> needPersist r' = needPersist r
   \<Longrightarrow> persist_inv fl r' h"
  by (simp add: persist_inv_def)

lemma exec_sync_persist:
  assumes "flags_ok fl" "persist_inv fl r h" "exec_sync fl (r, c) (t, a) = (r', c')"
  shows "persist_inv fl r' h"
proof (cases "change_op a")
  case True
  then show ?thesis using marks_inv [OF assms(1) change_marks [OF assms(1) True assms(3)] assms(2)] by simp
next
  case False
  then consider m where "a = OFull m" | b where "a = OConn b" | x y where "a = OFlush x y" by (cases a) auto
  then show ?thesis
  proof cases
    case (3 x y)
    obtain r1 msg ok where f: "FlushClientSync fl x y r = (r1, msg, ok)" using prod_cases3 by blast
    then show ?thesis using persist_cong [OF assms(2) FlushClientSync_fields [OF f]] assms(3) 3 by simp
  qed (use assms(2,3) persist_cong [OF assms(2)] in auto)
qed

section \<open>What a load reads\<close>

lemma get_unmarshal:
  assumes "get_section s i = Some m"
  shows "get_section s (unmarshalSection s m j) = Some m"
  using assms by (cases s) auto

lemma load_other: "s \<notin> set ss \<Longrightarrow> get_section s (load_fields blank f ss i) = get_section s i"
  by (induction ss arbitrary: i)
    (use unmarshal_only in \<open>auto simp: only_section_def split: option.splits\<close>)

lemma load_section:
  assumes "distinct ss" "s \<in> set ss" and typed: "\<And>s m. f s = Some (Some m) \<Longrightarrow> \<exists>i. get_section s i = Some m"
  shows "get_section s (load_fields blank f ss i) =
    (case f s of Some (Some m) \<Rightarrow> if blank m then get_section s i else Some m | _ \<Rightarrow> get_section s i)"
  using assms(1,2)
proof (induction ss arbitrary: i)
  case (Cons t ss)
  show ?case
  proof (cases "t = s")
    case True
    then show ?thesis using Cons.prems(1) load_other [of s ss blank f] typed get_unmarshal
      by (fastforce split: option.splits)
  next
    case False
    then have s: "distinct ss" "s \<in> set ss" using Cons.prems by auto
    have other: "get_section s (unmarshalSection t m i) = get_section s i" for m
      using unmarshal_only False by (metis only_section_def)
    show ?thesis using Cons.IH [OF s] other by (auto split: option.splits)
  qed
qed simp

definition shown :: "(section_msg \<Rightarrow> bool) \<Rightarrow> section_msg option \<Rightarrow> section_msg option" where
  "shown blank m = (case m of None \<Rightarrow> None | Some x \<Rightarrow> if blank x then None else Some x)"

lemma empty_sections [simp]: "get_section s empty_info = None"
  by (cases s) (simp_all add: empty_info_def)

lemma get_gift [simp]: "get_section s (i\<lparr>GiftInfo := g\<rparr>) = get_section s i"
  by (cases s) simp_all

lemma load_stored:
  assumes "stored r h"
  shows "\<exists>i. loadRoleHash blank False h = LoadInfo i \<and> (\<forall>s. get_section s i = shown blank (get_section s (PbRole r)))"
proof -
  have f: "hashFields h s = Some (get_section s (PbRole r))" for s using assms by (simp add: stored_def)
  let ?i = "load_fields blank (hashFields h) roleSectionAccessors empty_info"
  have typed: "\<exists>i. get_section s i = Some m" if "hashFields h s = Some (Some m)" for s m using that f by auto
  have s: "get_section s ?i = shown blank (get_section s (PbRole r))" for s
    using load_section [OF sections_distinct all_sections [of s], of "hashFields h" blank empty_info] typed
    by (auto simp: f shown_def split: option.splits)
  have "\<not> (\<forall>s\<in>set roleSectionAccessors. hashFields h s = None)" using f by simp
  then show ?thesis using s by (auto simp: loadRoleHash_def Let_def split: option.splits)
qed

section \<open>Executions\<close>

datatype persist_op =
    PSync int sync_op
  | PFlush int int "RoleSection \<Rightarrow> bool" "64 word option" bool
  | PSaveAll "RoleSection \<Rightarrow> bool" bool

fun exec_persist :: "section_flags \<Rightarrow> (Role \<times> RoleInfo) \<times> role_hash \<Rightarrow> persist_op \<Rightarrow> (Role \<times> RoleInfo) \<times> role_hash" where
  "exec_persist fl (rc, h) (PSync t a) = (exec_sync fl rc (t, a), h)"
| "exec_persist fl ((r, c), h) (PFlush conf t fault trns force) =
     (case MaybeFlushPersist fl conf t fault trns force r h of (r', h', _) \<Rightarrow> ((r', c), h'))"
| "exec_persist fl ((r, c), h) (PSaveAll fault giftFault) =
     (case SaveToDBSync fl fault giftFault r h of (r', h', _) \<Rightarrow> ((r', c), h'))"

lemma exec_persist_inv:
  assumes "flags_ok fl" "persist_inv fl r h" "exec_persist fl ((r, c), h) a = ((r', c'), h')"
  shows "persist_inv fl r' h'"
proof (cases a)
  case (PSync t b)
  then have "exec_sync fl (r, c) (t, b) = (r', c')" "h' = h" using assms(3) by simp_all
  then show ?thesis using exec_sync_persist [OF assms(1,2)] by blast
next
  case (PFlush conf t fault trns force)
  obtain r1 h1 ok where m: "MaybeFlushPersist fl conf t fault trns force r h = (r1, h1, ok)" using prod_cases3 by blast
  show ?thesis using MaybeFlushPersist_inv [OF assms(2) m] assms(3) PFlush m by simp
next
  case (PSaveAll fault giftFault)
  obtain r1 h1 ok where m: "SaveToDBSync fl fault giftFault r h = (r1, h1, ok)" using prod_cases3 by blast
  show ?thesis using SaveToDBSync_inv [OF assms(2) m] assms(3) PSaveAll m by simp
qed

interpretation persist: op_invariant "exec_persist fl" "\<lambda>s. flags_ok fl \<longrightarrow> persist_inv fl (fst (fst s)) (snd s)" for fl
proof (unfold_locales, goal_cases)
  case (1 s a)
  obtain r c h r' c' h' where "s = ((r, c), h)" "exec_persist fl s a = ((r', c'), h')" by (metis surj_pair)
  then show ?case using 1 exec_persist_inv by fastforce
qed

lemma first_save_inv:
  assumes "persistDirtyMask r = 0" "SaveToDB fl fault uid r h = (r', h', True)"
  shows "persist_inv fl r' h'"
proof -
  have "\<exists>h1. saveRoleHash fl fault False r False h = (h1, True) \<and> h' = h1 \<and> r' = clearPersistDirtyMask r"
    using assms(2) by (auto simp: SaveToDB_def split: if_splits prod.splits bool.splits)
  then obtain h1 where s: "saveRoleHash fl fault False r False h = (h1, True)" "h' = h1" "r' = clearPersistDirtyMask r" by blast
  show ?thesis using saveRoleHash_spec(2) [OF s(1)] assms(1) s(2,3) by (simp add: persist_inv_def writes_def)
qed

text \<open>C18: What a restart brings back.  Once the first save of a new role went through, and after any
  mixture of marked changes of its sections, synchronisations with the client and attempts to save,
  each with any of its writes failing and debounced or forced, a role that does not need to be saved
  reads back from Redis as it is in memory, section by section; only messages with an empty encoding
  come back absent.\<close>

theorem role_survives_restart:
  assumes "flags_ok fl" and "persistDirtyMask r0 = 0" and "SaveToDB fl fault uid r0 h0 = (r1, h1, True)"
    and "foldl (exec_persist fl) ((r1, c1), h1) as = ((r2, c2), h2)" and "\<not> needPersist r2"
  shows "\<exists>i. loadRoleHash blank False h2 = LoadInfo i \<and> (\<forall>s. get_section s i = shown blank (get_section s (PbRole r2)))"
proof -
  have "persist_inv fl r2 h2"
    using persist.run_inv [of fl "((r1, c1), h1)" as] first_save_inv [OF assms(2,3)] assms(1,4) by simp
  then show ?thesis using load_stored persist_stored assms(5) by blast
qed

definition fresh :: "64 word \<Rightarrow> Role" where
  "fresh uid = new_role (RoleInitField \<lparr>inv = sample_env, allOpen = ''t'', decimal = (\<lambda>_. ''7'')\<rparr> uid empty_info)"

theorem role_survives_restart_witness:
  "\<exists>r h i. foldl (exec_persist sample_flags) ((fst (SaveToDB sample_flags (\<lambda>_. False) 9 (fresh 9) empty_hash), empty_info), fst (snd (SaveToDB sample_flags (\<lambda>_. False) 9 (fresh 9) empty_hash)))
      [PSync 5 (OItem 20 (Some 3)), PFlush 10 6 (\<lambda>_. True) (Some 9) True, PFlush 10 20 (\<lambda>_. False) (Some 9) False] = (r, h)
    \<and> loadRoleHash (\<lambda>_. False) False h = LoadInfo i \<and> get_section INVENTORY_INFO i = get_section INVENTORY_INFO (PbRole (fst r))"
proof -
  let ?as = "[PSync 5 (OItem 20 (Some 3)), PFlush 10 6 (\<lambda>_. True) (Some 9) True, PFlush 10 20 (\<lambda>_. False) (Some 9) False]"
  obtain r1 h1 ok where s: "SaveToDB sample_flags (\<lambda>_. False) 9 (fresh 9) empty_hash = (r1, h1, ok)" using prod_cases3 by blast
  have "snd (snd (SaveToDB sample_flags (\<lambda>_. False) 9 (fresh 9) empty_hash))" by code_simp
  then have ok: ok by (simp add: s)
  obtain r2 c2 h2 where run: "foldl (exec_persist sample_flags) ((r1, empty_info), h1) ?as = ((r2, c2), h2)" by (metis surj_pair)
  have "\<not> needPersist (fst (fst (foldl (exec_persist sample_flags)
    ((fst (SaveToDB sample_flags (\<lambda>_. False) 9 (fresh 9) empty_hash), empty_info), fst (snd (SaveToDB sample_flags (\<lambda>_. False) 9 (fresh 9) empty_hash))) ?as)))"
    by code_simp
  then have n: "\<not> needPersist r2" by (simp only: s fst_conv snd_conv run not_False_eq_True)
  have z: "persistDirtyMask (fresh 9) = 0" by (simp add: fresh_def new_role_def)
  from role_survives_restart [OF sample_flags_ok z s [unfolded ok [THEN eqTrueI]] run n, of "\<lambda>_. False"]
  obtain i where "loadRoleHash (\<lambda>_. False) False h2 = LoadInfo i"
      "get_section INVENTORY_INFO i = shown (\<lambda>_. False) (get_section INVENTORY_INFO (PbRole r2))" by blast
  then show ?thesis using run by (intro exI [of _ "(r2, c2)"] exI [of _ h2] exI [of _ i])
    (simp add: s shown_def split: option.splits)
qed


section \<open>What is lost\<close>

lemma restricted_save:
  assumes "\<not> writes fl r False s" "SaveToDB fl fault uid r h = (r', h', ok)"
  shows "hashFields h' s = hashFields h s"
proof -
  obtain h1 ok1 where x: "saveRoleHash fl fault False r False h = (h1, ok1)" by fastforce
  then have "h' = h \<or> h' = h1" using assms(2) by (auto simp: SaveToDB_def split: if_splits bool.splits)
  then show ?thesis using saveRoleHash_spec(1) [OF x, of s] assms(1) by auto
qed

text \<open>A role whose first save failed: the register field was never written.\<close>

definition unregistered :: "section_flags \<Rightarrow> Role \<Rightarrow> role_hash \<Rightarrow> bool" where
  "unregistered fl r h \<longleftrightarrow> hashFields h REGISTER_INFO = None
     \<and> \<not> hasRoleSection fl (persistDirtyMask r) REGISTER_INFO \<and> (needPersist r \<longrightarrow> persistDirtyMask r \<noteq> 0)"

fun no_register :: "persist_op \<Rightarrow> bool" where
  "no_register (PSync t (OTouch s m w)) = (s \<noteq> REGISTER_INFO)"
| "no_register (PSaveAll fault giftFault) = False"
| "no_register _ = True"

lemma change_unregistered:
  assumes fl: "flags_ok fl" and a: "op_section a \<noteq> REGISTER_INFO" "change_op a"
    and u: "unregistered fl r h" and run: "exec_sync fl (r, c) (t, a) = (r', c')"
  shows "unregistered fl r' h"
proof -
  have m: "marks fl (op_section a) r r'" by (rule change_marks [OF fl a(2) run])
  then have "hasRoleSection fl (persistDirtyMask r') (op_section a)" using fl by (simp add: marks_def mask_simps)
  then have "persistDirtyMask r' \<noteq> 0" by auto
  then show ?thesis using m u a(1) fl by (auto simp: unregistered_def marks_def mask_simps)
qed

lemma sync_unregistered:
  assumes "flags_ok fl" "no_register (PSync t a)" "unregistered fl r h" "exec_sync fl (r, c) (t, a) = (r', c')"
  shows "unregistered fl r' h"
proof (cases "change_op a")
  case True
  moreover have "op_section a \<noteq> REGISTER_INFO" using assms(2) by (cases a) auto
  ultimately show ?thesis using change_unregistered assms by blast
next
  case False
  then consider m where "a = OFull m" | b where "a = OConn b" | x y where "a = OFlush x y" by (cases a) auto
  then show ?thesis
  proof cases
    case (3 x y)
    obtain r1 msg ok where f: "FlushClientSync fl x y r = (r1, msg, ok)" using prod_cases3 by blast
    then have "r' = r1" using assms(4) 3 by simp
    then show ?thesis using FlushClientSync_fields [OF f] assms(3) by (simp add: unregistered_def)
  qed (use assms(3,4) in \<open>auto simp: unregistered_def\<close>)
qed

lemma flush_unregistered:
  assumes fl: "flags_ok fl" and u: "unregistered fl r h"
    and m: "MaybeFlushPersist fl conf t fault trns force r h = (r', h', ok)"
  shows "unregistered fl r' h'"
proof (cases "trns = None \<or> \<not> shouldFlushPersistNow conf t force r")
  case True
  then have "r' = r" "h' = h" using m by (auto simp: MaybeFlushPersist_def split: option.splits)
  then show ?thesis using u by simp
next
  case False
  then obtain uid where uid: "trns = Some uid" by auto
  have "needPersist r" using False by (auto simp: shouldFlushPersistNow_def split: if_splits)
  then have mask: "persistDirtyMask r \<noteq> 0" using u by (simp add: unregistered_def)
  have "persistDirtyMask r \<noteq> flag_ALL fl" using u has_ALL [OF fl] by (auto simp: unregistered_def)
  then have w: "\<not> writes fl r False REGISTER_INFO" using mask u by (simp add: writes_def unregistered_def)
  obtain r1 h1 ok1 where s: "SaveToDB fl fault uid r h = (r1, h1, ok1)" using prod_cases3 by blast
  have "h' = h1" "r' = (if ok1 then r1\<lparr>needPersist := False, persistDirtySince := 0, lastPersistAt := t, persistReasons := {}\<rparr> else r1)"
    using m False uid s by (auto simp: MaybeFlushPersist_def split: bool.splits)
  moreover have "r1 = (if ok1 then clearPersistDirtyMask r else r)"
    using s by (auto simp: SaveToDB_def split: if_splits prod.splits bool.splits)
  ultimately show ?thesis using restricted_save [OF w s] u by (auto simp: unregistered_def)
qed

interpretation lost: op_invariant_on "exec_persist fl" "\<lambda>s. flags_ok fl \<longrightarrow> unregistered fl (fst (fst s)) (snd s)" no_register for fl
proof (unfold_locales, goal_cases)
  case (1 s a)
  obtain r c h where s: "s = ((r, c), h)" by (metis surj_pair)
  show ?case
  proof (cases a)
    case (PSync t b)
    obtain r' c' where "exec_sync fl (r, c) (t, b) = (r', c')" by (metis surj_pair)
    then show ?thesis using 1 sync_unregistered s PSync by auto
  next
    case (PFlush conf t fault trns force)
    obtain r' h' ok where m: "MaybeFlushPersist fl conf t fault trns force r h = (r', h', ok)" using prod_cases3 by blast
    then show ?thesis using 1 flush_unregistered [OF _ _ m] s PFlush by auto
  qed (use 1 in simp)
qed

lemma load_absent: "f s = None \<Longrightarrow> get_section s (load_fields blank f ss i) = get_section s i"
proof (induction ss arbitrary: i)
  case (Cons t ss)
  have "get_section s (unmarshalSection t m i) = get_section s i" if "t \<noteq> s" for m
    using unmarshal_only that by (metis only_section_def)
  then show ?case using Cons by (cases "t = s") (auto split: option.splits)
qed simp

lemma load_unregistered:
  assumes "hashFields h REGISTER_INFO = None"
  shows "loadRole env blank False uid uid h = Panic \<or> loadRole env blank False uid uid h = Done NoRole"
proof (cases "loadRoleHash blank False h")
  case (LoadInfo i)
  let ?j = "load_fields blank (hashFields h) roleSectionAccessors empty_info"
  have "i = ?j \<or> (\<exists>g. i = ?j\<lparr>GiftInfo := g\<rparr>)"
    using LoadInfo by (auto simp: loadRoleHash_def Let_def split: if_splits option.splits)
  then have "get_section REGISTER_INFO i = get_section REGISTER_INFO ?j" by auto
  then have "RegisterInfo i = None" using load_absent [of "hashFields h" REGISTER_INFO blank roleSectionAccessors empty_info] assms
    by (simp del: empty_sections) (simp add: empty_info_def)
  then show ?thesis using LoadInfo by (simp add: loadRole_def)
qed (auto simp: loadRole_def loadRoleHash_def Let_def split: if_splits)


definition the_env :: role_env where
  "the_env = \<lparr>inv = sample_env, allOpen = ''t'', decimal = (\<lambda>_. ''7'')\<rparr>"


text \<open>What a replaced role stores.  With a server that writes every field, \<open>GmSetRole\<close> leaves the
  new information in memory with nothing marked for saving, whatever was pending before.  The hash has
  all of it only if nothing, or everything, was marked; otherwise the sections that were not marked keep
  their old content.\<close>

theorem GmSetRole_stores:
  assumes "map_option riUid (RegisterInfo info) = Some uid"
    and "GmSetRole fl usePatch sendOk conf t (\<lambda>_. False) uid info r h = (r', h', msg, ok)"
  shows "PbRole r' = info \<and> \<not> needPersist r' \<and> persistDirtyMask r' = 0
    \<and> hashFields h' s = (if persistDirtyMask r = 0 \<or> persistDirtyMask r = flag_ALL fl \<or> hasRoleSection fl (persistDirtyMask r) s
                         then Some (get_section s info) else hashFields h s)"
proof -
  let ?r = "MarkPersistDirty t ''gm_set_role'' (MarkFullSync fl (flag_ALL fl) (r\<lparr>PbRole := info\<rparr>))"
  obtain r1 m1 ok1 where f: "FlushClientSync fl usePatch sendOk ?r = (r1, m1, ok1)" using prod_cases3 by blast
  have r1: "PbRole r1 = info" "persistDirtyMask r1 = persistDirtyMask r" "needPersist r1"
    using FlushClientSync_fields [OF f] by (simp_all add: MarkPersistDirty_def Let_def)
  obtain h2 ok2 where s: "saveRoleHash fl (\<lambda>_. False) False r1 False h = (h2, ok2)" by fastforce
  have ok2: ok2
  proof -
    have "snd (save_fields (\<lambda>_. False) wr i ss h)" for wr i ss h by (induction ss arbitrary: h) auto
    then have "save_fields (\<lambda>_. False) wr i ss h \<noteq> (h', False)" for wr i ss h h' by (metis snd_conv)
    then show ?thesis using s by (cases ok2) (auto simp: saveRoleHash_def Let_def split: prod.splits if_splits)
  qed
  have save: "SaveToDB fl (\<lambda>_. False) uid r1 h = (clearPersistDirtyMask r1, h2, True)"
    using assms(1) r1(1) s ok2 by (simp add: SaveToDB_def Uid_def)
  have "r' = (clearPersistDirtyMask r1)\<lparr>needPersist := False, persistDirtySince := 0, lastPersistAt := t, persistReasons := {}\<rparr>" "h' = h2"
    using assms(2) f save r1(3) by (simp_all add: GmSetRole_def FlushPending_def MaybeFlushPersist_def shouldFlushPersistNow_def)
  then show ?thesis
    using saveRoleHash_spec(1) [OF s, of s] saveRoleHash_spec(2) [OF s ok2, of s] r1 by (auto simp: writes_def)
qed

theorem GmSetRole_stores_witness:
  "\<exists>r' h' msg ok. GmSetRole sample_flags True True 10 8 (\<lambda>_. False) 9
      ((PbRole (fresh 9))\<lparr>GameInfo := Some ''g''\<rparr>) (MarkInventoryDirty sample_flags 5 20 False (fresh 9)) empty_hash = (r', h', msg, ok)
    \<and> \<not> needPersist r' \<and> get_section GAME_INFO (PbRole r') = Some (BytesMsg ''g'') \<and> hashFields h' GAME_INFO = None"
proof -
  let ?i = "(PbRole (fresh 9))\<lparr>GameInfo := Some ''g''\<rparr>" and ?r = "MarkInventoryDirty sample_flags 5 20 False (fresh 9)"
  obtain r' h' msg ok where run: "GmSetRole sample_flags True True 10 8 (\<lambda>_. False) 9 ?i ?r empty_hash = (r', h', msg, ok)"
    using prod_cases4 by blast
  have uid: "map_option riUid (RegisterInfo ?i) = Some 9" by (simp add: fresh_def new_role_def RoleInitField_def empty_info_def or_init_def)
  have "persistDirtyMask ?r \<noteq> 0 \<and> persistDirtyMask ?r \<noteq> flag_ALL sample_flags \<and> \<not> hasRoleSection sample_flags (persistDirtyMask ?r) GAME_INFO"
    by code_simp
  then show ?thesis using GmSetRole_stores [OF uid run, of GAME_INFO] run by (auto simp: empty_hash_def)
qed

section \<open>Shutting down and logging out\<close>

lemma SaveToDBSync_ok:
  assumes "SaveToDBSync fl fault giftFault r h = (r', h', True)"
  shows "stored r h' \<and> PbRole r' = PbRole r"
proof -
  obtain h1 ok1 where s: "saveRoleHash fl fault giftFault r True h = (h1, ok1)" by fastforce
  have r: "h' = h1" "ok1" "PbRole r' = PbRole r" using assms s by (auto simp: SaveToDBSync_def split: bool.splits)
  then show ?thesis using saveRoleHash_spec(2) [OF s] by (simp add: writes_def stored_def)
qed

lemma SaveToDBSync_PbRole: "PbRole (fst (SaveToDBSync fl fault giftFault r h)) = PbRole r"
  by (auto simp: SaveToDBSync_def split: prod.splits bool.splits)

text \<open>Shutting down saves everybody.  \<open>FlushAllToDB\<close> counts each role in memory once, as saved or
  failed; if none failed, then whatever was marked or pending before, each of them reads back from its
  hash as it is in memory; and no other player's hash is touched.\<close>

theorem FlushAllToDB_saves:
  assumes "distinct uids" and "FlushAllToDB fl fault giftFault uids m = (m', saved, failed)"
  shows "saved + failed = length (filter (\<lambda>u. mapUidToRole m u \<noteq> None) uids)
    \<and> (failed = 0 \<longrightarrow> (\<forall>u\<in>set uids. \<forall>r. mapUidToRole m u = Some r \<longrightarrow>
         (\<exists>i. loadRoleHash blank False (redis m' u) = LoadInfo i \<and> (\<forall>x. get_section x i = shown blank (get_section x (PbRole r))))))
    \<and> (\<forall>u. u \<notin> set uids \<longrightarrow> redis m' u = redis m u)"
proof -
  have "saved + failed = length (filter (\<lambda>u. mapUidToRole m u \<noteq> None) uids)
    \<and> (failed = 0 \<longrightarrow> (\<forall>u\<in>set uids. \<forall>r. mapUidToRole m u = Some r \<longrightarrow> stored r (redis m' u)))
    \<and> (\<forall>u. u \<notin> set uids \<longrightarrow> redis m' u = redis m u)"
    using assms
  proof (induction uids arbitrary: m m' saved failed)
    case (Cons u uids)
    show ?case
    proof (cases "mapUidToRole m u")
      case None
      then have "FlushAllToDB fl fault giftFault uids m = (m', saved, failed)" using Cons.prems(2) by simp
      from Cons.IH [OF _ this] show ?thesis using None Cons.prems(1) by auto
    next
      case (Some r)
      obtain r1 h1 ok where s: "SaveToDBSync fl (fault u) (giftFault u) r (redis m u) = (r1, h1, ok)" using prod_cases3 by blast
      let ?m = "\<lparr>mapUidToRole = (mapUidToRole m)(u \<mapsto> r1), redis = (redis m)(u := h1)\<rparr>"
      obtain m1 sv fd where f: "FlushAllToDB fl fault giftFault uids ?m = (m1, sv, fd)" using prod_cases3 by blast
      have res: "m' = m1" "saved = (if ok then Suc sv else sv)" "failed = (if ok then fd else Suc fd)"
        using Cons.prems(2) Some s f by (auto split: if_splits)
      have u: "u \<notin> set uids" "distinct uids" using Cons.prems(1) by auto
      note ih = Cons.IH [OF u(2) f]
      have "filter (\<lambda>v. mapUidToRole ?m v \<noteq> None) uids = filter (\<lambda>v. mapUidToRole m v \<noteq> None) uids"
        using u(1) by (intro filter_cong) auto
      then have len: "sv + fd = length (filter (\<lambda>v. mapUidToRole m v \<noteq> None) uids)" using ih by simp
      have st: "ok \<Longrightarrow> stored r (redis m1 u)" using SaveToDBSync_ok [of fl "fault u" "giftFault u" r "redis m u" r1 h1] s ih u(1) by simp
      have rest: "stored r' (redis m1 v)" if "fd = 0" "v \<in> set uids" "mapUidToRole m v = Some r'" for v r'
        using ih that u(1) by (metis (no_types, lifting) fun_upd_other role_mgr.select_convs(1))
      have other: "redis m1 v = redis m v" if "v \<notin> set (u # uids)" for v using ih that by auto
      show ?thesis using len Some st rest other by (auto simp: res split: if_splits)
    qed
  qed simp
  then show ?thesis using load_stored by blast
qed

text \<open>Logging out drops the role, saved or not.  The role leaves the memory in any case.  A section
  is stored only if it was marked, or if nothing or everything was; in particular the time of the logout
  itself is lost when anything else was pending.  And if the first write fails, nothing that was pending is
  stored at all.\<close>

theorem Logout_drops:
  assumes "mapUidToRole m uid = Some r" and "Logout fl t fault uid m = (m', found)"
  shows "found \<and> mapUidToRole m' uid = None
    \<and> (\<not> writes fl r False s \<longrightarrow> hashFields (redis m' uid) s = hashFields (redis m uid) s)
    \<and> ((\<forall>x. fault x) \<longrightarrow> hashFields (redis m' uid) s = hashFields (redis m uid) s)"
proof -
  let ?r = "set_login (\<lambda>l. l\<lparr>LastLogoutTime := t\<rparr>) r"
  obtain r1 h1 ok where s: "SaveToDB fl fault uid ?r (redis m uid) = (r1, h1, ok)" using prod_cases3 by blast
  have m': "found" "mapUidToRole m' uid = None" "redis m' uid = h1"
    using assms s by (auto simp: Logout_def DeleteRole_def)
  have w: "writes fl ?r False s = writes fl r False s" by (simp add: writes_def set_login_def)
  have "hashFields h1 s = hashFields (redis m uid) s" if "\<forall>x. fault x"
  proof -
    obtain h2 ok2 where x: "saveRoleHash fl fault False ?r False (redis m uid) = (h2, ok2)" by fastforce
    have "fst (save_fields fault wr i ss h) = h" for wr i ss h using that by (induction ss arbitrary: h) auto
    then have "h2 = redis m uid" using x by (auto simp: saveRoleHash_def Let_def split: prod.splits if_splits) (metis fst_conv)+
    then show ?thesis using s x by (auto simp: SaveToDB_def split: if_splits bool.splits)
  qed
  then show ?thesis using m' restricted_save [OF _ s, of s] w by auto
qed

definition two_roles :: role_mgr where
  "two_roles = \<lparr>mapUidToRole = [9 \<mapsto> MarkInventoryDirty sample_flags 5 20 False (fresh 9), 10 \<mapsto> fresh 10], redis = (\<lambda>_. empty_hash)\<rparr>"

theorem FlushAllToDB_saves_witness:
  "\<exists>m' i. FlushAllToDB sample_flags (\<lambda>_ _. False) (\<lambda>_. False) [9, 10] two_roles = (m', 2, 0)
     \<and> loadRoleHash (\<lambda>_. False) False (redis m' 9) = LoadInfo i \<and> get_section MALL_INFO i = Some (MallMsg Map.empty)"
proof -
  obtain m' sv fd where run: "FlushAllToDB sample_flags (\<lambda>_ _. False) (\<lambda>_. False) [9, 10] two_roles = (m', sv, fd)"
    using prod_cases3 by blast
  have "snd (FlushAllToDB sample_flags (\<lambda>_ _. False) (\<lambda>_. False) [9, 10] two_roles) = (2, 0)" by code_simp
  then have c: "sv = 2" "fd = 0" unfolding run by simp_all
  have r: "mapUidToRole two_roles 9 = Some (MarkInventoryDirty sample_flags 5 20 False (fresh 9))" by (simp add: two_roles_def)
  have d: "distinct [9 :: 64 word, 10]" by simp
  from FlushAllToDB_saves [OF d run, of "\<lambda>_. False"] c r
  obtain i where "loadRoleHash (\<lambda>_. False) False (redis m' 9) = LoadInfo i"
      "get_section MALL_INFO i = shown (\<lambda>_. False) (get_section MALL_INFO (PbRole (MarkInventoryDirty sample_flags 5 20 False (fresh 9))))"
    by (metis list.set_intros(1))
  moreover have "get_section MALL_INFO (PbRole (MarkInventoryDirty sample_flags 5 20 False (fresh 9))) = Some (MallMsg Map.empty)"
    by (simp add: fresh_def new_role_def RoleInitField_def empty_info_def or_init_def)
  ultimately show ?thesis using run c by (simp add: shown_def)
qed

theorem Logout_drops_witness:
  "\<exists>m' found. Logout sample_flags 77 (\<lambda>_. False) 9 two_roles = (m', found) \<and> found
     \<and> hashFields (redis m' 9) LOGIN_INFO = None \<and> hashFields (redis m' 9) INVENTORY_INFO \<noteq> None"
proof -
  obtain m' found where run: "Logout sample_flags 77 (\<lambda>_. False) 9 two_roles = (m', found)" using prod.exhaust by blast
  have r: "mapUidToRole two_roles 9 = Some (MarkInventoryDirty sample_flags 5 20 False (fresh 9))" by (simp add: two_roles_def)
  have "\<not> writes sample_flags (MarkInventoryDirty sample_flags 5 20 False (fresh 9)) False LOGIN_INFO" by code_simp
  then have "found" "hashFields (redis m' 9) LOGIN_INFO = None"
    using Logout_drops [OF r run, of LOGIN_INFO] by (simp_all add: two_roles_def empty_hash_def)
  moreover have "hashFields (redis (fst (Logout sample_flags 77 (\<lambda>_. False) 9 two_roles)) 9) INVENTORY_INFO \<noteq> None" by code_simp
  then have "hashFields (redis m' 9) INVENTORY_INFO \<noteq> None" by (simp only: run fst_conv not_False_eq_True)
  ultimately show ?thesis using run by blast
qed

definition fresh_hash :: role_hash where
  "fresh_hash = fst (snd (SaveToDBSync sample_flags (\<lambda>_. False) False (fresh 9) empty_hash))"


end
