(* ===== verification/BusAddr.thy ===== *)
theory BusAddr
  imports GoPrelude
begin

unbundle bit_operations_syntax

text \<open>
  Addresses: the dotted form of bus ids (src/lib/service/bus/bus_ip.go), which the router and the
  instance manager use as keys, and the split of a socket address into host and port, which the
  session hub of the gateway relies on. The functions of \<open>strings\<close>, \<open>strconv\<close> and \<open>net\<close> that the code
  calls are written out first.
\<close>

section \<open>strings and strconv\<close>

text \<open>\<open>strings.Split\<close> with a separator of one byte, and \<open>strings.Join\<close>.\<close>

fun Split :: "char \<Rightarrow> string \<Rightarrow> string list" where
  "Split c [] = [[]]"
| "Split c (x # xs) =
     (if x = c then [] # Split c xs
      else case Split c xs of [] \<Rightarrow> [[x]] | y # ys \<Rightarrow> (x # y) # ys)"

fun Join :: "string \<Rightarrow> string list \<Rightarrow> string" where
  "Join sep [] = []"
| "Join sep [x] = x"
| "Join sep (x # y # r) = x @ sep @ Join sep (y # r)"

lemma Split_nonempty [simp]: "Split c s \<noteq> []"
  by (induction s) (auto split: list.splits)

lemma Split_plain: "c \<notin> set x \<Longrightarrow> Split c x = [x]"
  by (induction x) auto

lemma Split_prefix: "c \<notin> set x \<Longrightarrow> Split c (x @ c # r) = x # Split c r"
  by (induction x) auto

lemma Split_Join:
  "xs \<noteq> [] \<Longrightarrow> list_all (\<lambda>x. c \<notin> set x) xs \<Longrightarrow> Split c (Join [c] xs) = xs"
  by (induction "[c]" xs rule: Join.induct) (auto simp: Split_plain Split_prefix)

definition digit_of :: "char \<Rightarrow> nat option" where
  "digit_of c = (let n = of_char c in if 48 \<le> n \<and> n \<le> 57 then Some (n - 48) else None)"

definition digit_char :: "nat \<Rightarrow> char" where
  "digit_char d = char_of (48 + d)"

lemma digit_of_char [simp]: "d < 10 \<Longrightarrow> digit_of (digit_char d) = Some d"
  by (simp add: digit_of_def digit_char_def)

lemma digit_char_not [simp]:
  "d < 10 \<Longrightarrow> digit_char d \<noteq> CHR ''.''" "d < 10 \<Longrightarrow> digit_char d \<noteq> CHR ''-''"
  "d < 10 \<Longrightarrow> digit_char d \<noteq> CHR ''+''"
  by (auto dest!: arg_cong [where f = digit_of]) (simp_all add: digit_of_def)

text \<open>The loop of \<open>strconv.ParseUint\<close> at base 10 and 64 bits: \<^const>\<open>None\<close> is a syntax error; a value
  out of range ends the loop with the greatest one, whatever follows.\<close>

fun parse_uint :: "nat \<Rightarrow> string \<Rightarrow> nat option" where
  "parse_uint n [] = Some n"
| "parse_uint n (c # cs) =
     (case digit_of c of
        None \<Rightarrow> None
      | Some d \<Rightarrow>
          if n \<ge> 1844674407370955162 then Some 18446744073709551615
          else if n * 10 + d > 18446744073709551615 then Some 18446744073709551615
          else parse_uint (n * 10 + d) cs)"

text \<open>\<open>strconv.Atoi\<close>; the callers drop the error, so its value in that case is the result: 0 for a
  malformed number, the nearest bound for one out of range.\<close>

definition Atoi :: "string \<Rightarrow> int" where
  "Atoi s =
     (let neg = (case s of [] \<Rightarrow> False | c # _ \<Rightarrow> c = CHR ''-'');
          ds = (case s of [] \<Rightarrow> [] | c # r \<Rightarrow> if c = CHR ''-'' \<or> c = CHR ''+'' then r else s)
      in if ds = [] then 0
         else case parse_uint 0 ds of
                None \<Rightarrow> 0
              | Some n \<Rightarrow> if neg then max (- (2 ^ 63)) (- int n) else min (2 ^ 63 - 1) (int n))"

fun Itoa :: "nat \<Rightarrow> string" where
  "Itoa n = (if n < 10 then [digit_char n] else Itoa (n div 10) @ [digit_char (n mod 10)])"

declare Itoa.simps [simp del]

definition dec_value :: "nat \<Rightarrow> string \<Rightarrow> nat" where
  "dec_value = foldl (\<lambda>n c. n * 10 + the (digit_of c))"

lemma dec_value_ge: "n \<le> dec_value n cs"
proof (induction cs arbitrary: n)
  case (Cons c cs)
  have "n \<le> n * 10 + the (digit_of c)" by simp
  also have "\<dots> \<le> dec_value (n * 10 + the (digit_of c)) cs" by (rule Cons.IH)
  finally show ?case by (simp add: dec_value_def)
qed (simp add: dec_value_def)

lemma parse_uint_digits:
  "list_all (\<lambda>c. digit_of c \<noteq> None) cs \<Longrightarrow> dec_value n cs \<le> 18446744073709551615 \<Longrightarrow>
     parse_uint n cs = Some (dec_value n cs)"
proof (induction cs arbitrary: n)
  case (Cons c cs)
  obtain d where d: "digit_of c = Some d" using Cons.prems by auto
  have step: "dec_value n (c # cs) = dec_value (n * 10 + d) cs" by (simp add: dec_value_def d)
  then have "n * 10 + d \<le> 18446744073709551615"
    using dec_value_ge [of "n * 10 + d" cs] Cons.prems(2) by simp
  then show ?case using Cons.IH [of "n * 10 + d"] Cons.prems step d by simp
qed (simp add: dec_value_def)

lemma Itoa_digits: "list_all (\<lambda>c. digit_of c \<noteq> None) (Itoa n)"
proof (induction n rule: Itoa.induct)
  case (1 n)
  then show ?case by (subst Itoa.simps) auto
qed

lemma Itoa_value: "dec_value 0 (Itoa n) = n"
proof (induction n rule: Itoa.induct)
  case (1 n)
  then show ?case
    by (subst Itoa.simps) (auto simp: dec_value_def)
qed

lemma digits_no_sign:
  "list_all (\<lambda>c. digit_of c \<noteq> None) cs \<Longrightarrow>
     CHR ''.'' \<notin> set cs \<and> CHR ''-'' \<notin> set cs \<and> CHR ''+'' \<notin> set cs"
  by (induction cs) (auto simp: digit_of_def)

lemma Itoa_nonempty [simp]: "Itoa n \<noteq> []"
  by (subst Itoa.simps) simp

lemma Atoi_Itoa:
  assumes "n < 2 ^ 63"
  shows "Atoi (Itoa n) = int n"
proof -
  obtain c r where i: "Itoa n = c # r" by (cases "Itoa n") simp_all
  have "c \<noteq> CHR ''-''" "c \<noteq> CHR ''+''" using digits_no_sign [OF Itoa_digits [of n]] by (auto simp: i)
  moreover have "parse_uint 0 (Itoa n) = Some n"
    using parse_uint_digits [OF Itoa_digits, of 0 n] assms by (simp add: Itoa_value)
  ultimately show ?thesis using assms by (simp add: Atoi_def i)
qed

lemma Itoa_no_dot: "CHR ''.'' \<notin> set (Itoa n)"
  using digits_no_sign [OF Itoa_digits] by blast

section \<open>Bus ids (bus_ip.go)\<close>

text \<open>The loop over the segments: \<open>tempInt\<close> is an \<open>int\<close> of 64 bits, \<open>pos\<close> a \<open>uint\<close> that wraps below
  zero after the fourth segment, so that later segments are shifted out.\<close>

fun ip_loop :: "32 word \<Rightarrow> 64 word \<Rightarrow> string list \<Rightarrow> 32 word" where
  "ip_loop ipInt pos [] = ipInt"
| "ip_loop ipInt pos (ipSeg # r) =
     (let tempInt = word_of_int (Atoi ipSeg) :: 64 word;
          tempInt = push_bit (unat pos) tempInt
      in ip_loop (ipInt OR ucast tempInt) (pos - 8) r)"

definition IpStringToInt :: "string \<Rightarrow> 32 word" where
  "IpStringToInt ipstring = ip_loop 0 24 (Split (CHR ''.'') ipstring)"

fun ip_segs :: "nat \<Rightarrow> 32 word \<Rightarrow> string list \<Rightarrow> string list" where
  "ip_segs 0 ipInt segs = segs"
| "ip_segs (Suc n) ipInt segs = ip_segs n (drop_bit 8 ipInt) (Itoa (unat (ipInt AND 0xFF)) # segs)"

definition IpIntToString :: "32 word \<Rightarrow> string" where
  "IpIntToString ipInt = Join ''.'' (ip_segs 4 ipInt [])"

definition ParseBusID :: "string \<Rightarrow> 32 word \<times> 32 word \<times> 32 word \<times> 32 word \<times> 32 word" where
  "ParseBusID ipstring =
     (let ipSegs = Split (CHR ''.'') ipstring
      in if length ipSegs < 4 then (0, 0, 0, 0, 0)
         else let worldID = word_of_int (Atoi (ipSegs ! 0)) :: 64 word;
                  zoneID = word_of_int (Atoi (ipSegs ! 1)) :: 64 word;
                  funcID = word_of_int (Atoi (ipSegs ! 2)) :: 64 word;
                  insID = word_of_int (Atoi (ipSegs ! 3)) :: 64 word;
                  ip = push_bit 24 worldID + push_bit 16 zoneID + push_bit 8 funcID + insID
              in (ucast ip, ucast worldID, ucast zoneID, ucast funcID, ucast insID))"

definition octet :: "nat \<Rightarrow> 32 word \<Rightarrow> 32 word" where
  "octet k w = drop_bit (8 * k) w AND 0xFF"

lemma octet_take: "octet k w = take_bit 8 (drop_bit (8 * k) w)"
  by (simp add: octet_def take_bit_eq_mask mask_eq_exp_minus_1)

lemma octet_less: "unat (octet k w) < 256"
proof -
  have "octet k w \<le> 0xFF" by (simp add: octet_def word_and_le1)
  then show ?thesis by (simp add: word_le_nat_alt)
qed

lemma ip_segs_octets: "ip_segs 4 w [] = map (\<lambda>k. Itoa (unat (octet k w))) [3, 2, 1, 0]"
  by (simp add: octet_def eval_nat_numeral)

lemma IpIntToString_segs:
  "Split (CHR ''.'') (IpIntToString w) = map (\<lambda>k. Itoa (unat (octet k w))) [3, 2, 1, 0]"
  unfolding IpIntToString_def ip_segs_octets by (rule Split_Join) (simp_all add: Itoa_no_dot)

lemma octet_parsed: "word_of_int (Atoi (Itoa (unat (octet k w)))) = (ucast (octet k w) :: 64 word)"
  using octet_less [of k w] by (simp add: Atoi_Itoa unsigned_def)

definition place :: "nat \<Rightarrow> 32 word \<Rightarrow> 64 word" where
  "place k w = push_bit (8 * k) (ucast (octet k w))"

lemma bit_place: "k < 4 \<Longrightarrow> bit (place k w) n = (8 * k \<le> n \<and> n < 8 * k + 8 \<and> bit w n)"
  unfolding place_def octet_take
  by (auto simp: bit_simps dest: bit_imp_le_length)

lemma octets_or_bits:
  "bit (place 3 w OR place 2 w OR place 1 w OR place 0 w) n = bit w n" (is "?l = ?r")
proof
  assume "?r"
  moreover from this have "n < 32" by (auto dest: bit_imp_le_length)
  ultimately show "?l" by (simp add: bit_or_iff bit_place) linarith
qed (auto simp: bit_or_iff bit_place)

lemma octets_or:
  "ucast (place 3 w) OR ucast (place 2 w) OR ucast (place 1 w) OR ucast (place 0 w) = w"
proof -
  have "ucast (place 3 w) OR ucast (place 2 w) OR ucast (place 1 w) OR ucast (place 0 w)
      = (ucast (place 3 w OR place 2 w OR place 1 w OR place 0 w) :: 32 word)"
    by (simp add: unsigned_or_eq)
  also have "\<dots> = w"
    by (rule bit_word_eqI) (simp add: bit_unsigned_iff octets_or_bits del: One_nat_def)
  finally show ?thesis .
qed

lemma word_add_or: "(a :: 'a::len word) AND b = 0 \<Longrightarrow> a + b = a OR b"
  by (rule disjunctive_add_eq_or)

lemma place_disjoint: "j < 4 \<Longrightarrow> k < 4 \<Longrightarrow> j \<noteq> k \<Longrightarrow> place j w AND place k w = 0"
  by (rule bit_word_eqI) (auto simp: bit_and_iff bit_place)

lemma octets_sum: "place 3 w + place 2 w + place 1 w + place 0 w
    = place 3 w OR place 2 w OR place 1 w OR place 0 w"
proof -
  have "place 3 w + place 2 w = place 3 w OR place 2 w" by (simp add: word_add_or place_disjoint)
  moreover have "(place 3 w OR place 2 w) + place 1 w = (place 3 w OR place 2 w) OR place 1 w"
    by (rule word_add_or) (simp add: bit.conj_disj_distrib2 place_disjoint)
  moreover have "(place 3 w OR place 2 w OR place 1 w) + place 0 w
      = (place 3 w OR place 2 w OR place 1 w) OR place 0 w"
    by (rule word_add_or) (simp add: bit.conj_disj_distrib2 place_disjoint)
  ultimately show ?thesis by (simp add: or.assoc)
qed

lemma push_place:
  "push_bit 24 (ucast (octet 3 w)) = place 3 w" "push_bit 16 (ucast (octet 2 w)) = place 2 w"
  "push_bit 8 (ucast (octet 1 w)) = place 1 w" "ucast (octet 0 w) = place 0 w"
  by (simp_all add: place_def)

lemma segs: "Split (CHR ''.'') (IpIntToString w)
    = [Itoa (unat (octet 3 w)), Itoa (unat (octet 2 w)), Itoa (unat (octet 1 w)), Itoa (unat (octet 0 w))]"
  by (simp add: IpIntToString_segs)

lemma ucast_octet: "ucast (ucast (octet k w) :: 64 word) = octet k w"
  by (rule bit_word_eqI) (auto simp: bit_unsigned_iff dest: bit_imp_le_length)

lemma ParseBusID_four:
  assumes "Split (CHR ''.'') s = [a, b, c, d]"
  shows "ParseBusID s =
    (ucast (push_bit 24 (word_of_int (Atoi a) :: 64 word) + push_bit 16 (word_of_int (Atoi b))
       + push_bit 8 (word_of_int (Atoi c)) + word_of_int (Atoi d)),
     ucast (word_of_int (Atoi a) :: 64 word), ucast (word_of_int (Atoi b) :: 64 word),
     ucast (word_of_int (Atoi c) :: 64 word), ucast (word_of_int (Atoi d) :: 64 word))"
  by (simp add: ParseBusID_def assms Let_def)

lemma IpStringToInt_four:
  assumes "Split (CHR ''.'') s = [a, b, c, d]"
  shows "IpStringToInt s =
     ucast (push_bit 24 (word_of_int (Atoi a) :: 64 word)) OR ucast (push_bit 16 (word_of_int (Atoi b) :: 64 word))
     OR ucast (push_bit 8 (word_of_int (Atoi c) :: 64 word)) OR ucast (word_of_int (Atoi d) :: 64 word)"
  by (simp add: IpStringToInt_def assms Let_def or.assoc)

text \<open>C23: A bus id survives its dotted form: for every 32-bit id, \<open>IpStringToInt\<close> reads back what
  \<open>IpIntToString\<close> wrote, and \<open>ParseBusID\<close> returns the same id together with its world, zone,
  function and instance, the four bytes from the highest to the lowest.\<close>

theorem bus_id_roundtrip:
  "IpStringToInt (IpIntToString w) = w
   \<and> ParseBusID (IpIntToString w) = (w, octet 3 w, octet 2 w, octet 1 w, octet 0 w)"
proof
  show "IpStringToInt (IpIntToString w) = w"
    unfolding IpStringToInt_four [OF segs] octet_parsed push_place by (rule octets_or)
  have "(ucast (place 3 w + place 2 w + place 1 w + place 0 w) :: 32 word) = w"
    unfolding octets_sum by (rule bit_word_eqI) (simp add: bit_unsigned_iff octets_or_bits del: One_nat_def)
  then show "ParseBusID (IpIntToString w) = (w, octet 3 w, octet 2 w, octet 1 w, octet 0 w)"
    unfolding ParseBusID_four [OF segs] octet_parsed
    by (simp only: ucast_octet push_place(1-3) push_place(4) [symmetric])
qed

text \<open>The two readers agree only on bytes: one joins the segments with a bitwise or, the other adds
  them, and a segment over 255 runs into its neighbour.\<close>

lemma readers_disagree: "IpStringToInt ''1.2.3.256'' \<noteq> fst (ParseBusID ''1.2.3.256'')"
  by (simp add: IpStringToInt_def ParseBusID_def Atoi_def digit_of_def Let_def)

lemma ParseBusID_short:
  "length (Split (CHR ''.'') s) < 4 \<Longrightarrow> ParseBusID s = (0, 0, 0, 0, 0)"
  by (simp add: ParseBusID_def)

section \<open>Socket addresses (net.SplitHostPort)\<close>

text \<open>The port starts after the last colon; a host with colons has to stand in brackets.\<close>

fun last_index :: "char \<Rightarrow> string \<Rightarrow> nat option" where
  "last_index c [] = None"
| "last_index c (x # xs) =
     (case last_index c xs of
        Some i \<Rightarrow> Some (Suc i)
      | None \<Rightarrow> if x = c then Some 0 else None)"

fun first_index :: "char \<Rightarrow> string \<Rightarrow> nat option" where
  "first_index c [] = None"
| "first_index c (x # xs) = (if x = c then Some 0 else map_option Suc (first_index c xs))"

definition SplitHostPort :: "string \<Rightarrow> (string \<times> string) option" where
  "SplitHostPort hostport =
     (case last_index (CHR '':'') hostport of
        None \<Rightarrow> None
      | Some i \<Rightarrow>
          let plain = \<lambda>j k host.
            if CHR ''['' \<in> set (drop j hostport) \<or> CHR '']'' \<in> set (drop k hostport) then None
            else Some (host, drop (Suc i) hostport)
          in if hostport ! 0 = CHR ''['' then
               (case first_index (CHR '']'') hostport of
                  None \<Rightarrow> None
                | Some e \<Rightarrow>
                    if Suc e = i then plain 1 (Suc e) (drop 1 (take e hostport)) else None)
             else let host = take i hostport
                  in if CHR '':'' \<in> set host then None else plain 0 0 host)"

lemma last_index_append: "c \<notin> set p \<Longrightarrow> last_index c (h @ c # p) = Some (length h)"
proof (induction h)
  case Nil
  have "last_index c p = None" using Nil by (induction p) (auto split: option.splits)
  then show ?case by simp
qed simp

lemma first_index_append: "c \<notin> set h \<Longrightarrow> first_index c (h @ c # p) = Some (length h)"
  by (induction h) auto

definition plain_part :: "string \<Rightarrow> bool" where
  "plain_part s \<longleftrightarrow> CHR ''['' \<notin> set s \<and> CHR '']'' \<notin> set s"

lemma SplitHostPort_v4:
  assumes "plain_part h" "plain_part p" "CHR '':'' \<notin> set h" "CHR '':'' \<notin> set p"
  shows "SplitHostPort (h @ '':'' @ p) = Some (h, p)"
proof -
  have "last_index (CHR '':'') (h @ '':'' @ p) = Some (length h)"
    using last_index_append [OF assms(4), of h] by simp
  moreover have "(h @ '':'' @ p) ! 0 \<noteq> CHR ''[''"
    using assms(1) by (cases h) (auto simp: plain_part_def)
  ultimately show ?thesis using assms by (simp add: SplitHostPort_def Let_def plain_part_def)
qed

lemma SplitHostPort_v6:
  assumes "plain_part h" "plain_part p" "CHR '':'' \<notin> set p"
  shows "SplitHostPort (''['' @ h @ '']:'' @ p) = Some (h, p)"
proof -
  have "last_index (CHR '':'') (''['' @ h @ '']:'' @ p) = Some (Suc (Suc (length h)))"
    using last_index_append [OF assms(3), of "''['' @ h @ '']''"] by simp
  moreover have "first_index (CHR '']'') (''['' @ h @ '']:'' @ p) = Some (Suc (length h))"
    using first_index_append [of "CHR '']''" "''['' @ h" "'':'' @ p"] assms(1)
    by (simp add: plain_part_def)
  ultimately show ?thesis using assms by (simp add: SplitHostPort_def Let_def plain_part_def)
qed

end
