(* ===== verification/Gateway.thy ===== *)
theory Gateway
  imports BusAddr SsPacket
begin

text \<open>
  The gateway (connsvr): the session hub its three transports share
  (lib/net/net_mgr/session_hub.go), the tracker that counts connections and sessions
  (lib/service/runtime/session_tracker.go), admission control (admission.go), the leases of
  admitted connections (conn_lease.go), the session layer of a transport (tcp_impl.go, of which
  ws_impl.go and kcp_impl.go are copies), the connection table below it (tcp_server.go with its
  copies ws.go and kcp.go), the packet handlers (src/connsvr/pack_proc.go) and the two internal
  calls (service/conn_ssrpc.go).

  A connection is a number: the code compares \<open>net.Conn\<close> values by identity. What a connection is
  (its transport, its remote address) and what third-party code answers (the encoding of the kick
  message, the token buckets, whether a full write channel accepts an entry within three seconds)
  are arguments. A handler is one operation; what it does to the outside is the list of its events.
\<close>

section \<open>The session tracker (session_tracker.go)\<close>

record SessionTracker =
  connections :: int
  sessions :: int
  closed :: bool

definition NewSessionTracker :: SessionTracker where
  "NewSessionTracker = \<lparr>connections = 0, sessions = 0, closed = False\<rparr>"

definition decCAS :: "int \<Rightarrow> int" where
  "decCAS old = (if old \<le> 0 then old else old - 1)"

definition IncConnection :: "SessionTracker \<Rightarrow> SessionTracker" where
  "IncConnection t = t\<lparr>connections := connections t + 1\<rparr>"

definition DecConnection :: "SessionTracker \<Rightarrow> SessionTracker" where
  "DecConnection t = t\<lparr>connections := decCAS (connections t)\<rparr>"

definition IncSession :: "SessionTracker \<Rightarrow> SessionTracker" where
  "IncSession t = t\<lparr>sessions := sessions t + 1\<rparr>"

definition DecSession :: "SessionTracker \<Rightarrow> SessionTracker" where
  "DecSession t = t\<lparr>sessions := decCAS (sessions t)\<rparr>"

text \<open>The loops of \<open>WaitSessions\<close> and \<open>WaitIdle\<close>: each entry is what one pass sees under the lock
  (the tracker, and whether the context is done); a wait is the step to the next entry.
  \<^const>\<open>None\<close>: the list ended while the caller was still waiting.\<close>

datatype wait_result = WaitOk | WaitCtxErr | ErrSessionTrackerClosed

definition wait_end :: "bool \<Rightarrow> bool \<Rightarrow> bool \<Rightarrow> wait_result" where
  "wait_end isClosed zero ctxDone =
     (if isClosed then (if zero then WaitOk else ErrSessionTrackerClosed)
      else if ctxDone then WaitCtxErr else WaitOk)"

fun wait_loop :: "(SessionTracker \<Rightarrow> bool) \<Rightarrow> (SessionTracker \<times> bool) list \<Rightarrow> wait_result option" where
  "wait_loop zero [] = None"
| "wait_loop zero ((t, ctxDone) # r) =
     (if \<not> closed t \<and> \<not> zero t then (if ctxDone then Some WaitCtxErr else wait_loop zero r)
      else Some (wait_end (closed t) (zero t) ctxDone))"

definition no_sessions :: "SessionTracker \<Rightarrow> bool" where
  "no_sessions t \<longleftrightarrow> sessions t \<le> 0"

definition idle :: "SessionTracker \<Rightarrow> bool" where
  "idle t \<longleftrightarrow> connections t \<le> 0 \<and> sessions t \<le> 0"

definition WaitSessions :: "SessionTracker \<Rightarrow> (SessionTracker \<times> bool) list \<Rightarrow> wait_result option" where
  "WaitSessions t seen = (if sessions t = 0 then Some WaitOk else wait_loop no_sessions seen)"

definition WaitIdle :: "SessionTracker \<Rightarrow> (SessionTracker \<times> bool) list \<Rightarrow> wait_result option" where
  "WaitIdle t seen =
     (if connections t = 0 \<and> sessions t = 0 then Some WaitOk else wait_loop idle seen)"

definition Close :: "SessionTracker \<Rightarrow> SessionTracker" where
  "Close t = t\<lparr>closed := True\<rparr>"

section \<open>Admission (admission.go)\<close>

record AdmissionLimits =
  MaxConnections :: int
  MaxUnauthenticatedConnections :: int
  ConnectionRate :: int
  LoginRate :: int
  MaxInflight :: int
  OverloadMode :: string

record AdmissionController =
  limits :: AdmissionLimits
  reservedConns :: int
  inflight :: int
  methodInflight :: "string \<rightharpoonup> int"

definition NewAdmissionController :: "AdmissionLimits \<Rightarrow> AdmissionController" where
  "NewAdmissionController l =
     \<lparr>limits = l, reservedConns = 0, inflight = 0, methodInflight = Map.empty\<rparr>"

definition enabled :: "AdmissionController \<Rightarrow> bool" where
  "enabled a \<longleftrightarrow> OverloadMode (limits a) = ''shadow'' \<or> OverloadMode (limits a) = ''enforce''"

definition admitOrReject :: "AdmissionController \<Rightarrow> bool \<Rightarrow> bool" where
  "admitOrReject a within = (if within then True else OverloadMode (limits a) \<noteq> ''enforce'')"

text \<open>The check that is not used any more: it only looks, so concurrent callers can pass together.
  \<open>allow\<close> is the answer of the token bucket, asked only when nothing refused before.\<close>

definition TryAdmitConnection :: "bool \<Rightarrow> SessionTracker \<Rightarrow> bool \<Rightarrow> AdmissionController \<Rightarrow> bool" where
  "TryAdmitConnection acc t allow a =
     (if \<not> enabled a then True
      else if \<not> acc then admitOrReject a False
      else let admit = True;
               admit = (if MaxConnections (limits a) > 0 \<and> connections t \<ge> MaxConnections (limits a)
                        then False else admit);
               admit = (if admit \<and> MaxUnauthenticatedConnections (limits a) > 0
                          \<and> connections t - sessions t \<ge> MaxUnauthenticatedConnections (limits a)
                        then False else admit);
               admit = (if admit \<and> \<not> allow then False else admit)
           in admitOrReject a admit)"

definition TryAdmitLogin :: "bool \<Rightarrow> bool \<Rightarrow> AdmissionController \<Rightarrow> bool" where
  "TryAdmitLogin acc allow a =
     (if \<not> enabled a then True
      else if \<not> acc then admitOrReject a False
      else admitOrReject a allow)"

text \<open>The compare-and-swap loop succeeds at one moment, at which it sees the current value: the
  operation is that moment.\<close>

definition TryAcquireConnection ::
    "bool \<Rightarrow> bool \<Rightarrow> AdmissionController \<Rightarrow> AdmissionController \<times> bool" where
  "TryAcquireConnection acc allow a =
     (if \<not> enabled a then (a, True)
      else if \<not> acc then (a, admitOrReject a False)
      else if \<not> allow then (a, admitOrReject a False)
      else if MaxConnections (limits a) \<le> 0 then (a, True)
      else if reservedConns a \<ge> MaxConnections (limits a) then (a, admitOrReject a False)
      else (a\<lparr>reservedConns := reservedConns a + 1\<rparr>, True))"

definition ReleaseConnection :: "AdmissionController \<Rightarrow> AdmissionController" where
  "ReleaseConnection a =
     (if reservedConns a \<le> 0 then a else a\<lparr>reservedConns := reservedConns a - 1\<rparr>)"

definition methodCounter :: "AdmissionController \<Rightarrow> string \<Rightarrow> AdmissionController" where
  "methodCounter a m =
     (case methodInflight a m of
        None \<Rightarrow> a\<lparr>methodInflight := (methodInflight a)(m \<mapsto> 0)\<rparr>
      | Some _ \<Rightarrow> a)"

definition TryAcquireInflight ::
    "string \<Rightarrow> int \<Rightarrow> int \<Rightarrow> AdmissionController \<Rightarrow> AdmissionController \<times> bool" where
  "TryAcquireInflight m globalLimit methodLimit a =
     (if globalLimit \<le> 0 \<and> methodLimit \<le> 0 then (a, True)
      else if globalLimit > 0 \<and> inflight a \<ge> globalLimit then (a, admitOrReject a False)
      else let a1 = a\<lparr>inflight := inflight a + 1\<rparr>
           in if methodLimit > 0 then
                let a2 = methodCounter a1 m; cur = the (methodInflight a2 m)
                in if cur \<ge> methodLimit
                   then (a2\<lparr>inflight := inflight a2 - 1\<rparr>, admitOrReject a2 False)
                   else (a2\<lparr>methodInflight := (methodInflight a2)(m \<mapsto> cur + 1)\<rparr>, True)
              else (a1, True))"

definition ReleaseInflight :: "string \<Rightarrow> AdmissionController \<Rightarrow> AdmissionController" where
  "ReleaseInflight m a =
     (let a1 = (case methodInflight a m of
                  None \<Rightarrow> a
                | Some cur \<Rightarrow> if cur \<le> 0 then a
                              else a\<lparr>methodInflight := (methodInflight a)(m \<mapsto> cur - 1)\<rparr>)
      in if inflight a1 \<le> 0 then a1 else a1\<lparr>inflight := inflight a1 - 1\<rparr>)"

section \<open>The session hub (session_hub.go)\<close>

type_synonym conn = nat

datatype transport = Tcp | Ws | Kcp

text \<open>What is fixed outside the hub: the transport and the remote address of a connection, and the
  generated protocol code the kick uses.\<close>

record net_env =
  transportOf :: "conn \<Rightarrow> transport"
  remoteAddr :: "conn \<Rightarrow> string"
  marshalKickOut :: "nat \<Rightarrow> bytes option"
  CMD_SC_KICK_OUT :: "32 word"
  CMD_CONN_KICK_OUT_REQ :: "32 word"
  MULTI_PLACE_LOGIN :: nat

record Client =
  cUid :: "64 word"
  cZone :: "32 word"
  cConn :: conn
  cIp :: "32 word"
  cPort :: "32 word"
  cRemoteAddr :: string

record SessionHub =
  accepting :: bool
  uidConnMap :: "64 word \<rightharpoonup> Client"
  connUidMap :: "conn \<rightharpoonup> 64 word"
  remoteAddrConnMap :: "string \<rightharpoonup> conn"
  remoteAddrKickMap :: "string \<rightharpoonup> bool"

definition NewSessionHub :: SessionHub where
  "NewSessionHub = \<lparr>accepting = True, uidConnMap = Map.empty, connUidMap = Map.empty,
     remoteAddrConnMap = Map.empty, remoteAddrKickMap = Map.empty\<rparr>"

definition hub_Quiesce :: "SessionHub \<Rightarrow> SessionHub" where
  "hub_Quiesce h = h\<lparr>accepting := False\<rparr>"

datatype bind_error = AddrError | ErrGatewayDraining

definition new_client :: "net_env \<Rightarrow> conn \<Rightarrow> 64 word \<Rightarrow> 32 word \<Rightarrow> Client option" where
  "new_client e c uid zone =
     (case SplitHostPort (remoteAddr e c) of
        None \<Rightarrow> None
      | Some (host, portStr) \<Rightarrow>
          Some \<lparr>cUid = uid, cZone = zone, cConn = c, cIp = IpStringToInt host,
            cPort = word_of_int (Atoi portStr), cRemoteAddr = remoteAddr e c\<rparr>)"

text \<open>The part of \<open>BindClient\<close> under the lock: the new client, the replaced one and whether the uid
  is new, and the maps.\<close>

definition BindClient_locked ::
    "net_env \<Rightarrow> conn \<Rightarrow> 64 word \<Rightarrow> Client \<Rightarrow> SessionHub
       \<Rightarrow> (Client option \<times> bool \<times> SessionHub) option" where
  "BindClient_locked e c uid newIns h =
     (if \<not> accepting h then None
      else let oldCli = uidConnMap h uid; isNewUID = (oldCli = None)
           in Some (oldCli, isNewUID,
                h\<lparr>connUidMap := (connUidMap h)(c \<mapsto> uid), uidConnMap := (uidConnMap h)(uid \<mapsto> newIns),
                  remoteAddrConnMap := (remoteAddrConnMap h)(remoteAddr e c \<mapsto> c)\<rparr>))"

definition BindClient ::
    "net_env \<Rightarrow> conn \<Rightarrow> 64 word \<Rightarrow> 32 word \<Rightarrow> SessionHub \<times> SessionTracker
       \<Rightarrow> (bind_error + Client \<times> Client option) \<times> SessionHub \<times> SessionTracker" where
  "BindClient e c uid zone ht =
     (case ht of (h, t) \<Rightarrow>
        case new_client e c uid zone of
          None \<Rightarrow> (Inl AddrError, h, t)
        | Some newIns \<Rightarrow>
            case BindClient_locked e c uid newIns h of
              None \<Rightarrow> (Inl ErrGatewayDraining, h, t)
            | Some (oldCli, isNewUID, h') \<Rightarrow>
                (Inr (newIns, oldCli), h', if isNewUID then IncSession t else t))"

definition GetClientByUid :: "SessionHub \<Rightarrow> 64 word \<Rightarrow> Client option" where
  "GetClientByUid h uid = uidConnMap h uid"

text \<open>The order in which Go goes through the map is the argument \<open>order\<close>.\<close>

definition SnapshotByZone :: "64 word list \<Rightarrow> int \<Rightarrow> SessionHub \<Rightarrow> Client list" where
  "SnapshotByZone order zone h =
     filter (\<lambda>c. \<not> (zone > 0 \<and> cZone c \<noteq> word_of_int zone)) (List.map_filter (uidConnMap h) order)"

definition ConnByRemoteAddr :: "SessionHub \<Rightarrow> string \<Rightarrow> conn option" where
  "ConnByRemoteAddr h a = remoteAddrConnMap h a"

definition MarkKick :: "string \<Rightarrow> SessionHub \<Rightarrow> SessionHub" where
  "MarkKick a h = h\<lparr>remoteAddrKickMap := (remoteAddrKickMap h)(a \<mapsto> True)\<rparr>"

text \<open>The part of \<open>RemoveConn\<close> under the lock: the result, whether the session count goes down, and
  the maps.\<close>

definition RemoveConn_locked ::
    "net_env \<Rightarrow> conn \<Rightarrow> SessionHub \<Rightarrow> (64 word \<times> bool) \<times> bool \<times> SessionHub" where
  "RemoveConn_locked e c h =
     (case connUidMap h c of
        None \<Rightarrow> ((0, False), False, h)
      | Some uid \<Rightarrow>
          let h1 = h\<lparr>remoteAddrConnMap := (remoteAddrConnMap h)(remoteAddr e c := None),
                     connUidMap := (connUidMap h)(c := None)\<rparr>
          in if (case uidConnMap h1 uid of None \<Rightarrow> False | Some cur \<Rightarrow> cConn cur = c) then
               let h2 = h1\<lparr>uidConnMap := (uidConnMap h1)(uid := None)\<rparr>
               in if remoteAddrKickMap h2 (remoteAddr e c) = Some True
                  then ((uid, True), True,
                    h2\<lparr>remoteAddrKickMap := (remoteAddrKickMap h2)(remoteAddr e c := None)\<rparr>)
                  else ((uid, False), True, h2)
             else ((0, False), False, h1))"

definition RemoveConn ::
    "net_env \<Rightarrow> conn \<Rightarrow> SessionHub \<times> SessionTracker
       \<Rightarrow> (64 word \<times> bool) \<times> SessionHub \<times> SessionTracker" where
  "RemoveConn e c ht =
     (case RemoveConn_locked e c (fst ht) of
        (r, dec, h) \<Rightarrow> (r, h, if dec then DecSession (snd ht) else snd ht))"

section \<open>The session layer of a transport (tcp_impl.go, ws_impl.go, kcp_impl.go)\<close>

text \<open>\<open>live t\<close> holds the connections of the table \<open>mapOfConnInfo\<close> of transport \<open>t\<close> that are not marked
  closed; \<open>lease t\<close> those admitted and not yet closed.\<close>

record gateway =
  hub :: SessionHub
  tracker :: SessionTracker
  admission :: "AdmissionController option"
  lease :: "transport \<Rightarrow> conn set"
  live :: "transport \<Rightarrow> conn set"

text \<open>What a handler does outside: an entry put into the write channel of a connection (data, or
  nil, which closes it), the direct close of a connection, the logout request to the main server, a
  request forwarded through the router, a packet handed to the transactions.\<close>

datatype gw_event =
  Written conn bytes | CloseQueued conn | ConnClosed conn | LogoutReq "64 word"
| Forwarded "64 word" "32 word" "32 word" bytes "32 word" "32 word" | ToTransMgr SSPacket

definition WriteData :: "transport \<Rightarrow> gateway \<Rightarrow> conn \<Rightarrow> bytes \<Rightarrow> bytes \<Rightarrow> bool \<Rightarrow> gw_event list \<times> bool" where
  "WriteData t g c data1 data2 room =
     (if c \<notin> live g t then ([], False)
      else if room then ([Written c (data1 @ data2)], True) else ([], False))"

definition transport_Close :: "transport \<Rightarrow> gateway \<Rightarrow> conn \<Rightarrow> bool \<Rightarrow> gw_event list \<times> bool" where
  "transport_Close t g c room =
     (if c \<notin> live g t then ([], False)
      else if room then ([CloseQueued c], True) else ([], False))"

definition markAdmitted :: "transport \<Rightarrow> conn \<Rightarrow> gateway \<Rightarrow> gateway" where
  "markAdmitted t c g = g\<lparr>lease := (lease g)(t := insert c (lease g t))\<rparr>"

definition takeIfAdmitted :: "transport \<Rightarrow> conn \<Rightarrow> gateway \<Rightarrow> gateway \<times> bool" where
  "takeIfAdmitted t c g =
     (if c \<in> lease g t then (g\<lparr>lease := (lease g)(t := lease g t - {c})\<rparr>, True) else (g, False))"

definition OnConn :: "transport \<Rightarrow> conn \<Rightarrow> bool \<Rightarrow> gateway \<Rightarrow> gateway \<times> gw_event list" where
  "OnConn t c allow g =
     (let (adm, ok) = (case admission g of
                         None \<Rightarrow> (None, True)
                       | Some a \<Rightarrow> map_prod Some id (TryAcquireConnection (accepting (hub g)) allow a));
          g1 = g\<lparr>admission := adm\<rparr>
      in if \<not> ok then (g1, [ConnClosed c])
         else let g2 = markAdmitted t c g1 in (g2\<lparr>tracker := IncConnection (tracker g2)\<rparr>, []))"

definition removeConn :: "net_env \<Rightarrow> conn \<Rightarrow> gateway \<Rightarrow> gateway \<times> 64 word" where
  "removeConn e c g =
     (case RemoveConn e c (hub g, tracker g) of
        ((uid, kicked), h, t) \<Rightarrow>
          (g\<lparr>hub := h, tracker := t\<rparr>, if kicked then 0 else uid))"

definition OnClose :: "net_env \<Rightarrow> transport \<Rightarrow> conn \<Rightarrow> gateway \<Rightarrow> gateway \<times> gw_event list" where
  "OnClose e t c g =
     (let (g1, taken) = takeIfAdmitted t c g;
          g2 = (if taken then g1\<lparr>tracker := DecConnection (tracker g1),
                                 admission := map_option ReleaseConnection (admission g1)\<rparr>
                else g1);
          (g3, uid) = removeConn e c g2
      in (g3, if uid = 0 then [] else [LogoutReq uid]))"

text \<open>The listener and the read loop around them: the table entry is made before \<open>OnConn\<close> and
  removed after \<open>OnClose\<close>, and the read loop closes the connection when it returns.\<close>

definition runListener :: "transport \<Rightarrow> conn \<Rightarrow> bool \<Rightarrow> gateway \<Rightarrow> gateway \<times> gw_event list" where
  "runListener t c allow g = OnConn t c allow (g\<lparr>live := (live g)(t := insert c (live g t))\<rparr>)"

definition destroyConn :: "transport \<Rightarrow> conn \<Rightarrow> gateway \<Rightarrow> gateway" where
  "destroyConn t c g = g\<lparr>live := (live g)(t := live g t - {c})\<rparr>"

definition read_loop_end :: "net_env \<Rightarrow> transport \<Rightarrow> conn \<Rightarrow> gateway \<Rightarrow> gateway \<times> gw_event list" where
  "read_loop_end e t c g =
     (case OnClose e t c g of (g1, evs) \<Rightarrow> (destroyConn t c g1, evs @ [ConnClosed c]))"

definition SendByUid ::
    "transport \<Rightarrow> 64 word \<Rightarrow> bytes \<Rightarrow> bytes \<Rightarrow> bool \<Rightarrow> gateway \<Rightarrow> gw_event list \<times> bool" where
  "SendByUid t uid data1 data2 room g =
     (case GetClientByUid (hub g) uid of
        None \<Rightarrow> ([], False)
      | Some client \<Rightarrow>
          case WriteData t g (cConn client) data1 data2 room of
            (evs, True) \<Rightarrow> (evs, True)
          | (evs, False) \<Rightarrow> (evs @ [ConnClosed (cConn client)], False))"

definition BroadcastByZone ::
    "transport \<Rightarrow> int \<Rightarrow> bytes \<Rightarrow> bytes \<Rightarrow> 64 word list \<Rightarrow> (conn \<Rightarrow> bool) \<Rightarrow> gateway \<Rightarrow> gw_event list" where
  "BroadcastByZone t zone data1 data2 order room g =
     concat (map (\<lambda>client.
       case WriteData t g (cConn client) data1 data2 (room (cConn client)) of
         (evs, True) \<Rightarrow> evs
       | (evs, False) \<Rightarrow> evs @ [ConnClosed (cConn client)]) (SnapshotByZone order zone (hub g)))"

text \<open>The kick message, then the deferred close through the transport on every path.\<close>

definition kick ::
    "net_env \<Rightarrow> transport \<Rightarrow> conn \<Rightarrow> 64 word \<Rightarrow> nat \<Rightarrow> bool \<Rightarrow> bool \<Rightarrow> gateway \<Rightarrow> gw_event list" where
  "kick e t c uid reason roomMsg roomNil g =
     (case marshalKickOut e reason of
        None \<Rightarrow> []
      | Some msgData \<Rightarrow>
          fst (WriteData t g c
            (CSPacketHeader_ToBytes \<lparr>csVersion = 0, csPassCode = 0, csSeq = 0, csUid = uid, csAppVersion = 0,
               csCmd = CMD_SC_KICK_OUT e, csBodyLen = word_of_nat (length msgData)\<rparr>) msgData roomMsg))
     @ fst (transport_Close t g c roomNil)"

definition Kick ::
    "net_env \<Rightarrow> transport \<Rightarrow> 64 word \<Rightarrow> nat \<Rightarrow> bool \<Rightarrow> bool \<Rightarrow> gateway \<Rightarrow> gw_event list" where
  "Kick e t uid reason roomMsg roomNil g =
     (case GetClientByUid (hub g) uid of
        None \<Rightarrow> []
      | Some client \<Rightarrow> kick e t (cConn client) uid reason roomMsg roomNil g)"

definition KickByRemoteAddr ::
    "net_env \<Rightarrow> transport \<Rightarrow> 64 word \<Rightarrow> nat \<Rightarrow> string \<Rightarrow> bool \<Rightarrow> bool \<Rightarrow> gateway \<Rightarrow> gateway \<times> gw_event list" where
  "KickByRemoteAddr e t uid reason a roomMsg roomNil g =
     (case ConnByRemoteAddr (hub g) a of
        None \<Rightarrow> (g, [])
      | Some c \<Rightarrow>
          let g1 = g\<lparr>hub := MarkKick a (hub g)\<rparr>
          in (g1, kick e t c uid reason roomMsg roomNil g1))"

definition UpdateClientByUid ::
    "net_env \<Rightarrow> transport \<Rightarrow> conn \<Rightarrow> 64 word \<Rightarrow> 32 word \<Rightarrow> bool \<Rightarrow> bool \<Rightarrow> gateway
       \<Rightarrow> gateway \<times> gw_event list \<times> Client option" where
  "UpdateClientByUid e t c uid zone roomMsg roomNil g =
     (case BindClient e c uid zone (hub g, tracker g) of
        (res, h, tk) \<Rightarrow>
          let g1 = g\<lparr>hub := h, tracker := tk\<rparr>
          in case res of
               Inl _ \<Rightarrow> (g1, [], None)
             | Inr (newIns, oldCli) \<Rightarrow>
                 (g1, case oldCli of
                        None \<Rightarrow> []
                      | Some old \<Rightarrow> kick e t (cConn old) uid (MULTI_PLACE_LOGIN e) roomMsg roomNil g1,
                  Some newIns))"

section \<open>Packets (pack_proc.go) and internal calls (conn_ssrpc.go)\<close>

definition MsgTypeInCmd :: "32 word \<Rightarrow> 32 word" where
  "MsgTypeInCmd cmd = drop_bit 12 cmd AND 0xf"

definition IsClientCmd :: "32 word \<Rightarrow> bool" where
  "IsClientCmd cmd = (let t = MsgTypeInCmd cmd in t = 0 \<or> t = 3)"

definition IsInnerCmd :: "32 word \<Rightarrow> bool" where
  "IsInnerCmd cmd \<longleftrightarrow> \<not> IsClientCmd cmd"

definition forward :: "CSPacketHeader \<Rightarrow> bytes \<Rightarrow> Client \<Rightarrow> gw_event" where
  "forward ph body client =
     Forwarded (csUid ph) (cZone client) (csCmd ph) body (cIp client) (cPort client)"

definition handleClientPacket ::
    "net_env \<Rightarrow> transport \<Rightarrow> conn \<Rightarrow> bytes \<Rightarrow> bool \<Rightarrow> bool \<Rightarrow> bool \<Rightarrow> gateway
       \<Rightarrow> gateway \<times> gw_event list" where
  "handleClientPacket e t c data allow roomMsg roomNil g =
     (case CSPacketHeader_From data of
        None \<Rightarrow> (g, [])
      | Some ph \<Rightarrow>
          let packetBody = drop ByteLenOfCSPacketHeader data; uid = csUid ph
          in if IsInnerCmd (csCmd ph) then (g, [])
             else if uid = 0 then (g, [])
             else case GetClientByUid (hub g) uid of
               None \<Rightarrow>
                 if (case admission g of
                       None \<Rightarrow> False
                     | Some a \<Rightarrow> \<not> TryAdmitLogin (accepting (hub g)) allow a) then (g, [])
                 else (case UpdateClientByUid e t c uid (csAppVersion ph) roomMsg roomNil g of
                         (g1, evs, None) \<Rightarrow> (g1, evs)
                       | (g1, evs, Some client) \<Rightarrow> (g1, evs @ [forward ph packetBody client]))
             | Some client \<Rightarrow>
                 if cConn client \<noteq> c then
                   (case UpdateClientByUid e t c uid (cZone client) roomMsg roomNil g of
                      (g1, evs, _) \<Rightarrow> (g1, evs @ [forward ph packetBody client]))
                 else (g, [forward ph packetBody client]))"

definition onRecvSSPacket :: "net_env \<Rightarrow> SSPacket \<Rightarrow> (transport \<Rightarrow> bool) \<Rightarrow> gateway \<Rightarrow> gw_event list" where
  "onRecvSSPacket e p room g =
     (if IsClientCmd (Cmd (Header p)) then
        let csPacketHeader = \<lparr>csVersion = 0, csPassCode = 0, csSeq = 0, csUid = Uid (Header p),
              csAppVersion = 0, csCmd = Cmd (Header p), csBodyLen = BodyLen (Header p)\<rparr>;
            headerBuf = CSPacketHeader_ToBytes csPacketHeader;
            send = \<lambda>t. SendByUid t (Uid (Header p)) headerBuf (Body p) (room t) g
        in case send Tcp of
             (ev1, True) \<Rightarrow> ev1
           | (ev1, False) \<Rightarrow>
               (case send Ws of
                  (ev2, True) \<Rightarrow> ev1 @ ev2
                | (ev2, False) \<Rightarrow> ev1 @ ev2 @ fst (send Kcp))
      else if Cmd (Header p) = CMD_CONN_KICK_OUT_REQ e then []
      else [ToTransMgr p])"

definition KickOut ::
    "net_env \<Rightarrow> 64 word \<Rightarrow> nat \<Rightarrow> string \<Rightarrow> bool \<Rightarrow> bool \<Rightarrow> gateway \<Rightarrow> gateway \<times> gw_event list" where
  "KickOut e uid reason a roomMsg roomNil g = KickByRemoteAddr e Ws uid reason a roomMsg roomNil g"

definition Broadcast ::
    "64 word \<Rightarrow> 32 word \<Rightarrow> bytes \<Rightarrow> 64 word list \<Rightarrow> (conn \<Rightarrow> bool) \<Rightarrow> gateway \<Rightarrow> gw_event list" where
  "Broadcast uid cmd body order room g =
     BroadcastByZone Ws 0
       (CSPacketHeader_ToBytes \<lparr>csVersion = 0, csPassCode = 0, csSeq = 0, csUid = uid, csAppVersion = 0,
          csCmd = cmd, csBodyLen = word_of_nat (length body)\<rparr>) body order room g"

section \<open>Runs of the gateway\<close>

datatype gw_op =
  Accept conn bool
| Packet conn bytes bool bool bool
| ConnEnd conn
| Downstream SSPacket "transport \<Rightarrow> bool"
| KickOutCall "64 word" nat string bool bool
| BroadcastCall "64 word" "32 word" bytes "64 word list" "conn \<Rightarrow> bool"
| KickCall transport "64 word" nat bool bool
| QuiesceCall

fun gw_exec :: "net_env \<Rightarrow> gateway \<Rightarrow> gw_op \<Rightarrow> gateway \<times> gw_event list" where
  "gw_exec e g (Accept c allow) = runListener (transportOf e c) c allow g"
| "gw_exec e g (Packet c data allow r1 r2) = handleClientPacket e (transportOf e c) c data allow r1 r2 g"
| "gw_exec e g (ConnEnd c) = read_loop_end e (transportOf e c) c g"
| "gw_exec e g (Downstream p room) = (g, onRecvSSPacket e p room g)"
| "gw_exec e g (KickOutCall uid reason a r1 r2) = KickOut e uid reason a r1 r2 g"
| "gw_exec e g (BroadcastCall uid cmd body order room) = (g, Broadcast uid cmd body order room g)"
| "gw_exec e g (KickCall t uid reason r1 r2) = (g, Kick e t uid reason r1 r2 g)"
| "gw_exec e g QuiesceCall = (g\<lparr>hub := hub_Quiesce (hub g)\<rparr>, [])"

definition gw_step :: "net_env \<Rightarrow> gateway \<Rightarrow> gw_op \<Rightarrow> gateway" where
  "gw_step e g a = fst (gw_exec e g a)"

text \<open>A new connection is not in the table; only a connection of the table has packets and an end.\<close>

fun gw_can :: "net_env \<Rightarrow> gateway \<Rightarrow> gw_op \<Rightarrow> bool" where
  "gw_can e g (Accept c _) = (c \<notin> live g (transportOf e c))"
| "gw_can e g (Packet c _ _ _ _) = (c \<in> live g (transportOf e c))"
| "gw_can e g (ConnEnd c) = (c \<in> live g (transportOf e c))"
| "gw_can e g _ = True"

text \<open>The state after \<open>gatewayComponent.Start\<close>.\<close>

definition gw_init :: "AdmissionLimits \<Rightarrow> gateway" where
  "gw_init l = \<lparr>hub = NewSessionHub, tracker = NewSessionTracker,
     admission = Some (NewAdmissionController l), lease = (\<lambda>_. {}), live = (\<lambda>_. {})\<rparr>"

abbreviation gw_run :: "net_env \<Rightarrow> gateway \<Rightarrow> gw_op list \<Rightarrow> gateway" where
  "gw_run e \<equiv> foldl (gw_step e)"

abbreviation gw_valid :: "net_env \<Rightarrow> gateway \<Rightarrow> gw_op list \<Rightarrow> bool" where
  "gw_valid e \<equiv> valid_run (gw_step e) (gw_can e)"

section \<open>The counts\<close>

definition hub_inv :: "(conn \<Rightarrow> bool) \<Rightarrow> SessionHub \<Rightarrow> SessionTracker \<Rightarrow> bool" where
  "hub_inv lv h t \<longleftrightarrow> finite (dom (uidConnMap h)) \<and> sessions t = int (card (dom (uidConnMap h)))
     \<and> (\<forall>c u. connUidMap h c = Some u \<longrightarrow> lv c) \<and> uidConnMap h 0 = None"

lemma hub_inv_cong:
  "uidConnMap h = uidConnMap h' \<Longrightarrow> connUidMap h = connUidMap h' \<Longrightarrow> sessions t = sessions t' \<Longrightarrow>
     (\<And>c. lv c \<Longrightarrow> lv' c) \<Longrightarrow> hub_inv lv h t \<Longrightarrow> hub_inv lv' h' t'"
  by (auto simp: hub_inv_def)

lemma hub_inv_DecConnection [simp]: "hub_inv lv h (DecConnection t) = hub_inv lv h t"
  by (simp add: hub_inv_def DecConnection_def)

lemma card_dom_upd:
  "finite (dom f) \<Longrightarrow> card (dom (f(k \<mapsto> v))) = (if f k = None then card (dom f) + 1 else card (dom f))"
  by (auto simp: card_insert_if domIff)

lemma card_dom_del:
  "finite (dom f) \<Longrightarrow> f k = Some v \<Longrightarrow> int (card (dom (f(k := None)))) = int (card (dom f)) - 1"
  by (simp add: card_Diff_singleton domI) (metis One_nat_def Suc_leI card_gt_0_iff domI empty_iff of_nat_1 of_nat_diff)

lemma BindClient_inv:
  assumes "hub_inv lv h t" "lv c" "uid \<noteq> 0" "BindClient e c uid zone (h, t) = (res, h', t')"
  shows "hub_inv lv h' t'"
  using assms
  by (auto simp: BindClient_def BindClient_locked_def hub_inv_def IncSession_def Let_def card_dom_upd
      simp del: dom_fun_upd split: option.splits if_splits)

lemma RemoveConn_inv:
  assumes "hub_inv lv h t" "RemoveConn e c (h, t) = (res, h', t')"
  shows "hub_inv (\<lambda>d. lv d \<and> d \<noteq> c) h' t'"
proof (cases "connUidMap h c")
  case None
  then show ?thesis using assms by (auto simp: RemoveConn_def RemoveConn_locked_def hub_inv_def)
next
  case (Some u)
  show ?thesis
  proof (cases "uidConnMap h u")
    case None
    then show ?thesis using assms Some
      by (auto simp: RemoveConn_def RemoveConn_locked_def hub_inv_def Let_def split: if_splits)
  next
    case (Some cl)
    then have "card (dom (uidConnMap h)) \<noteq> 0"
      using assms(1) by (auto simp: hub_inv_def)
    moreover note card_dom_del [of "uidConnMap h" u cl]
    ultimately show ?thesis using assms Some \<open>connUidMap h c = Some u\<close>
      by (auto simp: RemoveConn_def RemoveConn_locked_def hub_inv_def Let_def DecSession_def decCAS_def
          simp del: dom_fun_upd split: if_splits)
  qed
qed

text \<open>Connections, leases and reserved places. Under \<open>enforce\<close> with a limit every admitted connection
  holds a place.\<close>

definition admitted_count :: "gateway \<Rightarrow> int" where
  "admitted_count g = int (card (lease g Tcp) + card (lease g Ws) + card (lease g Kcp))"

definition enforcing :: "AdmissionLimits \<Rightarrow> bool" where
  "enforcing l \<longleftrightarrow> OverloadMode l = ''enforce'' \<and> 0 < MaxConnections l"

definition places_inv :: "AdmissionLimits \<Rightarrow> int \<Rightarrow> AdmissionController option \<Rightarrow> bool" where
  "places_inv l n adm \<longleftrightarrow> (case adm of
     None \<Rightarrow> False
   | Some a \<Rightarrow> limits a = l \<and> 0 \<le> reservedConns a \<and> reservedConns a \<le> n
       \<and> reservedConns a \<le> max 0 (MaxConnections l) \<and> (enforcing l \<longrightarrow> reservedConns a = n))"

definition lease_inv :: "net_env \<Rightarrow> AdmissionLimits \<Rightarrow> gateway \<Rightarrow> bool" where
  "lease_inv e l g \<longleftrightarrow> (\<forall>t. finite (live g t) \<and> lease g t \<subseteq> live g t \<and> (\<forall>c\<in>live g t. transportOf e c = t))
     \<and> connections (tracker g) = admitted_count g \<and> places_inv l (admitted_count g) (admission g)"

definition gw_inv :: "net_env \<Rightarrow> AdmissionLimits \<Rightarrow> gateway \<Rightarrow> bool" where
  "gw_inv e l g \<longleftrightarrow> hub_inv (\<lambda>c. c \<in> live g (transportOf e c)) (hub g) (tracker g) \<and> lease_inv e l g"

lemma admitted_insert:
  assumes "finite (lease g t)" "c \<notin> lease g t" "lease g' = (lease g)(t := insert c (lease g t))"
  shows "admitted_count g' = admitted_count g + 1"
  using assms by (cases t) (simp_all add: admitted_count_def)

lemma admitted_remove:
  assumes "finite (lease g t)" "c \<in> lease g t" "lease g' = (lease g)(t := lease g t - {c})"
  shows "admitted_count g' = admitted_count g - 1"
proof -
  have "card (lease g t) \<noteq> 0" using assms by auto
  then show ?thesis using assms by (cases t) (auto simp: admitted_count_def card_Diff_singleton)
qed

lemma admitted_nonneg: "0 \<le> admitted_count g"
  by (simp add: admitted_count_def)

lemma places_acquire:
  assumes "places_inv l n (Some a)" "TryAcquireConnection acc allow a = (a', ok)"
  shows "places_inv l (if ok then n + 1 else n) (Some a')"
  using assms unfolding places_inv_def TryAcquireConnection_def enforcing_def enabled_def admitOrReject_def
  by (auto split: if_splits)

lemma places_release:
  "places_inv l n adm \<Longrightarrow> places_inv l (n - 1) (map_option ReleaseConnection adm) \<or> n = 0"
  by (auto simp: places_inv_def ReleaseConnection_def enforcing_def split: option.splits)

lemma BindClient_connections:
  "BindClient e c uid zone (h, t) = (res, h', t') \<Longrightarrow> connections t' = connections t \<and> closed t' = closed t"
  by (auto simp: BindClient_def IncSession_def split: option.splits if_splits)

lemma RemoveConn_connections:
  "RemoveConn e c (h, t) = (res, h', t') \<Longrightarrow> connections t' = connections t \<and> closed t' = closed t"
  by (auto simp: RemoveConn_def DecSession_def split: prod.splits if_splits)

text \<open>What a packet and the calls leave alone.\<close>

definition same_conns :: "gateway \<Rightarrow> gateway \<Rightarrow> bool" where
  "same_conns g g' \<longleftrightarrow> live g' = live g \<and> lease g' = lease g \<and> admission g' = admission g
     \<and> connections (tracker g') = connections (tracker g)"

lemma lease_inv_same: "same_conns g g' \<Longrightarrow> lease_inv e l g \<Longrightarrow> lease_inv e l g'"
  by (simp add: same_conns_def lease_inv_def admitted_count_def)

lemma UpdateClientByUid_hub:
  assumes "UpdateClientByUid e t c uid zone r1 r2 g = (g', evs, cl)"
  shows "\<exists>res. BindClient e c uid zone (hub g, tracker g) = (res, hub g', tracker g')
           \<and> same_conns g g' \<and> (cl = None) = (\<exists>x. res = Inl x)"
proof -
  obtain res h tk where b: "BindClient e c uid zone (hub g, tracker g) = (res, h, tk)"
    using prod_cases3 by blast
  then show ?thesis using assms BindClient_connections [OF b]
    by (cases res) (auto simp: UpdateClientByUid_def same_conns_def Let_def)
qed

text \<open>A packet either leaves the gateway as it is or binds its connection.\<close>

lemma handleClientPacket_cases:
  assumes "handleClientPacket e t c data allow r1 r2 g = (g', evs)"
  shows "g' = g \<or> (\<exists>ph zone res. CSPacketHeader_From data = Some ph \<and> csUid ph \<noteq> 0
      \<and> BindClient e c (csUid ph) zone (hub g, tracker g) = (res, hub g', tracker g') \<and> same_conns g g')"
proof (cases "CSPacketHeader_From data")
  case (Some ph)
  have upd: "\<exists>zone res. BindClient e c (csUid ph) zone (hub g, tracker g) = (res, hub g', tracker g')
      \<and> same_conns g g'" if "g' = fst (UpdateClientByUid e t c (csUid ph) zone r1 r2 g)" for zone
    using UpdateClientByUid_hub [of e t c "csUid ph" zone r1 r2 g] that
    by (metis prod.collapse)
  show ?thesis
  proof (cases "g' = g")
    case False
    then have "\<exists>zone. g' = fst (UpdateClientByUid e t c (csUid ph) zone r1 r2 g)" "csUid ph \<noteq> 0"
      using assms by (auto simp: handleClientPacket_def Some Let_def GetClientByUid_def
          split: option.splits if_splits prod.splits) (metis fst_conv)+
    then show ?thesis using upd Some by blast
  qed simp
qed (use assms in \<open>simp add: handleClientPacket_def\<close>)

lemma same_conns_refl [simp]: "same_conns g g"
  by (simp add: same_conns_def)

lemma handleClientPacket_inv:
  assumes "gw_inv e l g" "c \<in> live g (transportOf e c)"
    and "handleClientPacket e t c data allow r1 r2 g = (g', evs)"
  shows "gw_inv e l g'"
proof (cases "g' = g")
  case False
  then obtain ph :: CSPacketHeader and zone res where
    b: "BindClient e c (csUid ph) zone (hub g, tracker g) = (res, hub g', tracker g')"
    and u: "csUid ph \<noteq> 0" and s: "same_conns g g'"
    using handleClientPacket_cases [OF assms(3)] by auto
  have "hub_inv (\<lambda>c. c \<in> live g (transportOf e c)) (hub g') (tracker g')"
    using BindClient_inv [OF _ _ u b] assms(1,2) by (simp add: gw_inv_def)
  then show ?thesis
    using assms(1) lease_inv_same [OF s] s by (simp add: gw_inv_def same_conns_def)
qed (use assms in simp)

lemma OnConn_cases:
  assumes "OnConn t c allow g = (g', evs)" "admission g = Some a"
    and "TryAcquireConnection (accepting (hub g)) allow a = (a', ok)"
  shows "g' = (if ok then g\<lparr>admission := Some a', lease := (lease g)(t := insert c (lease g t)),
                    tracker := IncConnection (tracker g)\<rparr> else g\<lparr>admission := Some a'\<rparr>)
       \<and> evs = (if ok then [] else [ConnClosed c])"
  using assms by (auto simp: OnConn_def Let_def markAdmitted_def)

lemma runListener_inv:
  assumes inv: "gw_inv e l g" and t: "t = transportOf e c" and c: "c \<notin> live g t"
    and run: "runListener t c allow g = (g', evs)"
  shows "gw_inv e l g'"
proof -
  let ?g1 = "g\<lparr>live := (live g)(t := insert c (live g t))\<rparr>"
  obtain a where a: "admission g = Some a" and pl: "places_inv l (admitted_count g) (Some a)"
    using inv by (auto simp: gw_inv_def lease_inv_def places_inv_def split: option.splits)
  obtain a' ok where acq: "TryAcquireConnection (accepting (hub g)) allow a = (a', ok)"
    by (cases "TryAcquireConnection (accepting (hub g)) allow a")
  have g': "g' = (if ok then ?g1\<lparr>admission := Some a', lease := (lease g)(t := insert c (lease g t)),
                    tracker := IncConnection (tracker g)\<rparr> else ?g1\<lparr>admission := Some a'\<rparr>)"
    using OnConn_cases [of t c allow ?g1 g' evs a a' ok] run a acq by (simp add: runListener_def)
  have sub: "finite (lease g t)" "c \<notin> lease g t"
    using inv c finite_subset [of "lease g t" "live g t"] by (auto simp: gw_inv_def lease_inv_def)
  have n: "admitted_count g' = (if ok then admitted_count g + 1 else admitted_count g)"
    using admitted_insert [OF sub, of g'] by (simp add: g') (simp add: admitted_count_def)
  have "places_inv l (admitted_count g') (admission g')"
    using places_acquire [OF pl acq] n by (simp add: g' split: if_splits)
  moreover have "connections (tracker g') = admitted_count g'"
    using inv n by (simp add: g' gw_inv_def lease_inv_def IncConnection_def split: if_splits)
  moreover have "finite (live g' s) \<and> lease g' s \<subseteq> live g' s \<and> (\<forall>d\<in>live g' s. transportOf e d = s)" for s
    using inv t by (auto simp: g' gw_inv_def lease_inv_def split: if_splits)
  moreover have "hub_inv (\<lambda>d. d \<in> live g' (transportOf e d)) (hub g') (tracker g')"
  proof (rule hub_inv_cong)
    show "hub_inv (\<lambda>d. d \<in> live g (transportOf e d)) (hub g) (tracker g)"
      using inv by (simp add: gw_inv_def)
  qed (auto simp: g' IncConnection_def)
  ultimately show ?thesis by (simp add: gw_inv_def lease_inv_def)
qed

lemma OnClose_parts:
  assumes "OnClose e t c g = (g', evs)"
  shows "\<exists>r. RemoveConn e c (hub g, if c \<in> lease g t then DecConnection (tracker g) else tracker g)
            = (r, hub g', tracker g')
       \<and> lease g' = (lease g)(t := lease g t - {c}) \<and> live g' = live g
       \<and> admission g' = (if c \<in> lease g t then map_option ReleaseConnection (admission g) else admission g)
       \<and> evs = (if fst r = 0 \<or> snd r then [] else [LogoutReq (fst r)])"
proof -
  let ?tk = "if c \<in> lease g t then DecConnection (tracker g) else tracker g"
  obtain uid kicked h tk where rm: "RemoveConn e c (hub g, ?tk) = ((uid, kicked), h, tk)"
    by (metis prod.collapse)
  show ?thesis
  proof (cases "c \<in> lease g t")
    case True
    then show ?thesis using assms rm by (auto simp: OnClose_def takeIfAdmitted_def removeConn_def)
  next
    case False
    then have "(lease g)(t := lease g t - {c}) = lease g" by auto
    then show ?thesis using assms rm False by (auto simp: OnClose_def takeIfAdmitted_def removeConn_def)
  qed
qed

lemma read_loop_end_inv:
  assumes inv: "gw_inv e l g" and t: "t = transportOf e c" and c: "c \<in> live g t"
    and run: "read_loop_end e t c g = (g', evs)"
  shows "gw_inv e l g'"
proof -
  obtain g1 ev1 where oc: "OnClose e t c g = (g1, ev1)" by (cases "OnClose e t c g")
  have g': "g' = destroyConn t c g1" using run oc by (simp add: read_loop_end_def)
  let ?tk = "if c \<in> lease g t then DecConnection (tracker g) else tracker g"
  obtain r where rm: "RemoveConn e c (hub g, ?tk) = (r, hub g1, tracker g1)"
    and le: "lease g1 = (lease g)(t := lease g t - {c})" and lv: "live g1 = live g"
    and ad: "admission g1 = (if c \<in> lease g t then map_option ReleaseConnection (admission g) else admission g)"
    using OnClose_parts [OF oc] by auto
  have li: "lease_inv e l g" using inv by (simp add: gw_inv_def)
  then have fin: "finite (lease g t)" and conns: "connections (tracker g) = admitted_count g"
    and pl: "places_inv l (admitted_count g) (admission g)"
    using finite_subset [of "lease g t" "live g t"] by (auto simp: lease_inv_def)
  have n: "admitted_count g1 = (if c \<in> lease g t then admitted_count g - 1 else admitted_count g)"
    using admitted_remove [OF fin _ le] le by (auto simp: admitted_count_def)
  have pos: "c \<in> lease g t \<Longrightarrow> 0 < admitted_count g"
    using n admitted_nonneg [of g1] by simp
  have "places_inv l (admitted_count g1) (admission g1)"
    using places_release [OF pl] pl pos by (auto simp: n ad)
  moreover have "connections (tracker g1) = admitted_count g1"
    using RemoveConn_connections [OF rm] conns pos
    by (auto simp: n DecConnection_def decCAS_def split: if_splits)
  ultimately have "lease_inv e l g'"
    using li le lv by (auto simp: g' destroyConn_def lease_inv_def admitted_count_def)
  moreover have "hub_inv (\<lambda>d. d \<in> live g' (transportOf e d)) (hub g') (tracker g')"
  proof (rule hub_inv_cong)
    have "hub_inv (\<lambda>d. d \<in> live g (transportOf e d)) (hub g) ?tk"
      using inv by (simp add: gw_inv_def hub_inv_DecConnection)
    then show "hub_inv (\<lambda>d. d \<in> live g (transportOf e d) \<and> d \<noteq> c) (hub g1) (tracker g1)"
      by (rule RemoveConn_inv [OF _ rm])
  qed (auto simp: g' destroyConn_def lv)
  ultimately show ?thesis by (simp add: gw_inv_def)
qed

lemma KickByRemoteAddr_inv:
  assumes "gw_inv e l g" "KickByRemoteAddr e t uid reason a r1 r2 g = (g', evs)"
  shows "gw_inv e l g'"
proof -
  have "g' = g \<or> g' = g\<lparr>hub := MarkKick a (hub g)\<rparr>"
    using assms(2) by (auto simp: KickByRemoteAddr_def Let_def split: option.splits)
  then show ?thesis
    using assms(1) by (elim disjE) (simp_all add: MarkKick_def gw_inv_def hub_inv_def lease_inv_def admitted_count_def)
qed

lemma gw_step_inv:
  assumes "gw_inv e l g" "gw_can e g a"
  shows "gw_inv e l (gw_step e g a)"
proof (cases a)
  case (Accept c allow)
  then show ?thesis using assms runListener_inv [OF assms(1) refl]
    by (simp add: gw_step_def) (metis prod.collapse)
next
  case (Packet c data allow r1 r2)
  then show ?thesis using assms handleClientPacket_inv [OF assms(1)]
    by (simp add: gw_step_def) (metis prod.collapse)
next
  case (ConnEnd c)
  then show ?thesis using assms read_loop_end_inv [OF assms(1) refl]
    by (simp add: gw_step_def) (metis prod.collapse)
next
  case (KickOutCall uid reason a r1 r2)
  then show ?thesis using assms KickByRemoteAddr_inv [OF assms(1)]
    by (simp add: gw_step_def KickOut_def) (metis prod.collapse)
next
  case QuiesceCall
  then show ?thesis using assms
    by (simp add: gw_step_def hub_Quiesce_def gw_inv_def hub_inv_def lease_inv_def admitted_count_def)
qed (use assms in \<open>simp_all add: gw_step_def\<close>)

interpretation gw: guarded_invariant "gw_step e" "gw_can e" "gw_inv e l"
  by unfold_locales (rule gw_step_inv)

lemma gw_init_inv: "gw_inv e l (gw_init l)"
  by (simp add: gw_inv_def gw_init_def hub_inv_def NewSessionHub_def NewSessionTracker_def lease_inv_def
      admitted_count_def places_inv_def NewAdmissionController_def)

section \<open>Properties\<close>

definition packet_of :: "64 word \<Rightarrow> 32 word \<Rightarrow> 32 word \<Rightarrow> bytes \<Rightarrow> bytes" where
  "packet_of uid zone cmd body = CSPacketHeader_ToBytes
     \<lparr>csVersion = 0, csPassCode = 0, csSeq = 0, csUid = uid, csAppVersion = zone, csCmd = cmd,
      csBodyLen = word_of_nat (length body)\<rparr> @ body"

definition sample_net :: net_env where
  "sample_net = \<lparr>transportOf = (\<lambda>c. if c = 1 then Tcp else if c = 2 then Ws else Kcp),
     remoteAddr = (\<lambda>c. ''10.0.0.1:'' @ Itoa c), marshalKickOut = (\<lambda>r. Some [word_of_nat r]),
     CMD_SC_KICK_OUT = 7, CMD_CONN_KICK_OUT_REQ = 0x1001, MULTI_PLACE_LOGIN = 2\<rparr>"

definition sample_limits :: AdmissionLimits where
  "sample_limits = \<lparr>MaxConnections = 1, MaxUnauthenticatedConnections = 0, ConnectionRate = 0,
     LoginRate = 0, MaxInflight = 0, OverloadMode = ''enforce''\<rparr>"

lemma packet_of_header:
  "CSPacketHeader_From (packet_of uid zone cmd body) = Some
     \<lparr>csVersion = 0, csPassCode = 0, csSeq = 0, csUid = uid, csAppVersion = zone, csCmd = cmd,
      csBodyLen = word_of_nat (length body)\<rparr>"
  by (simp add: packet_of_def CSPacketHeader_ToBytes_layout CSPacketHeader_From_layout)

lemma packet_of_body: "drop ByteLenOfCSPacketHeader (packet_of uid zone cmd body) = body"
  by (simp add: packet_of_def ByteLenOfCSPacketHeader_def CSPacketHeader_ToBytes_layout)

lemma sample_addr: "SplitHostPort (remoteAddr sample_net c) = Some (''10.0.0.1'', Itoa c)"
proof -
  have "plain_part (Itoa c)" "CHR '':'' \<notin> set (Itoa c)"
    using Itoa_digits [of c] by (auto simp: plain_part_def list_all_iff digit_of_def)
  then show ?thesis
    using SplitHostPort_v4 [of "''10.0.0.1''" "Itoa c"] by (simp add: sample_net_def plain_part_def)
qed


definition sample_run :: "gw_op list" where
  "sample_run = [Accept 1 True, Accept 2 True, Packet 1 (packet_of 5 1 0x20001 [9]) True True True, ConnEnd 2]"

lemmas gw_eval = gw_step_def runListener_def OnConn_def TryAcquireConnection_def enabled_def gw_init_def
  NewAdmissionController_def NewSessionHub_def NewSessionTracker_def markAdmitted_def admitOrReject_def
  IncConnection_def DecConnection_def decCAS_def ReleaseConnection_def IncSession_def DecSession_def
  handleClientPacket_def packet_of_header packet_of_body IsInnerCmd_def IsClientCmd_def MsgTypeInCmd_def
  GetClientByUid_def TryAdmitLogin_def UpdateClientByUid_def BindClient_def BindClient_locked_def
  new_client_def sample_addr read_loop_end_def OnClose_def takeIfAdmitted_def removeConn_def
  RemoveConn_def RemoveConn_locked_def destroyConn_def forward_def

lemma sample_run_valid: "gw_valid sample_net (gw_init sample_limits) sample_run"
  by (simp add: sample_run_def gw_eval sample_limits_def)

lemma sample_run_bound: "dom (uidConnMap (hub (gw_run sample_net (gw_init sample_limits) sample_run))) = {5}"
  by (simp add: sample_run_def gw_eval sample_limits_def)


subsection \<open>Draining\<close>

text \<open>The discipline the drain relies on: a connection carries the packets of one uid.\<close>

fun one_uid :: "(conn \<Rightarrow> 64 word) \<Rightarrow> gw_op \<Rightarrow> bool" where
  "one_uid owner (Packet c data _ _ _) =
     (case CSPacketHeader_From data of None \<Rightarrow> True | Some ph \<Rightarrow> csUid ph = owner c)"
| "one_uid owner _ = True"

definition hub_own :: "(conn \<Rightarrow> 64 word) \<Rightarrow> SessionHub \<Rightarrow> bool" where
  "hub_own owner h \<longleftrightarrow> (\<forall>c u. connUidMap h c = Some u \<longrightarrow> u = owner c)
     \<and> (\<forall>u cl. uidConnMap h u = Some cl \<longrightarrow> connUidMap h (cConn cl) = Some u)"

lemma BindClient_maps:
  assumes "BindClient e c uid zone (h, t) = (res, h', t')"
  shows "h' = h \<or> accepting h \<and> (\<exists>cl. cConn cl = c \<and> uidConnMap h' = (uidConnMap h)(uid \<mapsto> cl)
            \<and> connUidMap h' = (connUidMap h)(c \<mapsto> uid) \<and> accepting h')"
proof (cases "new_client e c uid zone")
  case (Some cl)
  then have "cConn cl = c" by (auto simp: new_client_def split: option.splits prod.splits)
  show ?thesis
  proof (cases "accepting h")
    case True
    with \<open>cConn cl = c\<close> show ?thesis using assms Some
      by (intro disjI2 conjI exI [of _ cl])
        (auto simp: BindClient_def BindClient_locked_def Let_def split: option.splits if_splits)
  qed (use assms Some in \<open>simp add: BindClient_def BindClient_locked_def\<close>)
qed (use assms in \<open>simp add: BindClient_def\<close>)

lemma RemoveConn_maps:
  assumes "RemoveConn e c (h, t) = (r, h', t')"
  shows "accepting h' = accepting h \<and> connUidMap h' = (connUidMap h)(c := None)
    \<and> (\<forall>u. uidConnMap h' u = (if connUidMap h c = Some u \<and> (\<exists>cl. uidConnMap h u = Some cl \<and> cConn cl = c)
                              then None else uidConnMap h u))
    \<and> (fst r = 0 \<or> connUidMap h c = Some (fst r) \<and> (\<exists>cl. uidConnMap h (fst r) = Some cl \<and> cConn cl = c))"
proof (cases "connUidMap h c")
  case None
  then have "(connUidMap h)(c := None) = connUidMap h" by auto
  then show ?thesis using assms None by (auto simp: RemoveConn_def RemoveConn_locked_def)
next
  case (Some u)
  then show ?thesis using assms
    by (cases "uidConnMap h u") (auto simp: RemoveConn_def RemoveConn_locked_def Let_def split: if_splits)
qed

lemma hub_own_bind:
  assumes "hub_own owner h" "BindClient e c (owner c) zone (h, t) = (res, h', t')"
  shows "hub_own owner h'"
  using BindClient_maps [OF assms(2)] assms(1) by (auto simp: hub_own_def split: if_splits) metis

lemma hub_own_remove:
  assumes "hub_own owner h" "RemoveConn e c (h, t) = (r, h', t')"
  shows "hub_own owner h'"
proof -
  note m = RemoveConn_maps [OF assms(2)]
  have "connUidMap h' (cConn cl) = Some u" if "uidConnMap h' u = Some cl" for u cl
  proof -
    have old: "uidConnMap h u = Some cl" using m that by (auto split: if_splits)
    then have "connUidMap h (cConn cl) = Some u" using assms(1) by (simp add: hub_own_def)
    moreover have "cConn cl \<noteq> c" using m that old calculation by auto
    ultimately show ?thesis using m by simp
  qed
  then show ?thesis using m assms(1) by (auto simp: hub_own_def split: if_splits)
qed

text \<open>How a step changes the hub.\<close>

lemma ConnEnd_remove:
  "\<exists>t r. RemoveConn e c (hub g, t) = (r, hub (gw_step e g (ConnEnd c)), tracker (gw_step e g (ConnEnd c)))
     \<and> snd (gw_exec e g (ConnEnd c)) = (if fst r = 0 \<or> snd r then [] else [LogoutReq (fst r)]) @ [ConnClosed c]"
proof -
  obtain g1 ev1 where oc: "OnClose e (transportOf e c) c g = (g1, ev1)"
    by (cases "OnClose e (transportOf e c) c g")
  have ex: "gw_exec e g (ConnEnd c) = (destroyConn (transportOf e c) c g1, ev1 @ [ConnClosed c])"
    by (simp add: read_loop_end_def oc)
  then have st: "hub (gw_step e g (ConnEnd c)) = hub g1" "tracker (gw_step e g (ConnEnd c)) = tracker g1"
    by (simp_all add: gw_step_def destroyConn_def)
  show ?thesis unfolding st ex snd_conv using OnClose_parts [OF oc] by blast
qed

lemma gw_step_hub:
  obtains (same) "hub (gw_step e g a) = hub g"
  | (quiesce) "hub (gw_step e g a) = hub_Quiesce (hub g)"
  | (mark) x where "hub (gw_step e g a) = MarkKick x (hub g)"
  | (bind) c data allow r1 r2 ph zone res where "a = Packet c data allow r1 r2"
      "CSPacketHeader_From data = Some ph"
      "BindClient e c (csUid ph) zone (hub g, tracker g) = (res, hub (gw_step e g a), tracker (gw_step e g a))"
  | (remove) c t r where "a = ConnEnd c"
      "RemoveConn e c (hub g, t) = (r, hub (gw_step e g a), tracker (gw_step e g a))"
      "snd (gw_exec e g a) = (if fst r = 0 \<or> snd r then [] else [LogoutReq (fst r)]) @ [ConnClosed c]"
proof (cases a)
  case (Accept c allow)
  then have "hub (gw_step e g a) = hub g"
    by (auto simp: gw_step_def runListener_def OnConn_def markAdmitted_def Let_def split: prod.splits option.splits)
  then show ?thesis by (rule that(1))
next
  case (Packet c data allow r1 r2)
  obtain g' evs where h: "handleClientPacket e (transportOf e c) c data allow r1 r2 g = (g', evs)"
    by (cases "handleClientPacket e (transportOf e c) c data allow r1 r2 g")
  then have g': "gw_step e g a = g'" by (simp add: gw_step_def Packet)
  show ?thesis using handleClientPacket_cases [OF h]
  proof (elim disjE exE conjE)
    fix ph :: CSPacketHeader and zone res
    assume "CSPacketHeader_From data = Some ph"
      "BindClient e c (csUid ph) zone (hub g, tracker g) = (res, hub g', tracker g')"
    then show ?thesis using that(4) Packet g' by blast
  qed (use that(1) g' in simp)
next
  case (ConnEnd c)
  then show ?thesis using ConnEnd_remove [of e c g] that(5) [OF ConnEnd] by blast
next
  case (KickOutCall uid reason x r1 r2)
  then show ?thesis using that(1) that(3) [of x]
    by (cases "ConnByRemoteAddr (hub g) x") (simp_all add: gw_step_def KickOut_def KickByRemoteAddr_def Let_def)
next
  case QuiesceCall
  then show ?thesis using that(2) by (simp add: gw_step_def)
qed (use that(1) in \<open>simp_all add: gw_step_def\<close>)

lemma hub_own_step:
  assumes "hub_own owner (hub g)" "one_uid owner a"
  shows "hub_own owner (hub (gw_step e g a))"
proof (cases rule: gw_step_hub [of e g a])
  case (bind c data allow r1 r2 ph zone res)
  then have "csUid ph = owner c" using assms(2) by simp
  then show ?thesis using hub_own_bind [OF assms(1)] bind by metis
next
  case (remove c t r)
  then show ?thesis using hub_own_remove [OF assms(1)] by blast
qed (use assms in \<open>simp_all add: hub_Quiesce_def MarkKick_def hub_own_def\<close>)

interpretation own: op_invariant_on "gw_step e" "\<lambda>g. hub_own owner (hub g)" "one_uid owner"
  by unfold_locales (rule hub_own_step)

text \<open>After the drain has begun no uid is bound any more.\<close>

definition draining_from :: "64 word set \<Rightarrow> gateway \<Rightarrow> bool" where
  "draining_from U g \<longleftrightarrow> \<not> accepting (hub g) \<and> dom (uidConnMap (hub g)) \<subseteq> U"

lemma draining_step: "draining_from U g \<Longrightarrow> draining_from U (gw_step e g a)"
proof (cases rule: gw_step_hub [of e g a])
  case (bind c data allow r1 r2 ph zone res)
  assume "draining_from U g"
  then show ?thesis using BindClient_maps [OF bind(3)] by (auto simp: draining_from_def)
next
  case (remove c t r)
  assume d: "draining_from U g"
  have "dom (uidConnMap (hub (gw_step e g a))) \<subseteq> dom (uidConnMap (hub g))"
    using RemoveConn_maps [OF remove(2)] by (auto simp: dom_def split: if_splits)
  then show ?thesis using d RemoveConn_maps [OF remove(2)] by (auto simp: draining_from_def)
qed (simp_all add: hub_Quiesce_def MarkKick_def draining_from_def)

interpretation drain: op_invariant "gw_step e" "draining_from U"
  by unfold_locales (rule draining_step)

lemma admitted_count_live: "gw_inv e l g \<Longrightarrow> \<forall>t. live g t = {} \<Longrightarrow> admitted_count g = 0"
  by (auto simp: gw_inv_def lease_inv_def admitted_count_def)

lemma WaitSessions_zero: "sessions t = 0 \<Longrightarrow> WaitSessions t seen = Some WaitOk"
  by (simp add: WaitSessions_def)


text \<open>The discipline matters: a connection that carried a second uid has left the first one bound to
  it, and from then on nothing but a packet of the first uid can undo that.\<close>

definition stale :: "64 word \<Rightarrow> Client \<Rightarrow> gateway \<Rightarrow> bool" where
  "stale u cl g \<longleftrightarrow> uidConnMap (hub g) u = Some cl \<and> connUidMap (hub g) (cConn cl) \<noteq> Some u"

fun not_of_uid :: "64 word \<Rightarrow> gw_op \<Rightarrow> bool" where
  "not_of_uid u (Packet c data _ _ _) =
     (case CSPacketHeader_From data of None \<Rightarrow> True | Some ph \<Rightarrow> csUid ph \<noteq> u)"
| "not_of_uid u _ = True"

lemma stale_step:
  assumes "stale u cl g" "not_of_uid u a"
  shows "stale u cl (gw_step e g a)"
proof (cases rule: gw_step_hub [of e g a])
  case (bind c data allow r1 r2 ph zone res)
  then have "csUid ph \<noteq> u" using assms(2) by simp
  then show ?thesis using assms(1) BindClient_maps [OF bind(3)] by (auto simp: stale_def split: if_splits)
next
  case (remove c t r)
  then show ?thesis using assms(1) RemoveConn_maps [OF remove(2)] by (auto simp: stale_def)
qed (use assms in \<open>simp_all add: stale_def hub_Quiesce_def MarkKick_def\<close>)

interpretation stale: op_invariant_on "gw_step e" "stale u cl" "not_of_uid u"
  by unfold_locales (rule stale_step)

lemma stale_no_logout:
  assumes "stale u cl g" "u \<noteq> 0"
  shows "LogoutReq u \<notin> set (snd (gw_exec e g (ConnEnd c)))"
proof -
  obtain t r where rm: "RemoveConn e c (hub g, t) = (r, hub (gw_step e g (ConnEnd c)), tracker (gw_step e g (ConnEnd c)))"
    and evs: "snd (gw_exec e g (ConnEnd c)) = (if fst r = 0 \<or> snd r then [] else [LogoutReq (fst r)]) @ [ConnClosed c]"
    using ConnEnd_remove by blast
  have "fst r \<noteq> u" using assms RemoveConn_maps [OF rm] by (auto simp: stale_def)
  then show ?thesis using evs by auto
qed

lemma sample_drain_valid:
  "gw_valid sample_net (gw_init sample_limits)
     ([Accept 1 True, Packet 1 (packet_of 5 1 0x20001 [9]) True True True] @ QuiesceCall # [ConnEnd 1])"
  by (simp add: gw_eval sample_limits_def hub_Quiesce_def)

lemma sample_drain_live:
  "live (gw_run sample_net (gw_init sample_limits)
     ([Accept 1 True, Packet 1 (packet_of 5 1 0x20001 [9]) True True True] @ QuiesceCall # [ConnEnd 1])) t = {}"
  by (simp add: gw_eval sample_limits_def hub_Quiesce_def)


lemma wait_never_ok:
  "(\<And>t d. (t, d) \<in> set seen \<Longrightarrow> 1 \<le> sessions t) \<Longrightarrow> wait_loop no_sessions seen \<noteq> Some WaitOk"
proof (induction seen)
  case (Cons x seen)
  obtain t d where x: "x = (t, d)" by (cases x)
  then have "\<not> no_sessions t" using Cons.prems [of t d] by (simp add: no_sessions_def)
  moreover have "wait_loop no_sessions seen \<noteq> Some WaitOk" using Cons by (meson list.set_intros(2))
  ultimately show ?case by (simp add: x wait_end_def)
qed simp


text \<open>One connection, the uids 5 and 6, and its end: no connection is left, and one session.\<close>

lemma sample_leak_valid:
  "gw_valid sample_net (gw_init sample_limits)
     ([Accept 1 True, Packet 1 (packet_of 5 1 0x20001 []) True True True,
       Packet 1 (packet_of 6 1 0x20001 []) True True True] @ [ConnEnd 1])"
  by (simp add: gw_eval sample_limits_def)

definition sample_leak :: gateway where
  "sample_leak = gw_run sample_net (gw_init sample_limits)
     [Accept 1 True, Packet 1 (packet_of 5 1 0x20001 []) True True True,
      Packet 1 (packet_of 6 1 0x20001 []) True True True]"

lemma sample_leak_state:
  "uidConnMap (hub sample_leak) 5 = Some \<lparr>cUid = 5, cZone = 1, cConn = 1,
      cIp = IpStringToInt ''10.0.0.1'', cPort = word_of_int (Atoi (Itoa 1)), cRemoteAddr = remoteAddr sample_net 1\<rparr>"
  "connUidMap (hub sample_leak) 1 = Some 6"
  "live (gw_run sample_net sample_leak [ConnEnd 1]) t = {}"
  by (simp_all add: sample_leak_def gw_eval sample_limits_def)


subsection \<open>Packets to the clients\<close>

text \<open>The three session layers share one hub, but each writes only to its own connections: what a
  write through a transport does to a connection of another one.\<close>

locale session_layer =
  fixes writes :: "conn \<Rightarrow> bytes \<Rightarrow> bytes \<Rightarrow> bool \<Rightarrow> gw_event list \<times> bool"
    and owns :: "conn \<Rightarrow> bool"
  assumes write_own: "owns c \<Longrightarrow> writes c d1 d2 True = ([Written c (d1 @ d2)], True)"
    and write_foreign: "\<not> owns c \<Longrightarrow> writes c d1 d2 room = ([], False)"
begin

lemma send_or_close:
  "(case writes c d1 d2 True of (evs, True) \<Rightarrow> evs | (evs, False) \<Rightarrow> evs @ [ConnClosed c])
     = (if owns c then [Written c (d1 @ d2)] else [ConnClosed c])"
  by (cases "owns c") (simp_all add: write_own write_foreign)

end

interpretation layer: session_layer "WriteData t g" "\<lambda>c. c \<in> live g t"
  by unfold_locales (auto simp: WriteData_def)

lemma SendByUid_to:
  assumes "uidConnMap (hub g) uid = Some cl"
  shows "SendByUid t uid d1 d2 True g =
    (if cConn cl \<in> live g t then ([Written (cConn cl) (d1 @ d2)], True) else ([ConnClosed (cConn cl)], False))"
  using assms by (simp add: SendByUid_def GetClientByUid_def WriteData_def)

lemma BroadcastByZone_to:
  "BroadcastByZone t zone d1 d2 order (\<lambda>_. True) g =
    map (\<lambda>cl. if cConn cl \<in> live g t then Written (cConn cl) (d1 @ d2) else ConnClosed (cConn cl))
      (SnapshotByZone order zone (hub g))"
proof -
  have "concat (map (\<lambda>cl. if cConn cl \<in> live g t then [Written (cConn cl) (d1 @ d2)] else [ConnClosed (cConn cl)]) xs)
      = map (\<lambda>cl. if cConn cl \<in> live g t then Written (cConn cl) (d1 @ d2) else ConnClosed (cConn cl)) xs" for xs
    by (induction xs) auto
  then show ?thesis unfolding BroadcastByZone_def layer.send_or_close by blast
qed

lemma live_transport:
  assumes "gw_inv e l g" "c \<in> live g (transportOf e c)"
  shows "(c \<in> live g t) = (t = transportOf e c)"
proof -
  have "\<forall>c\<in>live g t. transportOf e c = t" using assms(1) by (simp add: gw_inv_def lease_inv_def)
  then show ?thesis using assms(2) by metis
qed

definition ss_client_frame :: "SSPacket \<Rightarrow> bytes" where
  "ss_client_frame p = CSPacketHeader_ToBytes \<lparr>csVersion = 0, csPassCode = 0, csSeq = 0, csUid = Uid (Header p),
     csAppVersion = 0, csCmd = Cmd (Header p), csBodyLen = BodyLen (Header p)\<rparr> @ Body p"

definition tries_before :: "transport \<Rightarrow> nat" where
  "tries_before t = (case t of Tcp \<Rightarrow> 0 | Ws \<Rightarrow> 1 | Kcp \<Rightarrow> 2)"

text \<open>C27: A server packet disconnects every client that is not on TCP: in any state the gateway can
  reach, a packet for a uid bound on WebSocket or KCP first closes that client's connection, once or
  twice, because the TCP layer (and the WebSocket layer for a KCP client) finds the client in the
  shared hub, fails to write and closes the connection; only then the packet is queued. A client on TCP
  just gets the packet. In the same way a broadcast writes to the WebSocket clients and closes the
  connection of every other client.\<close>

theorem server_packet_closes_foreign:
  assumes "gw_valid e (gw_init l) ops"
  defines "g \<equiv> gw_run e (gw_init l) ops"
  assumes "IsClientCmd (Cmd (Header p))" and "uidConnMap (hub g) (Uid (Header p)) = Some cl"
    and "cConn cl \<in> live g (transportOf e (cConn cl))"
  shows "onRecvSSPacket e p (\<lambda>_. True) g
      = replicate (tries_before (transportOf e (cConn cl))) (ConnClosed (cConn cl))
        @ [Written (cConn cl) (ss_client_frame p)]
    \<and> (transportOf e (cConn cl) \<noteq> Ws \<and> Uid (Header p) \<in> set order \<longrightarrow>
        ConnClosed (cConn cl) \<in> set (Broadcast sender cmd body order (\<lambda>_. True) g))"
proof -
  let ?c = "cConn cl"
  have inv: "gw_inv e l g"
    unfolding g_def using gw.valid_run_inv [OF gw_init_inv] assms(1) by blast
  note own = live_transport [OF inv assms(5)]
  have "onRecvSSPacket e p (\<lambda>_. True) g
      = replicate (tries_before (transportOf e ?c)) (ConnClosed ?c) @ [Written ?c (ss_client_frame p)]"
    unfolding onRecvSSPacket_def Let_def SendByUid_to [OF assms(4)] own ss_client_frame_def tries_before_def
    using assms(3) by (cases "transportOf e ?c") (simp_all add: numeral_2_eq_2)
  moreover have bc: "ConnClosed ?c \<in> set (Broadcast sender cmd body order (\<lambda>_. True) g)"
    if "transportOf e ?c \<noteq> Ws" "Uid (Header p) \<in> set order"
  proof -
    have "cl \<in> set (SnapshotByZone order 0 (hub g))"
      using assms(4) that(2) by (force simp: SnapshotByZone_def List.map_filter_def)
    moreover have "?c \<notin> live g Ws" using own that(1) by auto
    ultimately show ?thesis unfolding Broadcast_def BroadcastByZone_to by force
  qed
  ultimately show ?thesis by (intro conjI impI) (blast intro: bc)+
qed

definition sample_ws :: gateway where
  "sample_ws = gw_run sample_net (gw_init sample_limits)
     [Accept 2 True, Packet 2 (packet_of 5 1 0x20001 []) True True True]"

lemma sample_ws_valid:
  "gw_valid sample_net (gw_init sample_limits)
     [Accept 2 True, Packet 2 (packet_of 5 1 0x20001 []) True True True]"
  by (simp add: gw_eval sample_limits_def)

lemma sample_ws_state:
  "uidConnMap (hub sample_ws) 5 = Some \<lparr>cUid = 5, cZone = 1, cConn = 2,
      cIp = IpStringToInt ''10.0.0.1'', cPort = word_of_int (Atoi (Itoa 2)), cRemoteAddr = remoteAddr sample_net 2\<rparr>"
  "2 \<in> live sample_ws (transportOf sample_net 2)"
  by (simp_all add: sample_ws_def gw_eval sample_limits_def)

definition sample_push :: SSPacket where
  "sample_push = \<lparr>Header = sample_header\<lparr>Uid := 5, Cmd := 0x20001\<rparr>, Body = [1, 2]\<rparr>"

theorem server_packet_closes_foreign_witness:
  "onRecvSSPacket sample_net sample_push (\<lambda>_. True) sample_ws
     = [ConnClosed 2, Written 2 (ss_client_frame sample_push)]"
proof -
  have p: "IsClientCmd (Cmd (Header sample_push))" "Uid (Header sample_push) = 5"
    by (simp_all add: sample_push_def IsClientCmd_def MsgTypeInCmd_def)
  have "tries_before (transportOf sample_net 2) = 1"
    by (simp add: tries_before_def sample_net_def)
  then show ?thesis
    using server_packet_closes_foreign [OF sample_ws_valid p(1), folded sample_ws_def] sample_ws_state
    by (simp add: p)
qed

text \<open>A kick through one transport does nothing to a connection of another: the old connection of a
  uid that logs in again on another transport stays open, and an internal kick-out (which goes through
  the WebSocket layer) of a TCP client only leaves its mark, which then suppresses the logout request
  when the connection ends by itself.\<close>

lemma kick_foreign: "c \<notin> live g t \<Longrightarrow> kick e t c uid reason r1 r2 g = []"
  by (simp add: kick_def transport_Close_def WriteData_def split: option.splits)

lemma kick_own:
  assumes "c \<in> live g t" "marshalKickOut e reason = Some m"
  shows "\<exists>frame. kick e t c uid reason True True g = [Written c frame, CloseQueued c]"
  using assms by (simp add: kick_def transport_Close_def WriteData_def)

lemma rebind_across_transports:
  assumes "uidConnMap (hub g) uid = Some old" "cConn old \<notin> live g t"
  shows "fst (snd (UpdateClientByUid e t c uid zone r1 r2 g)) = []"
proof -
  obtain res h tk where b: "BindClient e c uid zone (hub g, tracker g) = (res, h, tk)"
    using prod_cases3 by blast
  have "snd x = Some old" if "res = Inr x" for x
    using b assms(1) that
    by (auto simp: BindClient_def BindClient_locked_def Let_def split: option.splits if_splits)
  then show ?thesis using b assms(2)
    by (cases res) (auto simp: UpdateClientByUid_def Let_def kick_foreign)
qed

lemma KickOut_foreign:
  assumes "remoteAddrConnMap (hub g) a = Some c" "c \<notin> live g Ws"
  shows "KickOut e uid reason a r1 r2 g = (g\<lparr>hub := MarkKick a (hub g)\<rparr>, [])"
  using assms by (simp add: KickOut_def KickByRemoteAddr_def ConnByRemoteAddr_def Let_def kick_foreign)

lemma marked_end_silent:
  assumes "remoteAddrKickMap h (remoteAddr e c) = Some True"
  shows "RemoveConn e c (h, t) = (r, h', t') \<Longrightarrow> fst r = 0 \<or> snd r"
  using assms
  by (cases "connUidMap h c"; cases "uidConnMap h (the (connUidMap h c))")
    (auto simp: RemoveConn_def RemoveConn_locked_def Let_def split: if_splits)

text \<open>The request of a client that moved to a new connection is forwarded with the address of its old
  one, and it is forwarded also when the new binding was refused because the gateway drains.\<close>

lemma rebind_forwards_old_address:
  assumes "CSPacketHeader_From data = Some ph" "IsClientCmd (csCmd ph)" "csUid ph \<noteq> 0"
    and "uidConnMap (hub g) (csUid ph) = Some old" "cConn old \<noteq> c"
  shows "last (snd (handleClientPacket e t c data allow r1 r2 g))
    = forward ph (drop ByteLenOfCSPacketHeader data) old"
  using assms by (simp add: handleClientPacket_def Let_def IsInnerCmd_def GetClientByUid_def split: prod.splits)

text \<open>The unauthenticated-connection limit of the configuration has no effect on what the transports
  ask; in shadow mode a connection over the limit holds no place but gives one back when it ends.\<close>

lemma unauthenticated_limit_unused:
  "map_prod reservedConns id (TryAcquireConnection acc allow
      (a\<lparr>limits := (limits a)\<lparr>MaxUnauthenticatedConnections := n\<rparr>\<rparr>))
   = map_prod reservedConns id (TryAcquireConnection acc allow a)"
  by (simp add: TryAcquireConnection_def enabled_def admitOrReject_def)

lemma shadow_drift:
  defines "l \<equiv> sample_limits\<lparr>OverloadMode := ''shadow''\<rparr>"
  shows "map_option reservedConns (admission (gw_run sample_net (gw_init l) [Accept 1 True, Accept 2 True, ConnEnd 2])) = Some 0
    \<and> admitted_count (gw_run sample_net (gw_init l) [Accept 1 True, Accept 2 True, ConnEnd 2]) = 1"
  by (simp add: l_def gw_eval sample_limits_def admitted_count_def) (simp add: sample_net_def)

text \<open>The counters are changed after the lock of the hub is released. Two connections of one uid and
  the end of the second one can overtake the first one's \<open>IncSession\<close>: the decrement finds zero and is
  ignored, the increment comes after it, and the count stays at one with no uid bound.\<close>

lemma count_race:
  fixes cl1 cl2 :: Client
  assumes "cConn cl2 = 2" "accepting h" "uidConnMap h 5 = None" "connUidMap h 2 = None"
    and h1: "BindClient_locked e 1 5 cl1 h = Some (o1, new1, h1)"
    and h2: "BindClient_locked e 2 5 cl2 h1 = Some (o2, new2, h2)"
    and h3: "RemoveConn_locked e 2 h2 = (r, dec, h3)"
  shows "new1 \<and> \<not> new2 \<and> dec \<and> uidConnMap h3 5 = None
    \<and> sessions (IncSession (DecSession NewSessionTracker)) = 1"
  using assms
  by (auto simp: BindClient_locked_def RemoveConn_locked_def Let_def IncSession_def DecSession_def
      decCAS_def NewSessionTracker_def split: if_splits)

section \<open>Requests in flight (admission\_mw.go)\<close>

text \<open>The middleware around a handler: \<open>Enter\<close> is the part before the handler runs, \<open>Leave\<close> the deferred
  release. The ghost multiset holds the methods of the handlers that are running.\<close>

definition method_limit :: "(string \<rightharpoonup> int) \<Rightarrow> string \<Rightarrow> int" where
  "method_limit maxPerMethod m =
     (case maxPerMethod m of None \<Rightarrow> 0 | Some k \<Rightarrow> if k > 0 then k else 0)"

datatype mw_op = Enter string | Leave string

fun mw_exec :: "int \<Rightarrow> (string \<rightharpoonup> int) \<Rightarrow> AdmissionController \<times> string multiset \<Rightarrow> mw_op
    \<Rightarrow> AdmissionController \<times> string multiset" where
  "mw_exec maxInflight lim (a, running) (Enter m) =
     (if maxInflight > 0 \<or> method_limit lim m > 0 then
        (case TryAcquireInflight m maxInflight (method_limit lim m) a of
           (a', False) \<Rightarrow> (a', running)
         | (a', True) \<Rightarrow> (a', add_mset m running))
      else (a, add_mset m running))"
| "mw_exec maxInflight lim (a, running) (Leave m) =
     (if maxInflight > 0 \<or> method_limit lim m > 0 then (ReleaseInflight m a, running - {#m#})
      else (a, running - {#m#}))"

fun mw_can :: "AdmissionController \<times> string multiset \<Rightarrow> mw_op \<Rightarrow> bool" where
  "mw_can s (Enter m) = True"
| "mw_can s (Leave m) = (m \<in># snd s)"

definition mw_inv :: "int \<Rightarrow> (string \<rightharpoonup> int) \<Rightarrow> AdmissionController \<times> string multiset \<Rightarrow> bool" where
  "mw_inv maxInflight lim s \<longleftrightarrow> OverloadMode (limits (fst s)) = ''enforce''
     \<and> inflight (fst s) = int (size (snd s)) \<and> inflight (fst s) \<le> maxInflight
     \<and> (\<forall>m. case methodInflight (fst s) m of
              None \<Rightarrow> 0 < method_limit lim m \<longrightarrow> m \<notin># snd s
            | Some k \<Rightarrow> 0 < method_limit lim m \<and> k = int (count (snd s) m) \<and> k \<le> method_limit lim m)"

lemma mw_enter_inv:
  assumes "0 < maxInflight" "mw_inv maxInflight lim (a, running)"
  shows "mw_inv maxInflight lim (mw_exec maxInflight lim (a, running) (Enter m))"
proof (cases "maxInflight \<le> inflight a")
  case True
  then show ?thesis using assms by (simp add: TryAcquireInflight_def admitOrReject_def mw_inv_def)
next
  case False
  let ?L = "method_limit lim m"
  show ?thesis
  proof (cases "0 < ?L")
    case False
    then have "methodInflight a m = None"
      using assms(2) by (cases "methodInflight a m") (auto simp: mw_inv_def dest!: spec [of _ m])
    then show ?thesis using False assms \<open>\<not> maxInflight \<le> inflight a\<close>
      by (auto simp: TryAcquireInflight_def mw_inv_def split: option.splits)
  next
    case True
    define cur where "cur = (case methodInflight a m of None \<Rightarrow> 0 | Some k \<Rightarrow> k)"
    have cur: "cur = int (count running m)"
      using assms(2) True by (auto simp: mw_inv_def cur_def not_in_iff split: option.splits)
    have other: "(case methodInflight a m' of
              None \<Rightarrow> 0 < method_limit lim m' \<longrightarrow> m' \<notin># running
            | Some k \<Rightarrow> 0 < method_limit lim m' \<and> k = int (count running m') \<and> k \<le> method_limit lim m')" for m'
      using assms(2) unfolding mw_inv_def fst_conv snd_conv by blast
    have step: "mw_exec maxInflight lim (a, running) (Enter m) =
      (if ?L \<le> cur
       then (a\<lparr>methodInflight := (methodInflight a)(m \<mapsto> cur)\<rparr>, running)
       else (a\<lparr>inflight := inflight a + 1, methodInflight := (methodInflight a)(m \<mapsto> cur + 1)\<rparr>, add_mset m running))"
      using True \<open>\<not> maxInflight \<le> inflight a\<close> assms
      by (auto simp: TryAcquireInflight_def methodCounter_def cur_def Let_def admitOrReject_def mw_inv_def fun_upd_idem
          split: option.splits)
    have "int (count running m) \<le> ?L"
      using other [of m] True by (cases "methodInflight a m") (auto simp: not_in_iff)
    then show ?thesis
      using True \<open>\<not> maxInflight \<le> inflight a\<close> assms(2) other cur
      unfolding step mw_inv_def by (auto split: option.splits)
  qed
qed

lemma mw_leave_inv:
  assumes "mw_inv maxInflight lim (a, running)" "0 < maxInflight" "m \<in># running"
  shows "mw_inv maxInflight lim (mw_exec maxInflight lim (a, running) (Leave m))"
proof -
  obtain rest where r: "running = add_mset m rest" using assms(3) by (metis mset_add)
  show ?thesis
  proof (cases "methodInflight a m")
    case None
    then show ?thesis using assms
      by (auto simp: r ReleaseInflight_def mw_inv_def split: option.splits if_splits)
  next
    case (Some k)
    have k: "k = int (count rest m) + 1" "0 < method_limit lim m" "k \<le> method_limit lim m"
      using assms(1) Some by (auto simp: r mw_inv_def dest!: spec [of _ m])
    show ?thesis using assms k Some by (auto simp: r ReleaseInflight_def mw_inv_def Let_def split: option.splits)
  qed
qed

interpretation mw: guarded_invariant "mw_exec maxInflight lim" mw_can
  "\<lambda>s. 0 < maxInflight \<and> mw_inv maxInflight lim s"
proof
  fix s a
  assume "0 < maxInflight \<and> mw_inv maxInflight lim s" "mw_can s a"
  then show "0 < maxInflight \<and> mw_inv maxInflight lim (mw_exec maxInflight lim s a)"
    by (cases s; cases a) (auto simp: mw_enter_inv mw_leave_inv simp del: mw_exec.simps)
qed

text \<open>C28: Requests in flight stay within their limits: with a positive global limit under \<open>enforce\<close>, for
  every sequence of entering and returning handlers the counter is the number of handlers that run and
  at most the global limit, no method with a limit of its own has more running handlers than that
  limit, and no counter is made for a method without one.\<close>

theorem inflight_bounded:
  assumes "0 < maxInflight" and "OverloadMode l = ''enforce''"
    and "valid_run (mw_exec maxInflight lim) mw_can (NewAdmissionController l, {#}) ops"
  defines "s \<equiv> foldl (mw_exec maxInflight lim) (NewAdmissionController l, {#}) ops"
  shows "inflight (fst s) = int (size (snd s)) \<and> int (size (snd s)) \<le> maxInflight
    \<and> (0 < method_limit lim m \<longrightarrow> int (count (snd s) m) \<le> method_limit lim m)
    \<and> (methodInflight (fst s) m \<noteq> None \<longrightarrow> 0 < method_limit lim m)"
proof -
  have "mw_inv maxInflight lim (NewAdmissionController l, {#})"
    using assms(1,2) by (simp add: mw_inv_def NewAdmissionController_def)
  then have "mw_inv maxInflight lim s"
    unfolding s_def using mw.valid_run_inv assms(1,3) by blast
  then show ?thesis
    by (auto simp: mw_inv_def not_in_iff dest!: spec [of _ m] split: option.splits)
qed

theorem inflight_bounded_witness:
  "int (size (snd (foldl (mw_exec 2 [''a'' \<mapsto> 1]) (NewAdmissionController sample_limits, {#})
     [Enter ''a'', Enter ''a'', Enter ''b'', Enter ''c'', Leave ''a'']))) \<le> 2"
proof -
  have run: "valid_run (mw_exec 2 [''a'' \<mapsto> 1]) mw_can (NewAdmissionController sample_limits, {#})
     [Enter ''a'', Enter ''a'', Enter ''b'', Enter ''c'', Leave ''a'']"
    by (simp add: TryAcquireInflight_def ReleaseInflight_def methodCounter_def method_limit_def
        NewAdmissionController_def sample_limits_def admitOrReject_def)
  have "OverloadMode sample_limits = ''enforce''" by (simp add: sample_limits_def)
  from inflight_bounded [OF zero_less_numeral this run] show ?thesis by blast
qed

text \<open>In shadow mode a request over the limit is not counted, but its release is.\<close>

lemma shadow_inflight_drift:
  "inflight (fst (foldl (mw_exec 1 Map.empty)
     (NewAdmissionController (sample_limits\<lparr>OverloadMode := ''shadow''\<rparr>), {#}) [Enter ''a'', Enter ''a'', Leave ''a''])) = 0"
  by (simp add: TryAcquireInflight_def ReleaseInflight_def method_limit_def
      NewAdmissionController_def sample_limits_def admitOrReject_def)

end
