(* ===== verification/Routing.thy ===== *)
theory Routing
  imports Gateway SliceSort
begin

text \<open>
  Where a message goes and how: the consistent-hash ring (lib/service/svrinstmgr/consistent_hash.go),
  the manager of service instances (svr_inst_mgr.go) with its routing rules, and the router
  (lib/service/router/router.go) that picks an instance, writes the header and sends the frame or
  delivers the packet locally. \<open>crc32.ChecksumIEEE\<close> is written out; \<open>sort.Slice\<close> is the interface of
  \<open>SliceSort\<close>, once for ids and once for the points of a ring; the random index is an argument.
\<close>

section \<open>crc32.ChecksumIEEE\<close>

fun crc_bits :: "nat \<Rightarrow> 32 word \<Rightarrow> 32 word" where
  "crc_bits 0 c = c"
| "crc_bits (Suc n) c = crc_bits n (if c AND 1 = 1 then drop_bit 1 c XOR 0xEDB88320 else drop_bit 1 c)"

definition ChecksumIEEE :: "bytes \<Rightarrow> 32 word" where
  "ChecksumIEEE data = NOT (foldl (\<lambda>c b. crc_bits 8 (c XOR ucast b)) (NOT 0) data)"

section \<open>The ring (consistent\_hash.go)\<close>

record ringPoint =
  rhash :: "32 word"
  rnode :: "32 word"

record consistentHash =
  vnodes :: int
  ring :: "ringPoint list"

definition defaultConsistentHashVirtualNodes :: int where
  "defaultConsistentHashVirtualNodes = 50"

definition normalizeConsistentHashVirtualNodes :: "int \<Rightarrow> int" where
  "normalizeConsistentHashVirtualNodes n = (if n \<le> 0 then defaultConsistentHashVirtualNodes else n)"

text \<open>The two uses of \<open>sort.Slice\<close>.\<close>

record sorts =
  sort_ids :: "(32 word \<Rightarrow> 32 word \<Rightarrow> bool) \<Rightarrow> 32 word list \<Rightarrow> 32 word list"
  sort_points :: "(ringPoint \<Rightarrow> ringPoint \<Rightarrow> bool) \<Rightarrow> ringPoint list \<Rightarrow> ringPoint list"

definition Uint32SliceDeduplicateSorted :: "32 word list \<Rightarrow> 32 word list" where
  "Uint32SliceDeduplicateSorted s =
     (if length s \<le> 1 then s
      else foldl (\<lambda>out x. if x \<noteq> last out then out @ [x] else out) [hd s] (tl s))"

definition vnode_hash :: "32 word \<Rightarrow> int \<Rightarrow> 32 word" where
  "vnode_hash n i = ChecksumIEEE (rev (PutUint32 n) @ rev (PutUint32 (word_of_int i)))"

definition resetSorted :: "sorts \<Rightarrow> 32 word list \<Rightarrow> consistentHash \<Rightarrow> consistentHash" where
  "resetSorted so nodes h =
     (if nodes = [] then h\<lparr>ring := []\<rparr>
      else let points = concat (map (\<lambda>n. map (\<lambda>i. \<lparr>rhash = vnode_hash n i, rnode = n\<rparr>) [0..vnodes h - 1]) nodes)
           in h\<lparr>ring := sort_points so (\<lambda>a b. rhash a < rhash b) points\<rparr>)"

definition reset :: "sorts \<Rightarrow> 32 word list \<Rightarrow> consistentHash \<Rightarrow> consistentHash" where
  "reset so nodes h =
     (if nodes = [] then h\<lparr>ring := []\<rparr>
      else resetSorted so (Uint32SliceDeduplicateSorted (sort_ids so (<) nodes)) h)"

definition newConsistentHash :: "sorts \<Rightarrow> 32 word list \<Rightarrow> int \<Rightarrow> consistentHash" where
  "newConsistentHash so nodes n =
     reset so nodes \<lparr>vnodes = normalizeConsistentHashVirtualNodes n, ring = []\<rparr>"

definition newConsistentHashSorted :: "sorts \<Rightarrow> 32 word list \<Rightarrow> int \<Rightarrow> consistentHash" where
  "newConsistentHashSorted so nodes n =
     resetSorted so nodes \<lparr>vnodes = normalizeConsistentHashVirtualNodes n, ring = []\<rparr>"

function search_from :: "ringPoint list \<Rightarrow> 32 word \<Rightarrow> nat \<Rightarrow> nat \<Rightarrow> nat" where
  "search_from r hash lo hi =
     (if lo < hi then
        let mid = lo + (hi - lo) div 2
        in if rhash (r ! mid) < hash then search_from r hash (mid + 1) hi
           else search_from r hash lo mid
      else lo)"
  by auto
termination by (relation "measure (\<lambda>(r, hash, lo, hi). hi - lo)") auto

declare search_from.simps [simp del]

definition search :: "consistentHash \<Rightarrow> 32 word \<Rightarrow> nat" where
  "search h hash = search_from (ring h) hash 0 (length (ring h))"

definition key_hash :: "64 word \<Rightarrow> 32 word" where
  "key_hash key = ChecksumIEEE (rev (PutUint64 key))"

definition ring_get :: "consistentHash \<Rightarrow> 64 word \<Rightarrow> 32 word" where
  "ring_get h key =
     (if ring h = [] then 0
      else let idx = search h (key_hash key);
               idx = (if idx = length (ring h) then 0 else idx)
           in rnode (ring h ! idx))"

subsection \<open>The binary search\<close>

definition ring_sorted :: "ringPoint list \<Rightarrow> bool" where
  "ring_sorted r \<longleftrightarrow> (\<forall>i j. i < j \<and> j < length r \<longrightarrow> rhash (r ! i) \<le> rhash (r ! j))"

lemma search_from_bounds:
  assumes "ring_sorted r" "lo \<le> hi" "hi \<le> length r"
    and "\<forall>i<lo. rhash (r ! i) < hash" "\<forall>i. hi \<le> i \<and> i < length r \<longrightarrow> hash \<le> rhash (r ! i)"
  shows "search_from r hash lo hi \<le> length r
    \<and> (\<forall>i < search_from r hash lo hi. rhash (r ! i) < hash)
    \<and> (\<forall>i. search_from r hash lo hi \<le> i \<and> i < length r \<longrightarrow> hash \<le> rhash (r ! i))"
  using assms
proof (induction r hash lo hi rule: search_from.induct)
  case (1 r hash lo hi)
  show ?case
  proof (cases "lo < hi")
    case True
    define mid where "mid = lo + (hi - lo) div 2"
    have mid: "lo \<le> mid" "mid < hi" using True by (auto simp: mid_def)
    have step: "search_from r hash lo hi =
        (if rhash (r ! mid) < hash then search_from r hash (mid + 1) hi else search_from r hash lo mid)"
      using True by (subst search_from.simps) (simp add: mid_def Let_def)
    have le: "rhash (r ! i) \<le> rhash (r ! j)" if "i \<le> j" "j < length r" for i j
      using 1(3) that by (cases "i = j") (auto simp: ring_sorted_def)
    show ?thesis
    proof (cases "rhash (r ! mid) < hash")
      case c: True
      have low: "\<forall>i<mid + 1. rhash (r ! i) < hash"
      proof (intro allI impI)
        fix i assume "i < mid + 1"
        then have "rhash (r ! i) \<le> rhash (r ! mid)" using le [of i mid] mid 1(5) by simp
        then show "rhash (r ! i) < hash" using c by simp
      qed
      have "mid + 1 \<le> hi" using mid by simp
      from 1(1) [OF True mid_def c 1(3) this 1(5) low 1(7)] show ?thesis
        unfolding step if_P [OF c] .
    next
      case c: False
      have up: "\<forall>i. mid \<le> i \<and> i < length r \<longrightarrow> hash \<le> rhash (r ! i)"
        using le [of mid] c by (meson leI order_trans)
      have "mid \<le> length r" using mid 1(5) by simp
      from 1(2) [OF True mid_def c 1(3) mid(1) this 1(6) up] show ?thesis
        unfolding step if_not_P [OF c] .
    qed
  next
    case False
    then have "search_from r hash lo hi = lo" by (subst search_from.simps) simp
    then show ?thesis using 1(4-7) False by auto
  qed
qed

lemma search_spec:
  assumes "ring_sorted (ring h)"
  shows "search h hash \<le> length (ring h) \<and> (\<forall>i < search h hash. rhash (ring h ! i) < hash)
    \<and> (\<forall>i. search h hash \<le> i \<and> i < length (ring h) \<longrightarrow> hash \<le> rhash (ring h ! i))"
  unfolding search_def by (rule search_from_bounds [OF assms]) auto

subsection \<open>Which node serves a key\<close>

text \<open>The specification: the point with the least hash that is not below the hash of the key, or, when
  there is none, the point with the least hash of all.\<close>

definition serves :: "ringPoint set \<Rightarrow> 32 word \<Rightarrow> 32 word \<Rightarrow> bool" where
  "serves S hash n \<longleftrightarrow> (\<exists>p\<in>S. rnode p = n
     \<and> (hash \<le> rhash p \<and> (\<forall>q\<in>S. hash \<le> rhash q \<longrightarrow> rhash p \<le> rhash q)
        \<or> (\<forall>q\<in>S. rhash q < hash) \<and> (\<forall>q\<in>S. rhash p \<le> rhash q)))"

definition no_ties :: "ringPoint set \<Rightarrow> bool" where
  "no_ties S \<longleftrightarrow> (\<forall>p\<in>S. \<forall>q\<in>S. rhash p = rhash q \<longrightarrow> rnode p = rnode q)"

definition ring_points :: "int \<Rightarrow> 32 word set \<Rightarrow> ringPoint set" where
  "ring_points v nodes = (\<Union>n\<in>nodes. (\<lambda>i. \<lparr>rhash = vnode_hash n i, rnode = n\<rparr>) ` {0..<v})"

lemma serves_unique:
  assumes "no_ties S" "serves S hash n" "serves S hash m"
  shows "n = m"
proof -
  obtain p q where p: "p \<in> S" "rnode p = n" and q: "q \<in> S" "rnode q = m"
    and "rhash p \<le> rhash q" "rhash q \<le> rhash p"
    using assms(2,3) unfolding serves_def by (meson leD)
  then show ?thesis using assms(1) unfolding no_ties_def by (metis order_antisym)
qed

lemma serves_subset:
  assumes "serves S hash n" "T \<subseteq> S" "\<And>p. p \<in> S \<Longrightarrow> rnode p = n \<Longrightarrow> p \<in> T"
  shows "serves T hash n"
proof -
  obtain p where p: "p \<in> S" "rnode p = n"
    and w: "hash \<le> rhash p \<and> (\<forall>q\<in>S. hash \<le> rhash q \<longrightarrow> rhash p \<le> rhash q)
      \<or> (\<forall>q\<in>S. rhash q < hash) \<and> (\<forall>q\<in>S. rhash p \<le> rhash q)"
    using assms(1) unfolding serves_def by blast
  then show ?thesis unfolding serves_def using assms(2,3) by (intro bexI [of _ p]) blast+
qed

lemma ring_get_serves:
  assumes "ring_sorted (ring h)" "ring h \<noteq> []"
  shows "serves (set (ring h)) (key_hash key) (ring_get h key)"
proof -
  let ?k = "key_hash key" and ?r = "ring h" and ?i = "search h (key_hash key)"
  note s = search_spec [OF assms(1), of ?k]
  have le: "rhash (?r ! i) \<le> rhash (?r ! j)" if "i \<le> j" "j < length ?r" for i j
    using assms(1) that by (cases "i = j") (auto simp: ring_sorted_def)
  show ?thesis
  proof (cases "?i = length ?r")
    case True
    have low: "rhash q < ?k" "rhash (?r ! 0) \<le> rhash q" if "q \<in> set ?r" for q
      using that s le [of 0] by (auto simp: in_set_conv_nth True)
    have "ring_get h key = rnode (?r ! 0)" using assms(2) by (simp add: ring_get_def True)
    then show ?thesis unfolding serves_def
      using assms(2) low by (intro bexI [of _ "?r ! 0"]) auto
  next
    case False
    then have i: "?i < length ?r" using s by simp
    have "rhash (?r ! ?i) \<le> rhash q" if "q \<in> set ?r" "?k \<le> rhash q" for q
    proof -
      obtain j where j: "j < length ?r" "q = ?r ! j" using \<open>q \<in> set ?r\<close> by (auto simp: in_set_conv_nth)
      then have "?i \<le> j" using s that(2) by (meson leD not_le)
      then show ?thesis using le j by simp
    qed
    moreover have "ring_get h key = rnode (?r ! ?i)" using assms(2) False by (simp add: ring_get_def)
    moreover have "?k \<le> rhash (?r ! ?i)" using s i by blast
    ultimately show ?thesis unfolding serves_def using i by (intro bexI [of _ "?r ! ?i"]) auto
  qed
qed

subsection \<open>The points of a ring\<close>

lemma ring_sorted_by: "sorted_by (\<lambda>a b. rhash a < rhash b) r = ring_sorted r"
  by (auto simp: sorted_by_def ring_sorted_def sorted_wrt_iff_nth_less not_less)

lemma resetSorted_ring:
  assumes "slice_sort (sort_points so)" "nodes \<noteq> []"
  shows "set (ring (resetSorted so nodes h)) = ring_points (vnodes h) (set nodes)"
    and "ring_sorted (ring (resetSorted so nodes h))"
  using assms slice_sort.sort_set [OF assms(1)] slice_sort.sort_sorted [OF assms(1) strict_weak_key [of rhash]]
  by (auto simp: resetSorted_def Let_def ring_points_def ring_sorted_by)

lemma dedup_foldl:
  "out \<noteq> [] \<Longrightarrow> foldl (\<lambda>out x. if x \<noteq> last out then out @ [x] else out) out xs
     = butlast out @ remdups_adj (last out # xs)"
proof (induction xs arbitrary: out)
  case (Cons x xs)
  then show ?case
    using append_butlast_last_id [OF Cons.prems] by (cases "x = last out") auto
qed simp

lemma dedup: "Uint32SliceDeduplicateSorted s = remdups_adj s"
proof (cases "length s \<le> 1")
  case True
  then show ?thesis by (cases s) (auto simp: Uint32SliceDeduplicateSorted_def)
next
  case False
  then show ?thesis using dedup_foldl [of "[hd s]" "tl s"]
    by (cases s) (auto simp: Uint32SliceDeduplicateSorted_def)
qed

lemma sorted_by_less: "sorted_by (<) (xs :: 'a::linorder list) = sorted xs"
  by (simp add: sorted_by_def not_less)

lemma sorted_ids:
  assumes "slice_sort (sort_ids so)"
  shows "sorted (sort_ids so (<) xs)" "set (sort_ids so (<) xs) = set xs"
  using slice_sort.sort_set [OF assms] slice_sort.sort_sorted [OF assms strict_weak_key [of "\<lambda>x. x"]]
  by (simp_all add: sorted_by_less)

lemma sorted_distinct_adj: "sorted xs \<Longrightarrow> distinct_adj xs \<Longrightarrow> distinct (xs :: 'a::linorder list)"
proof (induction xs)
  case (Cons x xs)
  then have "distinct xs" by (cases xs) simp_all
  moreover have "x \<notin> set xs"
  proof (cases xs)
    case (Cons y ys)
    then have "x < y" using Cons.prems by (auto simp: order.strict_iff_order)
    then show ?thesis using Cons \<open>sorted (x # xs)\<close> by auto
  qed simp
  ultimately show ?case by simp
qed simp

lemma canonical_ids:
  assumes "slice_sort (sort_ids so)"
  shows "Uint32SliceDeduplicateSorted (sort_ids so (<) xs) = sorted_list_of_set (set xs)"
proof -
  have "sorted (remdups_adj (sort_ids so (<) xs))" using sorted_ids [OF assms] by (simp add: sorted_remdups_adj)
  moreover from sorted_ids(1) [OF assms] have "distinct (remdups_adj (sort_ids so (<) xs))"
    by (simp add: sorted_distinct_adj)
  ultimately show ?thesis using sorted_ids(2) [OF assms]
    by (intro sorted_distinct_set_unique) (auto simp: dedup)
qed

definition sorts_ok :: "sorts \<Rightarrow> bool" where
  "sorts_ok so \<longleftrightarrow> slice_sort (sort_ids so) \<and> slice_sort (sort_points so)"

definition go_sorts :: sorts where
  "go_sorts = \<lparr>sort_ids = insertionSort, sort_points = insertionSort\<rparr>"

lemma go_sorts_ok: "sorts_ok go_sorts"
  by (simp add: sorts_ok_def go_sorts_def go_sort.slice_sort_axioms)

lemma newConsistentHash_sorted:
  assumes "sorts_ok so"
  shows "newConsistentHash so nodes v = newConsistentHashSorted so (sorted_list_of_set (set nodes)) v"
proof (cases "nodes = []")
  case False
  then show ?thesis using assms canonical_ids [of so nodes]
    by (simp add: newConsistentHash_def newConsistentHashSorted_def reset_def sorts_ok_def)
qed (simp add: newConsistentHash_def newConsistentHashSorted_def reset_def resetSorted_def)

lemma points_empty: "0 < v \<Longrightarrow> ring_points v N = {} \<Longrightarrow> N = {}"
  by (auto simp: ring_points_def)

lemma newConsistentHash_serves:
  assumes "sorts_ok so" "nodes \<noteq> []" "0 < v"
  shows "serves (ring_points v (set nodes)) (key_hash key) (ring_get (newConsistentHash so nodes v) key)"
proof -
  let ?h0 = "\<lparr>vnodes = v, ring = []\<rparr>" and ?ns = "sorted_list_of_set (set nodes)"
  have h: "newConsistentHash so nodes v = resetSorted so ?ns ?h0"
    using assms(3) by (simp add: newConsistentHash_sorted [OF assms(1)] newConsistentHashSorted_def
        normalizeConsistentHashVirtualNodes_def)
  have ne: "?ns \<noteq> []" using assms(2) by simp
  note r = resetSorted_ring [OF _ ne, of so ?h0, unfolded sorts_ok_def]
  have "set (ring (resetSorted so ?ns ?h0)) = ring_points v (set nodes)"
    "ring_sorted (ring (resetSorted so ?ns ?h0))"
    using r assms(1) by (simp_all add: sorts_ok_def)
  moreover from this have "ring (resetSorted so ?ns ?h0) \<noteq> []"
    using points_empty [OF assms(3), of "set nodes"] assms(2) by auto
  ultimately show ?thesis unfolding h using ring_get_serves by metis
qed


lemma serves_member: "serves (ring_points v N) hash n \<Longrightarrow> n \<in> N"
  by (auto simp: serves_def ring_points_def)

lemma ring_get_member:
  "sorts_ok so \<Longrightarrow> nodes \<noteq> [] \<Longrightarrow> 0 < v \<Longrightarrow> ring_get (newConsistentHash so nodes v) key \<in> set nodes"
  using serves_member [OF newConsistentHash_serves] .

text \<open>Evaluating checksums by rewriting.\<close>

definition crc_step :: "32 word \<Rightarrow> 32 word" where
  "crc_step c = (if c AND 1 = 1 then drop_bit 1 c XOR 0xEDB88320 else drop_bit 1 c)"

lemma crc8: "crc_bits 8 c
    = crc_step (crc_step (crc_step (crc_step (crc_step (crc_step (crc_step (crc_step c)))))))"
  by (simp add: eval_nat_numeral crc_step_def)

lemma word_neg_numeral: "(- numeral n :: 32 word) = word_of_int (4294967296 - numeral n)"
proof -
  have "(4294967296 :: 32 word) = 0" by simp
  then show ?thesis by (simp only: of_int_diff of_int_numeral diff_0)
qed

lemma crc_step_eval:
  "crc_step 0 = 0" "crc_step 1 = 0xEDB88320" "crc_step (- 1) = 0x92477CDF"
  "crc_step (numeral (num.Bit0 n)) = drop_bit 1 (numeral (num.Bit0 n))"
  "crc_step (numeral (num.Bit1 n)) = drop_bit 1 (numeral (num.Bit1 n)) XOR 0xEDB88320"
  by (simp_all add: crc_step_def mask_eq_exp_minus_1)

lemma crc_step_neg: "crc_step (- numeral n) = crc_step (word_of_int (4294967296 - numeral n))"
  by (simp only: word_neg_numeral)

lemma be_enc_4: "be_enc 4 v =
    [word_of_nat (v div 16777216), word_of_nat (v div 65536), word_of_nat (v div 256), word_of_nat v]"
proof -
  have four: "(4::nat) = Suc (Suc (Suc (Suc 0)))" by simp
  show ?thesis unfolding four be_enc.simps by simp
qed

lemma be_enc_8: "be_enc 8 v = be_enc 4 (v div 4294967296) @ be_enc 4 v"
proof -
  have eight: "(8::nat) = Suc (Suc (Suc (Suc 4)))" by simp
  show ?thesis unfolding eight be_enc.simps be_enc_4 by (simp add: div_mult2_eq [symmetric])
qed

lemmas crc_eval = crc8 crc_step_eval crc_step_neg

lemma sample_hashes: "vnode_hash 1 0 = 2844319735" "vnode_hash 2 0 = 654825492" "key_hash 5 = 767742221"
  by (simp_all add: vnode_hash_def key_hash_def ChecksumIEEE_def PutUint32_def PutUint64_def be_enc_8 be_enc_4)
    (simp_all add: crc_eval)

lemma sample_ring: "ring_get (newConsistentHash go_sorts [1, 2] 1) 5 = 1"
  by (simp add: newConsistentHash_def normalizeConsistentHashVirtualNodes_def reset_def resetSorted_def
      go_sorts_def insertionSort_def Uint32SliceDeduplicateSorted_def sample_hashes ring_get_def search_def
      search_from.simps Let_def)

lemma sample_no_ties: "no_ties (ring_points 1 (set [1, 2]))"
proof -
  have "{0..<1::int} = {0}" by auto
  then show ?thesis by (simp add: no_ties_def ring_points_def sample_hashes)
qed


section \<open>The instances of the services (svr\_inst\_mgr.go)\<close>

definition SvrRouterRule_Random :: "32 word" where "SvrRouterRule_Random = 1"
definition SvrRouterRule_Hash_UID :: "32 word" where "SvrRouterRule_Hash_UID = 2"
definition SvrRouterRule_Hash_ZoneID :: "32 word" where "SvrRouterRule_Hash_ZoneID = 3"
definition SvrRouterRule_Hash_RouterID :: "32 word" where "SvrRouterRule_Hash_RouterID = 4"
definition SvrRouterRule_IoCache_RouterID :: "32 word" where "SvrRouterRule_IoCache_RouterID = 5"
definition SvrRouterRule_Master :: "32 word" where "SvrRouterRule_Master = 6"
definition SvrRouterRule_ConsistentHash_UID :: "32 word" where "SvrRouterRule_ConsistentHash_UID = 7"
definition SvrRouterRule_ConsistentHash_ZoneID :: "32 word" where "SvrRouterRule_ConsistentHash_ZoneID = 8"
definition SvrRouterRule_ConsistentHash_RouterID :: "32 word" where "SvrRouterRule_ConsistentHash_RouterID = 9"

lemmas router_rules = SvrRouterRule_Random_def SvrRouterRule_Hash_UID_def SvrRouterRule_Hash_ZoneID_def
  SvrRouterRule_Hash_RouterID_def SvrRouterRule_IoCache_RouterID_def SvrRouterRule_Master_def
  SvrRouterRule_ConsistentHash_UID_def SvrRouterRule_ConsistentHash_ZoneID_def
  SvrRouterRule_ConsistentHash_RouterID_def

text \<open>A type without an entry in \<open>mapSvrTypeToIns\<close> reads as the empty slice.\<close>

record ServerInstanceMgr =
  routeRules :: "32 word \<rightharpoonup> 32 word"
  mapSvrTypeToIns :: "32 word \<Rightarrow> 32 word list"
  consistentHashRing :: "32 word \<rightharpoonup> consistentHash"

definition shouldBuildConsistentHashRing :: "32 word \<Rightarrow> bool" where
  "shouldBuildConsistentHashRing rule \<longleftrightarrow> rule = SvrRouterRule_IoCache_RouterID
     \<or> rule = SvrRouterRule_ConsistentHash_UID \<or> rule = SvrRouterRule_ConsistentHash_ZoneID
     \<or> rule = SvrRouterRule_ConsistentHash_RouterID"

text \<open>\<open>services\<close> are the ids the registry reports, \<^const>\<open>None\<close> for a nil entry.\<close>

definition collected :: "string option list \<Rightarrow> 32 word \<Rightarrow> 32 word list" where
  "collected services t =
     (let children = List.map_filter (\<lambda>si. si) services;
          parsed = map (\<lambda>child. case ParseBusID child of (busID, _, _, severType, _) \<Rightarrow> (severType, busID)) children
      in map snd (filter (\<lambda>p. fst p = t) parsed))"

definition refreshServices :: "sorts \<Rightarrow> string option list \<Rightarrow> ServerInstanceMgr \<Rightarrow> ServerInstanceMgr" where
  "refreshServices so services s =
     (let ins = (\<lambda>t. Uint32SliceDeduplicateSorted (sort_ids so (<) (collected services t)))
      in s\<lparr>mapSvrTypeToIns := ins,
           consistentHashRing := (\<lambda>k. if collected services k \<noteq> [] \<and>
               shouldBuildConsistentHashRing (case routeRules s k of None \<Rightarrow> 0 | Some r \<Rightarrow> r)
             then Some (newConsistentHashSorted so (ins k) defaultConsistentHashVirtualNodes) else None)\<rparr>)"

text \<open>\<open>rnd n\<close> is what \<open>rand.Int31n(n)\<close> returns.\<close>

definition getSvrInsByRandom :: "(nat \<Rightarrow> nat) \<Rightarrow> ServerInstanceMgr \<Rightarrow> 32 word \<Rightarrow> 32 word" where
  "getSvrInsByRandom rnd s t =
     (let svrs = mapSvrTypeToIns s t in if svrs = [] then 0 else svrs ! rnd (length svrs))"

definition getSvrInsByConsistentHash :: "sorts \<Rightarrow> ServerInstanceMgr \<Rightarrow> 32 word \<Rightarrow> 64 word \<Rightarrow> 32 word" where
  "getSvrInsByConsistentHash so s t key =
     (let svrs = mapSvrTypeToIns s t
      in if svrs = [] then 0
         else case consistentHashRing s t of
                Some h \<Rightarrow> ring_get h key
              | None \<Rightarrow> ring_get (newConsistentHash so svrs defaultConsistentHashVirtualNodes) key)"

definition getSvrInsByHash :: "ServerInstanceMgr \<Rightarrow> 32 word \<Rightarrow> 64 word \<Rightarrow> 32 word" where
  "getSvrInsByHash s t i =
     (let svrs = mapSvrTypeToIns s t in if svrs = [] then 0 else svrs ! (unat i mod length svrs))"

definition getSvrInsByMaster :: "ServerInstanceMgr \<Rightarrow> 32 word \<Rightarrow> 32 word" where
  "getSvrInsByMaster s t = (let svrs = mapSvrTypeToIns s t in if svrs = [] then 0 else svrs ! 0)"

definition GetAllSvrInsBySvrType :: "ServerInstanceMgr \<Rightarrow> 32 word \<Rightarrow> 32 word list" where
  "GetAllSvrInsBySvrType s t = mapSvrTypeToIns s t"

definition GetSvrInsBySvrType ::
    "sorts \<Rightarrow> (nat \<Rightarrow> nat) \<Rightarrow> ServerInstanceMgr \<Rightarrow> 32 word \<Rightarrow> 32 word \<Rightarrow> 64 word \<Rightarrow> 64 word \<Rightarrow> 32 word \<times> 64 word" where
  "GetSvrInsBySvrType so rnd s serverType zone uid routerId =
     (case routeRules s serverType of
        None \<Rightarrow> (0, 0)
      | Some rule \<Rightarrow>
          if rule = SvrRouterRule_Random then (getSvrInsByRandom rnd s serverType, uid)
          else if rule = SvrRouterRule_Hash_UID then (getSvrInsByHash s serverType uid, uid)
          else if rule = SvrRouterRule_Hash_ZoneID then (getSvrInsByHash s serverType (ucast zone), ucast zone)
          else if rule = SvrRouterRule_Hash_RouterID then (getSvrInsByHash s serverType routerId, routerId)
          else if rule = SvrRouterRule_IoCache_RouterID then
            (getSvrInsByConsistentHash so s serverType routerId, routerId)
          else if rule = SvrRouterRule_ConsistentHash_UID then
            (getSvrInsByConsistentHash so s serverType uid, uid)
          else if rule = SvrRouterRule_ConsistentHash_ZoneID then
            (getSvrInsByConsistentHash so s serverType (ucast zone), ucast zone)
          else if rule = SvrRouterRule_ConsistentHash_RouterID then
            (getSvrInsByConsistentHash so s serverType routerId, routerId)
          else if rule = SvrRouterRule_Master then (getSvrInsByMaster s serverType, uid)
          else (0, 0))"

subsection \<open>What the manager promises\<close>

text \<open>The specification of the table: the distinct ids of the online services whose third byte is the
  type, in increasing order.\<close>

definition online :: "string set \<Rightarrow> 32 word \<Rightarrow> 32 word list" where
  "online ids t = sorted_list_of_set {b. \<exists>child\<in>ids. \<exists>w z i. ParseBusID child = (b, w, z, t, i)}"

definition reported :: "string option list \<Rightarrow> string set" where
  "reported services = {child. Some child \<in> set services}"

lemma map_filter_reported: "set (List.map_filter (\<lambda>si. si) services) = reported services"
  by (auto simp: reported_def List.map_filter_def) force

lemma collected_set:
  "set (collected services t) = {b. \<exists>child\<in>reported services. \<exists>w z i. ParseBusID child = (b, w, z, t, i)}"
  by (force simp: collected_def Let_def map_filter_reported split: prod.splits)

lemma collected_online:
  assumes "sorts_ok so"
  shows "Uint32SliceDeduplicateSorted (sort_ids so (<) (collected services t)) = online (reported services) t"
  using assms canonical_ids [of so "collected services t"] by (simp add: sorts_ok_def online_def collected_set)

lemma online_empty: "(online (reported services) t = []) = (collected services t = [])"
proof -
  have "online (reported services) t = sorted_list_of_set (set (collected services t))"
    by (simp add: online_def collected_set)
  then show ?thesis by simp
qed

lemma refresh_instances:
  "sorts_ok so \<Longrightarrow> mapSvrTypeToIns (refreshServices so services s) t = online (reported services) t"
  by (simp add: refreshServices_def Let_def collected_online)

lemma refresh_rings:
  "sorts_ok so \<Longrightarrow> consistentHashRing (refreshServices so services s) t
    = (if online (reported services) t \<noteq> []
          \<and> shouldBuildConsistentHashRing (case routeRules s t of None \<Rightarrow> 0 | Some r \<Rightarrow> r)
       then Some (newConsistentHashSorted so (online (reported services) t) defaultConsistentHashVirtualNodes)
       else None)"
  by (simp add: refreshServices_def Let_def collected_online online_empty)

text \<open>A key is resolved by the ring whether it was built by the refresh or is built on the spot.\<close>

lemma resolve_ring:
  assumes "sorts_ok so" "mapSvrTypeToIns s t = online (reported services) t"
    and "consistentHashRing s t = None \<or> consistentHashRing s t =
       Some (newConsistentHashSorted so (online (reported services) t) defaultConsistentHashVirtualNodes)"
  shows "getSvrInsByConsistentHash so s t key = (if mapSvrTypeToIns s t = [] then 0
    else ring_get (newConsistentHash so (mapSvrTypeToIns s t) defaultConsistentHashVirtualNodes) key)"
proof -
  have "newConsistentHash so (online (reported services) t) v = newConsistentHashSorted so (online (reported services) t) v" for v
    by (simp add: newConsistentHash_sorted [OF assms(1)] online_def
        sorted_list_of_set.idem_if_sorted_distinct)
  then show ?thesis using assms(2,3) by (auto simp: getSvrInsByConsistentHash_def Let_def)
qed

text \<open>A message is routed to an online instance of its type, and the choice depends only on who is
  online: after the registry reported a set of services, in any order and with repetitions, the
  instances of a type are the distinct ids with that type in increasing order; a rule of the
  configuration picks one of them (or 0 when there is none, or no rule); two processes with the same
  rules that saw the same set pick the same instance for the same keys, under every rule but the random
  one; and the routing key returned is the one the rule hashes.\<close>

theorem routing_contract:
  fixes s0 :: ServerInstanceMgr
  assumes "sorts_ok so" and "rnd n < n \<or> n = 0" and "n = length (online (reported seen) t)"
  defines "s \<equiv> refreshServices so seen s0"
  shows "mapSvrTypeToIns s t = online (reported seen) t
    \<and> (fst (GetSvrInsBySvrType so rnd s t zone uid rid) = 0
        \<or> fst (GetSvrInsBySvrType so rnd s t zone uid rid) \<in> set (online (reported seen) t))
    \<and> (reported seen' = reported seen \<and> routeRules s0' = routeRules s0
         \<and> routeRules s0 t \<noteq> Some SvrRouterRule_Random \<longrightarrow>
       GetSvrInsBySvrType so rnd' (refreshServices so seen' s0') t zone uid rid
         = GetSvrInsBySvrType so rnd s t zone uid rid)
    \<and> snd (GetSvrInsBySvrType so rnd s t zone uid rid) \<in> {0, uid, ucast zone, rid}"
proof -
  have ins: "mapSvrTypeToIns s t = online (reported seen) t"
    unfolding s_def by (rule refresh_instances [OF assms(1)])
  have res: "getSvrInsByConsistentHash so s t key = (if mapSvrTypeToIns s t = [] then 0
      else ring_get (newConsistentHash so (mapSvrTypeToIns s t) defaultConsistentHashVirtualNodes) key)" for key
    using refresh_rings [OF assms(1), of seen s0 t] ins unfolding s_def
    by (intro resolve_ring [OF assms(1), of _ t seen]) (auto split: if_splits)
  have ch: "getSvrInsByConsistentHash so s t key = 0
      \<or> getSvrInsByConsistentHash so s t key \<in> set (online (reported seen) t)" for key
    using ring_get_member [OF assms(1), of "online (reported seen) t" defaultConsistentHashVirtualNodes key]
    by (auto simp: res ins defaultConsistentHashVirtualNodes_def)
  have pick: "fst (GetSvrInsBySvrType so rnd s t zone uid rid) = 0
        \<or> fst (GetSvrInsBySvrType so rnd s t zone uid rid) \<in> set (online (reported seen) t)"
    using ch ins assms(2,3)
    by (auto simp: GetSvrInsBySvrType_def getSvrInsByRandom_def getSvrInsByHash_def getSvrInsByMaster_def Let_def
        split: option.splits)
  have same: "GetSvrInsBySvrType so rnd' (refreshServices so seen' s0') t zone uid rid
         = GetSvrInsBySvrType so rnd s t zone uid rid"
    if "reported seen' = reported seen" "routeRules s0' = routeRules s0"
      "routeRules s0 t \<noteq> Some SvrRouterRule_Random"
  proof -
    let ?s' = "refreshServices so seen' s0'"
    have "mapSvrTypeToIns ?s' t = mapSvrTypeToIns s t" "consistentHashRing ?s' t = consistentHashRing s t"
      using that refresh_instances [OF assms(1)] refresh_rings [OF assms(1)] by (simp_all add: s_def)
    moreover have "routeRules ?s' t = routeRules s t" "routeRules s t = routeRules s0 t"
      using that by (simp_all add: s_def refreshServices_def Let_def)
    ultimately show ?thesis
      using that(3) by (simp add: GetSvrInsBySvrType_def getSvrInsByHash_def getSvrInsByMaster_def
          getSvrInsByConsistentHash_def Let_def split: option.splits)
  qed
  have "snd (GetSvrInsBySvrType so rnd s t zone uid rid) \<in> {0, uid, ucast zone, rid}"
    by (simp add: GetSvrInsBySvrType_def split: option.splits)
  then show ?thesis using ins pick same by blast
qed

definition sample_mgr :: ServerInstanceMgr where
  "sample_mgr = \<lparr>routeRules = [2 \<mapsto> SvrRouterRule_Hash_UID], mapSvrTypeToIns = (\<lambda>_. []),
     consistentHashRing = Map.empty\<rparr>"

theorem routing_contract_witness:
  "GetSvrInsBySvrType go_sorts (\<lambda>n. 0)
      (refreshServices go_sorts [Some ''1.1.2.1'', Some ''1.1.2.2'', Some ''1.1.2.1''] sample_mgr) 2 1 5 0
   = GetSvrInsBySvrType go_sorts (\<lambda>n. 0)
      (refreshServices go_sorts [Some ''1.1.2.2'', None, Some ''1.1.2.1''] sample_mgr) 2 1 5 0"
proof -
  have "(0 :: nat) < length (online (reported [Some ''1.1.2.2'', None, Some ''1.1.2.1'']) 2)
      \<or> length (online (reported [Some ''1.1.2.2'', None, Some ''1.1.2.1'']) 2) = 0" by blast
  moreover have "reported [Some ''1.1.2.1'', Some ''1.1.2.2'', Some ''1.1.2.1'']
      = reported [Some ''1.1.2.2'', None, Some ''1.1.2.1'']"
    by (auto simp: reported_def)
  moreover have "routeRules sample_mgr 2 \<noteq> Some SvrRouterRule_Random"
    by (simp add: sample_mgr_def router_rules)
  ultimately show ?thesis
    using routing_contract [OF go_sorts_ok _ refl, of "\<lambda>n. 0" "[Some ''1.1.2.2'', None, Some ''1.1.2.1'']" 2
        sample_mgr] by blast
qed

section \<open>The router (router.go)\<close>

text \<open>\<open>bus\<close> is the own id when a bus is connected, \<open>receiver\<close> whether a callback is set.\<close>

record Router =
  bus :: "32 word option"
  receiver :: bool
  shuttingDown :: bool
  instanceMgr :: ServerInstanceMgr

datatype rt_error = NotInitialized | BusSendFailed | NoInstance | ShortMessage

text \<open>What a call does: a packet handed to the callback, or a frame given to the bus driver, which
  assembles it in a buffer of its pool.\<close>

datatype rt_event = Delivered SSPacket | BusSend "32 word" bytes bytes

definition router_SelfBusId :: "Router \<Rightarrow> 32 word" where
  "router_SelfBusId r = (case bus r of None \<Rightarrow> 0 | Some b \<Rightarrow> b)"

definition SelfSvrType :: "Router \<Rightarrow> 32 word" where
  "SelfSvrType r = drop_bit 8 (router_SelfBusId r) AND 0xff"

text \<open>The callback is called and returns before \<open>SendMsg\<close> does, so a local packet is delivered in the
  order of the calls. \<open>ok\<close> is whether the bus accepts the frame.\<close>

definition SendMsg :: "bool \<Rightarrow> Router \<Rightarrow> SSPacketHeader \<Rightarrow> bytes \<Rightarrow> rt_event list \<times> rt_error option" where
  "SendMsg ok r header body =
     (if bus r = Some (DstBusID header) then
        (if receiver r then [Delivered \<lparr>Header = header, Body = body\<rparr>] else [], None)
      else case bus r of
        None \<Rightarrow> ([], Some NotInitialized)
      | Some _ \<Rightarrow>
          let headerBuf = replicate 86 0;
              headerBuf = (case SSPacketHeader_To header headerBuf of None \<Rightarrow> headerBuf | Some b \<Rightarrow> b)
          in ([BusSend (DstBusID header) headerBuf body], if ok then None else Some BusSendFailed))"

definition bus_header ::
    "32 word \<Rightarrow> 32 word \<Rightarrow> 32 word \<Rightarrow> 64 word \<Rightarrow> 32 word \<Rightarrow> 64 word \<Rightarrow> nat \<Rightarrow> 16 word \<Rightarrow> 32 word \<Rightarrow> SSPacketHeader" where
  "bus_header src dst srcTransId uid cmd routerKey len seq zone =
     \<lparr>SrcBusID = src, DstBusID = dst, SrcTransID = srcTransId, DstTransID = 0, Uid = uid, RouterID = routerKey,
      Cmd = cmd, Zone = zone, Ip = 0, Flag = 0, BodyLen = word_of_nat len, CmdSeq = seq,
      TraceID = replicate 16 0, SpanID = replicate 8 0, DeadlineUnixMs = 0\<rparr>"

definition SendMsgByBusIdTraced ::
    "bool \<Rightarrow> Router \<Rightarrow> TraceContext \<Rightarrow> 32 word \<Rightarrow> 64 word \<Rightarrow> 64 word \<Rightarrow> 32 word \<Rightarrow> 32 word \<Rightarrow> 16 word \<Rightarrow> 32 word \<Rightarrow> bytes
       \<Rightarrow> rt_event list \<times> rt_error option" where
  "SendMsgByBusIdTraced ok r tc busId routerKey uid zone cmd sendSeq srcTransId data =
     (if busId = 0 then ([], Some NoInstance)
      else SendMsg ok r
        (ApplyTo tc (bus_header (router_SelfBusId r) busId srcTransId uid cmd routerKey (length data) sendSeq zone)) data)"

definition SendMsgByBusId ::
    "bool \<Rightarrow> Router \<Rightarrow> 32 word \<Rightarrow> 64 word \<Rightarrow> 64 word \<Rightarrow> 32 word \<Rightarrow> 32 word \<Rightarrow> 16 word \<Rightarrow> 32 word \<Rightarrow> bytes
       \<Rightarrow> rt_event list \<times> rt_error option" where
  "SendMsgByBusId ok r busId routerKey uid zone cmd sendSeq srcTransId data =
     (if busId = 0 then ([], Some NoInstance)
      else SendMsg ok r
        (bus_header (router_SelfBusId r) busId srcTransId uid cmd routerKey (length data) sendSeq zone) data)"

definition SendMsgBySvrType ::
    "sorts \<Rightarrow> (nat \<Rightarrow> nat) \<Rightarrow> bool \<Rightarrow> Router \<Rightarrow> 32 word \<Rightarrow> 64 word \<Rightarrow> 64 word \<Rightarrow> 32 word \<Rightarrow> 32 word \<Rightarrow> 16 word \<Rightarrow> 32 word
       \<Rightarrow> bytes \<Rightarrow> rt_event list \<times> rt_error option" where
  "SendMsgBySvrType so rnd ok r svrType routerId uid zone cmd sendSeq srcTransId data =
     (case GetSvrInsBySvrType so rnd (instanceMgr r) svrType zone uid routerId of
        (dstBusId, routerKey) \<Rightarrow>
          if dstBusId = 0 then ([], Some NoInstance)
          else SendMsgByBusId ok r dstBusId routerKey uid zone cmd sendSeq srcTransId data)"

definition ServerTypeInCmd :: "32 word \<Rightarrow> 32 word" where
  "ServerTypeInCmd cmd = drop_bit 16 cmd AND 0xff"

text \<open>The trace of a client request starts here; \<open>tid\<close> and \<open>sid\<close> are the new random ids.\<close>

definition SendMsgByConn ::
    "sorts \<Rightarrow> (nat \<Rightarrow> nat) \<Rightarrow> bytes \<Rightarrow> bytes \<Rightarrow> bool \<Rightarrow> Router \<Rightarrow> 64 word \<Rightarrow> 64 word \<Rightarrow> 32 word \<Rightarrow> 32 word \<Rightarrow> 32 word
       \<Rightarrow> bytes \<Rightarrow> 32 word \<Rightarrow> 32 word \<Rightarrow> rt_event list \<times> rt_error option" where
  "SendMsgByConn so rnd tid sid ok r uid routerId zone cmd srcTransId data ip port =
     (case GetSvrInsBySvrType so rnd (instanceMgr r) (ServerTypeInCmd cmd) zone uid routerId of
        (dstBusId, routerKey) \<Rightarrow>
          if dstBusId = 0 then ([], Some NoInstance)
          else SendMsg ok r
            ((bus_header (router_SelfBusId r) dstBusId srcTransId uid cmd routerKey (length data) 0 zone)
               \<lparr>Ip := ip, Flag := port, TraceID := tid, SpanID := sid\<rparr>) data)"

fun broadcast_loop ::
    "(32 word \<Rightarrow> bool) \<Rightarrow> Router \<Rightarrow> 64 word \<Rightarrow> 32 word \<Rightarrow> 16 word \<Rightarrow> bytes \<Rightarrow> 32 word list \<Rightarrow> rt_error option
       \<Rightarrow> rt_event list \<times> rt_error option" where
  "broadcast_loop ok r uid cmd seq data [] firstErr = ([], firstErr)"
| "broadcast_loop ok r uid cmd seq data (inst # rest) firstErr =
     (case SendMsgByBusId (ok inst) r inst 0 uid 1 cmd seq 0 data of
        (ev, err) \<Rightarrow>
          case broadcast_loop ok r uid cmd seq data rest
                 (if err \<noteq> None \<and> firstErr = None then err else firstErr) of
            (evs, res) \<Rightarrow> (ev @ evs, res))"

definition BroadcastMsgByServerType ::
    "(32 word \<Rightarrow> bool) \<Rightarrow> Router \<Rightarrow> 32 word \<Rightarrow> 64 word \<Rightarrow> 32 word \<Rightarrow> 16 word \<Rightarrow> bytes \<Rightarrow> rt_event list \<times> rt_error option" where
  "BroadcastMsgByServerType ok r svrType uid cmd sendSeq data =
     (let instances = GetAllSvrInsBySvrType (instanceMgr r) svrType
      in if instances = [] then ([], Some NoInstance)
         else broadcast_loop ok r uid cmd sendSeq data instances None)"

definition onRecvBusMsg :: "Router \<Rightarrow> bytes \<Rightarrow> rt_event list \<times> rt_error option" where
  "onRecvBusMsg r data =
     (if length data < ByteLenOfSSPacketHeader then ([], Some ShortMessage)
      else case SSPacketHeader_From data of
             None \<Rightarrow> ([], Some ShortMessage)
           | Some h \<Rightarrow>
               (if receiver r then [Delivered \<lparr>Header = h, Body = drop ByteLenOfSSPacketHeader data\<rparr>] else [], None))"

definition SendMsgBack :: "bool \<Rightarrow> Router \<Rightarrow> SSPacketHeader \<Rightarrow> 32 word \<Rightarrow> bytes \<Rightarrow> rt_event list" where
  "SendMsgBack ok r originalHeader srcTransId body =
     fst (SendMsg ok r
       (originalHeader\<lparr>DstBusID := SrcBusID originalHeader, SrcBusID := router_SelfBusId r,
          DstTransID := SrcTransID originalHeader, SrcTransID := srcTransId, Cmd := Cmd originalHeader + 1,
          BodyLen := word_of_nat (length body)\<rparr>) body)"

definition SendMsgBackWithCmd :: "bool \<Rightarrow> Router \<Rightarrow> SSPacketHeader \<Rightarrow> 32 word \<Rightarrow> 32 word \<Rightarrow> bytes \<Rightarrow> rt_event list" where
  "SendMsgBackWithCmd ok r originalHeader srcTransId cmd body =
     fst (SendMsg ok r
       (originalHeader\<lparr>DstBusID := SrcBusID originalHeader, SrcBusID := router_SelfBusId r,
          DstTransID := SrcTransID originalHeader, SrcTransID := srcTransId, Cmd := cmd,
          BodyLen := word_of_nat (length body)\<rparr>) body)"

subsection \<open>From one process to another\<close>

text \<open>What a driver does with a frame of router \<open>r\<close> that is addressed to router \<open>r'\<close>: \<open>pool n\<close> is the
  recycled buffer of length \<open>n\<close> in which the frame is assembled.\<close>

definition carried :: "(nat \<Rightarrow> bytes) \<Rightarrow> Router \<Rightarrow> Router \<Rightarrow> rt_event \<Rightarrow> SSPacket list" where
  "carried pool r r' ev =
     (case ev of
        Delivered p \<Rightarrow> []
      | BusSend dst d1 d2 \<Rightarrow>
          if bus r' \<noteq> Some dst then []
          else case bus_receive (BuildFrame (pool (HeaderLen + length d1 + length d2))
                 (router_SelfBusId r) dst d1 d2) of
                 None \<Rightarrow> []
               | Some (src, data) \<Rightarrow>
                   List.map_filter (\<lambda>e. case e of Delivered p \<Rightarrow> Some p | _ \<Rightarrow> None) (fst (onRecvBusMsg r' data)))"

lemma SendMsg_remote:
  assumes "bus r = Some self" "DstBusID h \<noteq> self" "ss_header_wf h"
  shows "SendMsg ok r h body = ([BusSend (DstBusID h) (ss_layout h) body], if ok then None else Some BusSendFailed)"
  using assms SSPacketHeader_To_layout [OF assms(3), of "replicate 86 0"]
  by (simp add: SendMsg_def Let_def)

lemma onRecvBusMsg_layout:
  assumes "ss_header_wf h" "receiver r"
  shows "onRecvBusMsg r (ss_layout h @ body) = ([Delivered \<lparr>Header = h, Body = body\<rparr>], None)"
  using assms SSPacketHeader_From_layout [OF assms(1)] length_ss_layout [OF assms(1)]
  by (simp add: onRecvBusMsg_def ByteLenOfSSPacketHeader_def)

lemma carried_packet:
  assumes "bus r = Some self" "bus r' = Some (DstBusID h)" "DstBusID h \<noteq> self" "receiver r'"
    and "ss_header_wf h" "\<And>n. length (pool n) = n"
  shows "concat (map (carried pool r r') (fst (SendMsg True r h body))) = [\<lparr>Header = h, Body = body\<rparr>]"
  using assms bus_frame_roundtrip [of "pool (HeaderLen + length (ss_layout h) + length body)" "ss_layout h" body]
  by (simp add: SendMsg_remote carried_def router_SelfBusId_def onRecvBusMsg_layout List.map_filter_def)

lemma delivered_locally:
  assumes "bus r = Some (DstBusID h)" "receiver r"
  shows "SendMsg ok r h body = ([Delivered \<lparr>Header = h, Body = body\<rparr>], None)"
  using assms by (simp add: SendMsg_def)

lemma bus_header_wf:
  "ss_header_wf (bus_header a b c d f i j k l)"
  "length tid = 16 \<Longrightarrow> length sid = 8 \<Longrightarrow>
     ss_header_wf ((bus_header a b c d f i j k l)\<lparr>Ip := m, Flag := n, TraceID := tid, SpanID := sid\<rparr>)"
  by (simp_all add: bus_header_def ss_header_wf_def)

text \<open>C29: A request and its answer make the round: a packet a TCP client sends on its bound connection
  is forwarded with its uid, command, zone, address and exactly its body; the router sends it to the
  instance the rule picks, whose process gets the packet unchanged whatever the recycled frame buffer
  held; and the answer that process sends back (with the next command) comes out of the gateway as one
  write to the same connection, with the uid, the command and exactly the answer's bytes.\<close>

theorem request_round_trip:
  fixes pool :: "nat \<Rightarrow> bytes"
  assumes "CSPacketHeader_From data = Some ph" and "csUid ph \<noteq> 0"
    and "IsClientCmd (csCmd ph)" and "IsClientCmd (csCmd ph + 1)"
    and "uidConnMap (hub g) (csUid ph) = Some cl" and "cConn cl \<in> live g Tcp"
    and "bus rg = Some gid" and "receiver rg" and "bus rs = Some sid" and "receiver rs"
    and "fst (GetSvrInsBySvrType so rnd (instanceMgr rg) (ServerTypeInCmd (csCmd ph)) (cZone cl)
           (csUid ph) (csUid ph)) = sid"
    and "sid \<noteq> 0" and "sid \<noteq> gid"
    and "length tid = 16" and "length spn = 8" and "\<And>n. length (pool n) = n"
  defines "body \<equiv> drop ByteLenOfCSPacketHeader data"
  shows "handleClientPacket e Tcp (cConn cl) data allow r1 r2 g
      = (g, [Forwarded (csUid ph) (cZone cl) (csCmd ph) body (cIp cl) (cPort cl)])
    \<and> (\<exists>p. concat (map (carried pool rg rs) (fst (SendMsgByConn so rnd tid spn True rg (csUid ph) (csUid ph)
             (cZone cl) (csCmd ph) 0 body (cIp cl) (cPort cl)))) = [p]
        \<and> Uid (Header p) = csUid ph \<and> Cmd (Header p) = csCmd ph \<and> Zone (Header p) = cZone cl
        \<and> Ip (Header p) = cIp cl \<and> Flag (Header p) = cPort cl \<and> SrcBusID (Header p) = gid \<and> Body p = body
        \<and> (\<exists>q. concat (map (carried pool rs rg) (SendMsgBack True rs (Header p) transId answer)) = [q]
            \<and> onRecvSSPacket e q (\<lambda>_. True) g = [Written (cConn cl) (CSPacketHeader_ToBytes
                 \<lparr>csVersion = 0, csPassCode = 0, csSeq = 0, csUid = csUid ph, csAppVersion = 0,
                  csCmd = csCmd ph + 1, csBodyLen = word_of_nat (length answer)\<rparr> @ answer)]))"
proof -
  have fwd: "handleClientPacket e Tcp (cConn cl) data allow r1 r2 g
      = (g, [Forwarded (csUid ph) (cZone cl) (csCmd ph) body (cIp cl) (cPort cl)])"
    using assms(1-3,5) by (simp add: handleClientPacket_def Let_def IsInnerCmd_def GetClientByUid_def
        forward_def body_def)
  obtain rk where pick: "GetSvrInsBySvrType so rnd (instanceMgr rg) (ServerTypeInCmd (csCmd ph)) (cZone cl)
      (csUid ph) (csUid ph) = (sid, rk)"
    using assms(11) by (metis prod.collapse)
  define h where "h = (bus_header gid sid 0 (csUid ph) (csCmd ph) rk (length body) 0 (cZone cl))
      \<lparr>Ip := cIp cl, Flag := cPort cl, TraceID := tid, SpanID := spn\<rparr>"
  have h: "DstBusID h = sid" "SrcBusID h = gid" "Uid h = csUid ph" "Cmd h = csCmd ph" "Zone h = cZone cl"
    "Ip h = cIp cl" "Flag h = cPort cl"
    by (simp_all add: h_def bus_header_def)
  have wf: "ss_header_wf h" unfolding h_def by (rule bus_header_wf(2) [OF assms(14,15)])
  have send: "SendMsgByConn so rnd tid spn True rg (csUid ph) (csUid ph) (cZone cl) (csCmd ph) 0 body
      (cIp cl) (cPort cl) = SendMsg True rg h body"
    using pick assms(7,12) by (simp add: SendMsgByConn_def h_def router_SelfBusId_def)
  have there: "concat (map (carried pool rg rs) (fst (SendMsg True rg h body))) = [\<lparr>Header = h, Body = body\<rparr>]"
    using assms(7,9,10,13,16) wf by (intro carried_packet) (simp_all add: h)
  define k where "k = h\<lparr>DstBusID := gid, SrcBusID := sid, DstTransID := SrcTransID h, SrcTransID := transId,
      Cmd := csCmd ph + 1, BodyLen := word_of_nat (length answer)\<rparr>"
  have rep: "SendMsgBack True rs h transId answer = fst (SendMsg True rs k answer)"
    using assms(9) by (simp add: SendMsgBack_def router_SelfBusId_def k_def h)
  have "ss_header_wf k" using wf by (simp add: k_def ss_header_wf_def)
  then have again: "concat (map (carried pool rs rg) (fst (SendMsg True rs k answer))) = [\<lparr>Header = k, Body = answer\<rparr>]"
    using assms(7-9,13,16) by (intro carried_packet) (auto simp: k_def)
  have out: "onRecvSSPacket e \<lparr>Header = k, Body = answer\<rparr> (\<lambda>_. True) g = [Written (cConn cl) (CSPacketHeader_ToBytes
                 \<lparr>csVersion = 0, csPassCode = 0, csSeq = 0, csUid = csUid ph, csAppVersion = 0,
                  csCmd = csCmd ph + 1, csBodyLen = word_of_nat (length answer)\<rparr> @ answer)]"
    using assms(4-6) by (simp add: onRecvSSPacket_def Let_def SendByUid_to k_def h)
  show ?thesis
    using fwd there again out h unfolding send rep [symmetric]
    by (intro conjI exI [of _ "\<lparr>Header = h, Body = body\<rparr>"] exI [of _ "\<lparr>Header = k, Body = answer\<rparr>"]) simp_all
qed

definition sample_tcp :: gateway where
  "sample_tcp = gw_run sample_net (gw_init sample_limits)
     [Accept 1 True, Packet 1 (packet_of 5 1 0x20001 []) True True True]"

definition sample_client :: Client where
  "sample_client = \<lparr>cUid = 5, cZone = 1, cConn = 1, cIp = IpStringToInt ''10.0.0.1'',
     cPort = word_of_int (Atoi (Itoa 1)), cRemoteAddr = remoteAddr sample_net 1\<rparr>"

lemma sample_tcp_state:
  "uidConnMap (hub sample_tcp) 5 = Some sample_client" "cConn sample_client \<in> live sample_tcp Tcp"
  by (simp_all add: sample_tcp_def sample_client_def gw_eval sample_limits_def) (simp add: sample_net_def)

definition sample_router :: "32 word \<Rightarrow> Router" where
  "sample_router self = \<lparr>bus = Some self, receiver = True, shuttingDown = False,
     instanceMgr = \<lparr>routeRules = [2 \<mapsto> SvrRouterRule_Master], mapSvrTypeToIns = (\<lambda>_. [9]),
       consistentHashRing = Map.empty\<rparr>\<rparr>"

lemma sample_pick:
  "fst (GetSvrInsBySvrType go_sorts (\<lambda>_. 0) (instanceMgr (sample_router 3)) (ServerTypeInCmd 0x20001) z u i) = 9"
  by (simp add: sample_router_def ServerTypeInCmd_def GetSvrInsBySvrType_def router_rules getSvrInsByMaster_def)

theorem request_round_trip_witness:
  "handleClientPacket sample_net Tcp 1 (packet_of 5 1 0x20001 [9]) True True True sample_tcp
      = (sample_tcp, [Forwarded 5 1 0x20001 [9] (cIp sample_client) (cPort sample_client)])
   \<and> (\<exists>p. concat (map (carried (\<lambda>n. replicate n 7) (sample_router 3) (sample_router 9))
        (fst (SendMsgByConn go_sorts (\<lambda>_. 0) (replicate 16 1) (replicate 8 2) True (sample_router 3) 5 5
             1 0x20001 0 [9] (cIp sample_client) (cPort sample_client)))) = [p] \<and> Body p = [9])"
proof -
  define ph where "ph = \<lparr>csVersion = 0, csPassCode = 0, csSeq = 0, csUid = 5, csAppVersion = 1, csCmd = 0x20001,
      csBodyLen = (1 :: 32 word)\<rparr>"
  have data: "CSPacketHeader_From (packet_of 5 1 0x20001 [9]) = Some ph"
    by (simp add: packet_of_header ph_def)
  have c: "cConn sample_client = 1" "cZone sample_client = 1" by (simp_all add: sample_client_def)
  have cmd: "IsClientCmd (csCmd ph)" "IsClientCmd (csCmd ph + 1)" "csUid ph = 5" "csCmd ph = 0x20001"
    by (simp_all add: ph_def IsClientCmd_def MsgTypeInCmd_def)
  have b: "bus (sample_router 3) = Some 3" "bus (sample_router 9) = Some 9" "receiver (sample_router 3)"
    "receiver (sample_router 9)" by (simp_all add: sample_router_def)
  have u: "csUid ph \<noteq> 0" "(9 :: 32 word) \<noteq> 0" "(9 :: 32 word) \<noteq> 3" by (simp_all add: cmd)
  have st: "uidConnMap (hub sample_tcp) (csUid ph) = Some sample_client" by (simp add: cmd sample_tcp_state)
  have pk: "fst (GetSvrInsBySvrType go_sorts (\<lambda>_. 0) (instanceMgr (sample_router 3)) (ServerTypeInCmd (csCmd ph))
      (cZone sample_client) (csUid ph) (csUid ph)) = 9"
    by (simp only: cmd sample_pick)
  have len: "length (replicate 16 1 :: bytes) = 16" "length (replicate 8 2 :: bytes) = 8"
    "\<And>n. length (replicate n 7 :: bytes) = n" by simp_all
  show ?thesis
    using request_round_trip [OF data u(1) cmd(1,2) st sample_tcp_state(2) b(1,3,2,4) pk u(2,3) len,
        of sample_net True True True] unfolding c cmd packet_of_body by blast
qed

end
