(* ===== verification/Drops.thy ===== *)
theory Drops
  imports Inventory SliceSort
begin

text \<open>
  Random drops of the main server: drop groups and drop packages
  (src/mainsvr/role/drop_group.go), single drops (drop.go) and the weighted selection they use
  (src/module/drop/mymath.go). The tables are arguments. Random numbers come from a source
  \<open>intn i n\<close>, the answer of the \<open>i\<close>-th call \<open>rand.Intn(n)\<close>, of which only \<open>intn i n < n\<close> is known; the
  number of calls so far is passed along. \<open>rand.Intn\<close> panics when its bound is not positive.
\<close>

section \<open>Tables and random numbers\<close>

record DropGroupConfig =
  Subid :: int
  GType :: int
  GDropWay :: int
  DropType :: int
  DropCount :: int
  IsBan :: int
  DropRateMap :: "(int \<times> int) list"

record DropItemConfig =
  DropId :: int
  ItemId :: int
  ItemCount :: int
  DropWay :: int
  Probability :: int

text \<open>The two uses of \<open>sort.Slice\<close>, the tables and the random source. A Go map is the list of its
  entries in the order in which it is gone through.\<close>

record drop_env =
  GroupDropGroupByGroupid :: "int \<Rightarrow> DropGroupConfig option list"
  GetDropItemByDropId :: "int \<Rightarrow> DropItemConfig list"
  sort_rows :: "(DropGroupConfig \<Rightarrow> DropGroupConfig \<Rightarrow> bool) \<Rightarrow> DropGroupConfig list \<Rightarrow> DropGroupConfig list"
  sort_keys :: "(int \<Rightarrow> int \<Rightarrow> bool) \<Rightarrow> int list \<Rightarrow> int list"
  intn :: "nat \<Rightarrow> nat \<Rightarrow> nat"

definition drop_env_ok :: "drop_env \<Rightarrow> bool" where
  "drop_env_ok e \<longleftrightarrow> slice_sort (sort_rows e) \<and> slice_sort (sort_keys e) \<and> (\<forall>i n. 0 < n \<longrightarrow> intn e i n < n)
     \<and> (\<forall>g row. Some row \<in> set (GroupDropGroupByGroupid e g) \<longrightarrow> distinct (map fst (DropRateMap row)))"

definition dropWayProb :: int where "dropWayProb = 1"
definition dropWayFixed :: int where "dropWayFixed = 2"
definition dropWayWeight :: int where "dropWayWeight = 3"
definition dropTypeMultiply :: int where "dropTypeMultiply = 0"
definition dropGroupTypeCombo :: int where "dropGroupTypeCombo = 1"
definition dropItemWayAll :: int where "dropItemWayAll = 1"
definition dropItemWayRandom1 :: int where "dropItemWayRandom1 = 2"
definition dropItemWayWeight1 :: int where "dropItemWayWeight1 = 3"
definition dropItemWayIndep :: int where "dropItemWayIndep = 4"
definition maxDropNestDepth :: int where "maxDropNestDepth = 6"
definition maxDropExecuteCount :: int where "maxDropExecuteCount = 100"

record packDraw =
  dropID :: int
  mult :: int

section \<open>Random choices\<close>

definition probabilityHit :: "drop_env \<Rightarrow> int \<Rightarrow> nat \<Rightarrow> bool \<times> nat" where
  "probabilityHit e rate s =
     (if rate \<le> 0 then (False, s)
      else if rate \<ge> 10000 then (True, s)
      else (int (intn e s 10000) < rate, Suc s))"

definition rate_of :: "(int \<times> int) list \<Rightarrow> int \<Rightarrow> int" where
  "rate_of m k = (case map_of m k of None \<Rightarrow> 0 | Some v \<Rightarrow> v)"

definition sortedKeys :: "drop_env \<Rightarrow> (int \<times> int) list \<Rightarrow> int list" where
  "sortedKeys e m = sort_keys e (<) (map fst m)"

definition total_weight :: "(int \<times> int) list \<Rightarrow> int list \<Rightarrow> int" where
  "total_weight m keys = sum_list (map (\<lambda>k. if rate_of m k > 0 then rate_of m k else 0) keys)"

fun weighted_walk :: "(int \<times> int) list \<Rightarrow> int list \<Rightarrow> int \<Rightarrow> int option" where
  "weighted_walk m [] rr = None"
| "weighted_walk m (k # ks) rr =
     (if rate_of m k \<le> 0 then weighted_walk m ks rr
      else if rr - rate_of m k < 0 then Some k
      else weighted_walk m ks (rr - rate_of m k))"

definition weightedPickKey :: "drop_env \<Rightarrow> (int \<times> int) list \<Rightarrow> nat \<Rightarrow> int option \<times> nat" where
  "weightedPickKey e m s =
     (let keys = sortedKeys e m; total = total_weight m keys
      in if total \<le> 0 then (None, s)
         else (case weighted_walk m keys (int (intn e s (nat total))) of
                 Some k \<Rightarrow> (Some k, Suc s)
               | None \<Rightarrow> (Some (last keys), Suc s)))"

section \<open>Drop groups (drop\_group.go)\<close>

fun rootRow :: "DropGroupConfig option list \<Rightarrow> DropGroupConfig option \<Rightarrow> DropGroupConfig option" where
  "rootRow [] root = root"
| "rootRow (None # rows) root = rootRow rows root"
| "rootRow (Some r # rows) root =
     rootRow rows (case root of None \<Rightarrow> Some r | Some q \<Rightarrow> if Subid r < Subid q then Some r else Some q)"

definition enabledRowsSorted :: "drop_env \<Rightarrow> DropGroupConfig option list \<Rightarrow> DropGroupConfig list" where
  "enabledRowsSorted e rows =
     sort_rows e (\<lambda>a b. Subid a < Subid b) (filter (\<lambda>r. IsBan r = 0) (List.map_filter (\<lambda>r. r) rows))"

type_synonym picker = "int \<Rightarrow> nat \<Rightarrow> packDraw list \<times> nat"

fun pick_all :: "picker \<Rightarrow> int list \<Rightarrow> nat \<Rightarrow> packDraw list \<times> nat" where
  "pick_all pick [] s = ([], s)"
| "pick_all pick (k # ks) s =
     (case pick k s of (d, s1) \<Rightarrow> (case pick_all pick ks s1 of (ds, s2) \<Rightarrow> (d @ ds, s2)))"

fun pick_hits :: "drop_env \<Rightarrow> (int \<times> int) list \<Rightarrow> picker \<Rightarrow> int list \<Rightarrow> nat \<Rightarrow> packDraw list \<times> nat" where
  "pick_hits e m pick [] s = ([], s)"
| "pick_hits e m pick (k # ks) s =
     (case probabilityHit e (rate_of m k) s of
        (hit, s1) \<Rightarrow>
          (case (if hit then pick k s1 else ([], s1)) of
             (d, s2) \<Rightarrow> (case pick_hits e m pick ks s2 of (ds, s3) \<Rightarrow> (d @ ds, s3))))"

definition selectOnce :: "drop_env \<Rightarrow> picker \<Rightarrow> DropGroupConfig \<Rightarrow> bool \<Rightarrow> nat \<Rightarrow> packDraw list \<times> nat" where
  "selectOnce e sub row isLeaf s =
     (let pick = (\<lambda>k s. if isLeaf then ([\<lparr>dropID = k, mult = 1\<rparr>], s) else sub k s)
      in if GDropWay row = dropWayFixed then pick_all pick (sortedKeys e (DropRateMap row)) s
         else if GDropWay row = dropWayProb then
           pick_hits e (DropRateMap row) pick (sortedKeys e (DropRateMap row)) s
         else if GDropWay row = dropWayWeight then
           (case weightedPickKey e (DropRateMap row) s of
              (None, s1) \<Rightarrow> ([], s1)
            | (Some k, s1) \<Rightarrow> pick k s1)
         else ([], s))"

fun select_times :: "drop_env \<Rightarrow> picker \<Rightarrow> DropGroupConfig \<Rightarrow> bool \<Rightarrow> nat \<Rightarrow> nat \<Rightarrow> packDraw list \<times> nat" where
  "select_times e sub row isLeaf 0 s = ([], s)"
| "select_times e sub row isLeaf (Suc n) s =
     (case selectOnce e sub row isLeaf s of
        (d, s1) \<Rightarrow> (case select_times e sub row isLeaf n s1 of (ds, s2) \<Rightarrow> (d @ ds, s2)))"

definition resolveRow :: "drop_env \<Rightarrow> picker \<Rightarrow> DropGroupConfig \<Rightarrow> bool \<Rightarrow> nat \<Rightarrow> packDraw list \<times> nat" where
  "resolveRow e sub row isLeaf s =
     (let n = (if DropCount row \<le> 0 then 1 else DropCount row)
      in if DropType row = dropTypeMultiply then
           (case selectOnce e sub row isLeaf s of
              (base, s1) \<Rightarrow>
                (if n > 1 then map (\<lambda>d. d\<lparr>mult := i32 (mult d * n)\<rparr>) base else base, s1))
         else select_times e sub row isLeaf (nat n) s)"

fun resolve_rows :: "drop_env \<Rightarrow> picker \<Rightarrow> bool \<Rightarrow> DropGroupConfig list \<Rightarrow> nat \<Rightarrow> packDraw list \<times> nat" where
  "resolve_rows e sub isLeaf [] s = ([], s)"
| "resolve_rows e sub isLeaf (row # rows) s =
     (case resolveRow e sub row isLeaf s of
        (d, s1) \<Rightarrow> (case resolve_rows e sub isLeaf rows s1 of (ds, s2) \<Rightarrow> (d @ ds, s2)))"

text \<open>The body of \<open>resolveGroup\<close>, with the picker of sub-groups as an argument.\<close>

definition resolve_with :: "drop_env \<Rightarrow> picker \<Rightarrow> int \<Rightarrow> nat \<Rightarrow> packDraw list \<times> nat" where
  "resolve_with e sub groupID s =
     (let rows = GroupDropGroupByGroupid e groupID
      in if rows = [] then ([], s)
         else case rootRow rows None of
           None \<Rightarrow> ([], s)
         | Some root \<Rightarrow>
             if IsBan root \<noteq> 0 then ([], s)
             else let enabled = enabledRowsSorted e rows
                  in if enabled = [] then ([], s)
                     else resolve_rows e sub (GType root \<noteq> dropGroupTypeCombo) enabled s)"

text \<open>\<open>pickKeyAsDraws\<close> recurses with the depth one greater; \<open>room\<close> is how far the depth is below
  \<open>maxDropNestDepth\<close>, so the recursion is structural.\<close>

primrec pick_in_room :: "nat \<Rightarrow> drop_env \<Rightarrow> int set \<Rightarrow> picker" where
  "pick_in_room 0 e visited k s =
     (if GroupDropGroupByGroupid e k = [] then ([\<lparr>dropID = k, mult = 1\<rparr>], s) else ([], s))"
| "pick_in_room (Suc room) e visited k s =
     (if GroupDropGroupByGroupid e k = [] then ([\<lparr>dropID = k, mult = 1\<rparr>], s)
      else if k \<in> visited then ([], s)
      else resolve_with e (pick_in_room room e (insert k visited)) k s)"

definition pickKeyAsDraws :: "drop_env \<Rightarrow> int \<Rightarrow> int set \<Rightarrow> picker" where
  "pickKeyAsDraws e depth visited = pick_in_room (nat (maxDropNestDepth - depth)) e visited"

definition resolveGroup :: "drop_env \<Rightarrow> int \<Rightarrow> int \<Rightarrow> int set \<Rightarrow> nat \<Rightarrow> packDraw list \<times> nat" where
  "resolveGroup e groupID depth visited s = resolve_with e (pickKeyAsDraws e depth visited) groupID s"

text \<open>These are the equations of the source.\<close>

lemma pickKeyAsDraws_code:
  "pickKeyAsDraws e depth visited k s =
     (if GroupDropGroupByGroupid e k = [] then ([\<lparr>dropID = k, mult = 1\<rparr>], s)
      else if depth \<ge> maxDropNestDepth then ([], s)
      else if k \<in> visited then ([], s)
      else resolveGroup e k (depth + 1) (insert k visited) s)"
proof (cases "depth \<ge> maxDropNestDepth")
  case False
  then have "nat (maxDropNestDepth - depth) = Suc (nat (maxDropNestDepth - (depth + 1)))" by simp
  then show ?thesis using False by (simp add: pickKeyAsDraws_def resolveGroup_def)
qed (simp add: pickKeyAsDraws_def)

section \<open>Packages\<close>

fun entries_hit :: "drop_env \<Rightarrow> DropItemConfig list \<Rightarrow> nat \<Rightarrow> DropItemConfig list \<times> nat" where
  "entries_hit e [] s = ([], s)"
| "entries_hit e (x # xs) s =
     (case probabilityHit e (Probability x) s of
        (hit, s1) \<Rightarrow> (case entries_hit e xs s1 of (ys, s2) \<Rightarrow> (if hit then x # ys else ys, s2)))"

fun entry_walk :: "DropItemConfig list \<Rightarrow> int \<Rightarrow> DropItemConfig option" where
  "entry_walk [] rr = None"
| "entry_walk (x # xs) rr =
     (if rr - Probability x < 0 then Some x else entry_walk xs (rr - Probability x))"

definition weightedRandomItemEntry :: "drop_env \<Rightarrow> DropItemConfig list \<Rightarrow> nat \<Rightarrow> DropItemConfig option \<times> nat" where
  "weightedRandomItemEntry e entries s =
     (let total = sum_list (map Probability entries)
      in if total \<le> 0 then (None, s)
         else (case entry_walk entries (int (intn e s (nat total))) of
                 Some x \<Rightarrow> (Some x, Suc s)
               | None \<Rightarrow> (Some (last entries), Suc s)))"

definition randomItemEntries :: "drop_env \<Rightarrow> DropItemConfig list \<Rightarrow> nat \<Rightarrow> DropItemConfig list \<times> nat" where
  "randomItemEntries e entries s =
     (if entries = [] then ([], s)
      else let dropWay = DropWay (hd entries)
           in if dropWay = dropItemWayAll then (entries, s)
              else if dropWay = dropItemWayRandom1 then ([entries ! intn e s (length entries)], Suc s)
              else if dropWay = dropItemWayWeight1 then
                (case weightedRandomItemEntry e entries s of
                   (None, s1) \<Rightarrow> ([], s1)
                 | (Some x, s1) \<Rightarrow> ([x], s1))
              else if dropWay = dropItemWayIndep then entries_hit e entries s
              else ([], s))"

definition expandDropId :: "drop_env \<Rightarrow> int \<Rightarrow> int \<Rightarrow> nat \<Rightarrow> PbItem list \<times> nat" where
  "expandDropId e d m s =
     (let entries = GetDropItemByDropId e d
      in if entries = [] then ([], s)
         else case randomItemEntries e entries s of
           (chosen, s1) \<Rightarrow>
             (filter (\<lambda>it. snd it > 0) (map (\<lambda>x. (ItemId x, i64 (ItemCount x * m))) chosen), s1))"

fun expand_draws :: "drop_env \<Rightarrow> packDraw list \<Rightarrow> nat \<Rightarrow> PbItem list \<times> nat" where
  "expand_draws e [] s = ([], s)"
| "expand_draws e (d # ds) s =
     (if mult d \<le> 0 then expand_draws e ds s
      else case expandDropId e (dropID d) (mult d) s of
        (items, s1) \<Rightarrow> (case expand_draws e ds s1 of (rest, s2) \<Rightarrow> (items @ rest, s2)))"

definition executeDropOnce :: "drop_env \<Rightarrow> int \<Rightarrow> nat \<Rightarrow> PbItem list \<times> nat" where
  "executeDropOnce e dropGroupID s =
     (case resolveGroup e dropGroupID 0 {dropGroupID} s of
        (draws, s1) \<Rightarrow>
          if draws = [] then expandDropId e dropGroupID 1 s1 else expand_draws e draws s1)"

fun aggregate :: "PbItem list \<Rightarrow> (int \<times> int) list \<Rightarrow> (int \<times> int) list" where
  "aggregate [] m = m"
| "aggregate ((k, n) # items) m =
     aggregate items (alist_put k (i64 ((case map_of m k of None \<Rightarrow> 0 | Some c \<Rightarrow> c) + n)) m)"

fun drop_times :: "drop_env \<Rightarrow> int \<Rightarrow> nat \<Rightarrow> (int \<times> int) list \<Rightarrow> nat \<Rightarrow> (int \<times> int) list \<times> nat" where
  "drop_times e g 0 m s = (m, s)"
| "drop_times e g (Suc n) m s =
     (case executeDropOnce e g s of (items, s1) \<Rightarrow> drop_times e g n (aggregate items m) s1)"

definition DropExecute ::
    "drop_env \<Rightarrow> nat \<Rightarrow> inv_env \<Rightarrow> Reason \<Rightarrow> int \<Rightarrow> int \<Rightarrow> nat \<Rightarrow> inv_state
       \<Rightarrow> (inv_state run \<times> PbItem list) \<times> nat" where
  "DropExecute e fuel ie rs dropGroupID rounds s st =
     (let rounds = (if rounds \<le> 0 then 1 else rounds);
          rounds = (if rounds > maxDropExecuteCount then maxDropExecuteCount else rounds)
      in case drop_times e dropGroupID (nat rounds) [] s of
           (aggregated, s1) \<Rightarrow>
             let out = filter (\<lambda>it. snd it > 0) (mapOrder ie aggregated)
             in ((add_each (ItemAdd fuel ie rs) out st, out), s1))"

section \<open>Weighted selection (mymath.go)\<close>

text \<open>\<open>rand.Intn\<close> panics when its bound is not positive.\<close>

fun select_loop :: "int list \<Rightarrow> nat \<Rightarrow> int \<Rightarrow> int \<Rightarrow> nat option" where
  "select_loop [] i r tmpWeight = None"
| "select_loop (v # vs) i r tmpWeight =
     (if r \<ge> tmpWeight - v then Some i else select_loop vs (Suc i) r (tmpWeight - v))"

definition WeightedRandomSelect :: "drop_env \<Rightarrow> int list \<Rightarrow> nat \<Rightarrow> (nat \<times> nat) run" where
  "WeightedRandomSelect e weightList s =
     (let totalWeight = sum_list weightList
      in if totalWeight \<le> 0 then Panic
         else case select_loop weightList 0 (int (intn e s (nat totalWeight))) totalWeight of
           Some i \<Rightarrow> Done (i, Suc s)
         | None \<Rightarrow> Done (length weightList - 1, Suc s))"

text \<open>\<open>select_n\<close> is the loop; its fourth argument counts the rounds left.\<close>

fun select_n :: "drop_env \<Rightarrow> int list \<Rightarrow> nat list \<Rightarrow> nat \<Rightarrow> nat \<Rightarrow> (nat list \<times> nat) run" where
  "select_n e tmpWeight acc 0 s = Done (acc, s)"
| "select_n e tmpWeight acc (Suc n) s =
     (case WeightedRandomSelect e tmpWeight s of
        Done (idx, s1) \<Rightarrow> select_n e (tmpWeight[idx := 0]) (acc @ [idx]) n s1
      | Panic \<Rightarrow> Panic | OutOfFuel \<Rightarrow> OutOfFuel)"

definition WeightedRandomSelectN :: "drop_env \<Rightarrow> int list \<Rightarrow> int \<Rightarrow> nat \<Rightarrow> (nat list option \<times> nat) run" where
  "WeightedRandomSelectN e weightList n s =
     (if n \<le> 0 \<or> weightList = [] then Done (None, s)
      else case select_n e weightList [] (min (nat n) (length weightList)) s of
        Done (ret, s1) \<Rightarrow> Done (Some ret, s1)
      | Panic \<Rightarrow> Panic | OutOfFuel \<Rightarrow> OutOfFuel)"

definition RandomSelectN :: "drop_env \<Rightarrow> int \<Rightarrow> int \<Rightarrow> nat \<Rightarrow> (nat list option \<times> nat) run" where
  "RandomSelectN e maxn n s =
     (if maxn < 0 then Panic else WeightedRandomSelectN e (replicate (nat maxn) 1) n s)"

section \<open>Single drops (drop.go)\<close>

text \<open>The numbers of the protocol's \<open>EItemDropWay\<close>.\<close>

record drop_ways =
  way_CERTAIN :: int
  way_PROBABILITY :: int
  way_WEIGHT :: int

definition MAX_PROBABILITY :: nat where "MAX_PROBABILITY = 10000"

text \<open>The pass over the table: the items so far, the weighted rows so far, and the table as the
  pass leaves it, since a weighted row without a probability is given the probability 1 in place.\<close>

fun drop_pass :: "drop_env \<Rightarrow> drop_ways \<Rightarrow> int \<Rightarrow> DropItemConfig list \<Rightarrow> PbItem list \<Rightarrow> DropItemConfig list \<Rightarrow> nat
    \<Rightarrow> (PbItem list \<times> DropItemConfig list \<times> DropItemConfig list \<times> nat)" where
  "drop_pass e ways k [] items dropByWeight s = (items, dropByWeight, [], s)"
| "drop_pass e ways k (v # vs) items dropByWeight s =
     (if DropId v \<noteq> k then
        (case drop_pass e ways k vs items dropByWeight s of (i, w, t, s1) \<Rightarrow> (i, w, v # t, s1))
      else if DropWay v = way_CERTAIN ways then
        (case drop_pass e ways k vs (items @ [(ItemId v, ItemCount v)]) dropByWeight s of
           (i, w, t, s1) \<Rightarrow> (i, w, v # t, s1))
      else if DropWay v = way_PROBABILITY ways then
        (let randV = int (intn e s MAX_PROBABILITY);
             items1 = (if randV < Probability v then items @ [(ItemId v, ItemCount v)] else items)
         in case drop_pass e ways k vs items1 dropByWeight (Suc s) of (i, w, t, s1) \<Rightarrow> (i, w, v # t, s1))
      else if DropWay v = way_WEIGHT ways then
        (let v1 = (if Probability v = 0 then v\<lparr>Probability := 1\<rparr> else v)
         in case drop_pass e ways k vs items (dropByWeight @ [v1]) s of (i, w, t, s1) \<Rightarrow> (i, w, v1 # t, s1))
      else (case drop_pass e ways k vs items dropByWeight s of (i, w, t, s1) \<Rightarrow> (i, w, v # t, s1)))"

definition DropGetItemByDropID ::
    "drop_env \<Rightarrow> drop_ways \<Rightarrow> int \<Rightarrow> DropItemConfig list \<Rightarrow> nat \<Rightarrow> (PbItem list \<times> DropItemConfig list \<times> nat) run" where
  "DropGetItemByDropID e ways k table s =
     (case drop_pass e ways k table [] [] s of
        (items, dropByWeight, table1, s1) \<Rightarrow>
          if dropByWeight = [] then Done (items, table1, s1)
          else case WeightedRandomSelect e (map Probability dropByWeight) s1 of
            Done (idx, s2) \<Rightarrow>
              Done (items @ [(ItemId (dropByWeight ! idx), ItemCount (dropByWeight ! idx))], table1, s2)
          | Panic \<Rightarrow> Panic | OutOfFuel \<Rightarrow> OutOfFuel)"

section \<open>Weighted choice, abstractly\<close>

text \<open>\<open>locate ws x\<close> is the index whose share of the line from 0 to the total holds \<open>x\<close>.\<close>

fun locate :: "int list \<Rightarrow> int \<Rightarrow> nat option" where
  "locate [] x = None"
| "locate (w # ws) x = (if x < w then Some 0 else map_option Suc (locate ws (x - w)))"

definition start_of :: "int list \<Rightarrow> nat \<Rightarrow> int" where "start_of ws i = sum_list (take i ws)"

lemma start_of_simps [simp]:
  "start_of ws 0 = 0" "start_of (w # ws) (Suc i) = w + start_of ws i" "start_of ws (length ws) = sum_list ws"
  by (simp_all add: start_of_def)

lemma start_of_Suc: "i < length ws \<Longrightarrow> start_of ws (Suc i) = start_of ws i + ws ! i"
  by (simp add: start_of_def take_Suc_conv_app_nth)

lemma start_of_bounds:
  assumes "\<forall>w\<in>set ws. 0 \<le> (w :: int)"
  shows "0 \<le> start_of ws i" "start_of ws i \<le> sum_list ws"
proof -
  show "0 \<le> start_of ws i"
    unfolding start_of_def using assms by (intro sum_list_nonneg) (blast dest: in_set_takeD)
  have "0 \<le> sum_list (drop i ws)" using assms by (intro sum_list_nonneg) (blast dest: in_set_dropD)
  moreover have "sum_list ws = sum_list (take i ws) + sum_list (drop i ws)"
    by (metis append_take_drop_id sum_list_append)
  ultimately show "start_of ws i \<le> sum_list ws" by (simp add: start_of_def)
qed

lemma locate_share:
  assumes "\<forall>w\<in>set ws. 0 \<le> w" "0 \<le> x"
  shows "locate ws x = Some i \<longleftrightarrow> i < length ws \<and> start_of ws i \<le> x \<and> x < start_of ws (Suc i)"
  using assms
proof (induction ws arbitrary: x i)
  case (Cons w ws)
  show ?case
  proof (cases i)
    case 0
    then show ?thesis using Cons.prems by (auto split: option.splits)
  next
    case (Suc j)
    have neg: "x < w \<Longrightarrow> \<not> w + start_of ws j \<le> x" using start_of_bounds(1) [of ws j] Cons.prems by simp
    have IH: "\<not> x < w \<Longrightarrow> locate ws (x - w) = Some j \<longleftrightarrow> j < length ws \<and> start_of ws j \<le> x - w \<and> x - w < start_of ws (Suc j)"
      using Cons.IH [of "x - w" j] Cons.prems by simp
    show ?thesis using neg IH by (auto simp: Suc)
  qed
qed simp

lemma locate_total:
  assumes "\<forall>w\<in>set ws. 0 \<le> w" "0 \<le> x"
  shows "locate ws x = None \<longleftrightarrow> sum_list ws \<le> x"
  using assms
proof (induction ws arbitrary: x)
  case (Cons w ws)
  have "0 \<le> sum_list ws" using Cons.prems by (simp add: sum_list_nonneg)
  then show ?case using Cons.IH [of "x - w"] Cons.prems by auto
qed simp

lemma card_share:
  assumes "\<forall>w\<in>set ws. 0 \<le> w" "i < length ws"
  shows "card {x. x < nat (sum_list ws) \<and> locate ws (int x) = Some i} = nat (ws ! i)"
proof -
  have b: "0 \<le> start_of ws i" "start_of ws (Suc i) \<le> sum_list ws" by (rule start_of_bounds [OF assms(1)])+
  have "{x. x < nat (sum_list ws) \<and> locate ws (int x) = Some i} = {nat (start_of ws i) ..< nat (start_of ws (Suc i))}"
    using b by (auto simp: locate_share [OF assms(1)] assms(2))
  then show ?thesis using b(1) assms by (simp add: start_of_Suc nat_diff_distrib')
qed

text \<open>The share of a value, and the same with the line gone through from its other end.\<close>

lemma card_choice:
  assumes "\<forall>y\<in>set ys. 0 \<le> f y"
  shows "card {x. x < nat (sum_list (map f ys)) \<and> map_option (nth ys) (locate (map f ys) (int x)) = Some y}
    = nat (f y) * count_list ys y"
proof -
  let ?A = "\<lambda>i. {x. x < nat (sum_list (map f ys)) \<and> locate (map f ys) (int x) = Some i}"
  let ?I = "{i. i < length ys \<and> y = ys ! i}"
  have pos: "\<forall>w\<in>set (map f ys). 0 \<le> w" using assms by simp
  have "{x. x < nat (sum_list (map f ys)) \<and> map_option (nth ys) (locate (map f ys) (int x)) = Some y} = (\<Union>i\<in>?I. ?A i)"
    using locate_share [OF pos] by fastforce
  also have "card \<dots> = (\<Sum>i\<in>?I. card (?A i))"
    by (rule card_UN_disjoint) auto
  also have "\<dots> = (\<Sum>i\<in>?I. nat (f y))"
    using card_share [OF pos] by (intro sum.cong) auto
  also have "\<dots> = nat (f y) * card ?I" unfolding sum_constant by (simp add: mult.commute)
  also have "card ?I = count_list ys y" by (simp add: count_list_eq_length_filter length_filter_conv_card)
  finally show ?thesis .
qed

lemma card_reflect: "card {x. x < n \<and> P (n - Suc x)} = card {x. x < n \<and> P (x :: nat)}"
proof (rule bij_betw_same_card)
  show "bij_betw (\<lambda>x. n - Suc x) {x. x < n \<and> P (n - Suc x)} {x. x < n \<and> P x}"
    by (rule bij_betw_byWitness [where f' = "\<lambda>x. n - Suc x"]) (auto simp: Suc_diff_Suc)
qed

section \<open>The three weighted choices are fair\<close>

definition weight_at :: "(int \<times> int) list \<Rightarrow> int \<Rightarrow> int" where "weight_at m k = max 0 (rate_of m k)"

lemma weighted_walk_locate:
  "0 \<le> x \<Longrightarrow> weighted_walk m ks x = map_option (nth ks) (locate (map (weight_at m) ks) x)"
proof (induction ks arbitrary: x)
  case (Cons k ks)
  show ?case using Cons.IH [of x] Cons.IH [of "x - rate_of m k"] Cons.prems
    by (auto simp: weight_at_def option.map_comp comp_def)
qed simp

lemma total_weight_locate: "total_weight m ks = sum_list (map (weight_at m) ks)"
  unfolding total_weight_def by (rule arg_cong [where f = sum_list]) (simp add: weight_at_def max_def)

lemma entry_walk_locate:
  "0 \<le> x \<Longrightarrow> \<forall>y\<in>set es. 0 \<le> Probability y \<Longrightarrow> entry_walk es x = map_option (nth es) (locate (map Probability es) x)"
proof (induction es arbitrary: x)
  case (Cons y es)
  show ?case using Cons.IH [of "x - Probability y"] Cons.prems by (auto simp: option.map_comp comp_def)
qed simp

lemma select_loop_locate:
  "select_loop ws i r (sum_list ws) = map_option (\<lambda>j. i + j) (locate ws (sum_list ws - 1 - r))"
proof (induction ws arbitrary: i)
  case (Cons w ws)
  have e: "sum_list ws + (- 1 - r) = sum_list ws - 1 - r" by simp
  then show ?case using Cons.IH [of "Suc i"] by (auto simp: option.map_comp comp_def e)
qed simp

lemma env_ok_rand: "drop_env_ok e \<Longrightarrow> 0 < n \<Longrightarrow> intn e i n < n"
  by (simp add: drop_env_ok_def)

lemma sortedKeys_mset: "drop_env_ok e \<Longrightarrow> mset (sortedKeys e m) = mset (map fst m)"
  unfolding drop_env_ok_def sortedKeys_def by (blast intro: slice_sort.sort_perm)

lemma sortedKeys_set: "drop_env_ok e \<Longrightarrow> set (sortedKeys e m) = fst ` set m"
  using mset_eq_setD [OF sortedKeys_mset] by simp

lemma total_weight_keys: "drop_env_ok e \<Longrightarrow> total_weight m (sortedKeys e m) = total_weight m (map fst m)"
  unfolding total_weight_locate by (metis sortedKeys_mset mset_map sum_mset_sum_list)

lemma rate_absent: "k \<notin> fst ` set m \<Longrightarrow> rate_of m k = 0"
  by (simp add: rate_of_def map_of_eq_None_iff [THEN iffD2])

text \<open>When there is a positive total, the walk ends in the list: the fallback to the last key is never taken.\<close>

lemma weightedPickKey_spec:
  assumes "0 < total_weight m (sortedKeys e m)" "int x < total_weight m (sortedKeys e m)"
    "intn e s (nat (total_weight m (sortedKeys e m))) = x"
  shows "weightedPickKey e m s
    = (map_option (nth (sortedKeys e m)) (locate (map (weight_at m) (sortedKeys e m)) (int x)), Suc s)"
proof -
  have "locate (map (weight_at m) (sortedKeys e m)) (int x) \<noteq> None"
    using assms(2) locate_total [of "map (weight_at m) (sortedKeys e m)" "int x"]
    by (simp add: total_weight_locate weight_at_def del: not_None_eq)
  then show ?thesis using assms by (auto simp: weightedPickKey_def Let_def weighted_walk_locate)
qed

lemma count_list_distinct: "distinct ks \<Longrightarrow> k \<in> set ks \<Longrightarrow> count_list ks k = 1"
  by (induction ks) auto

lemma weightedPickKey_fair:
  assumes "drop_env_ok e" "distinct (map fst m)"
  shows "card {x. x < nat (total_weight m (map fst m)) \<and> fst (weightedPickKey (e\<lparr>intn := \<lambda>_ _. x\<rparr>) m s) = Some k}
    = nat (rate_of m k)"
proof -
  define ks where "ks = sortedKeys e m"
  have tot: "total_weight m (map fst m) = sum_list (map (weight_at m) ks)"
    using total_weight_keys [OF assms(1)] by (simp add: ks_def total_weight_locate)
  have keys: "sortedKeys (e\<lparr>intn := f\<rparr>) m = ks" for f by (simp add: ks_def sortedKeys_def)
  have dist: "distinct ks" using assms by (metis ks_def sortedKeys_mset mset_eq_imp_distinct_iff)
  have "{x. x < nat (total_weight m (map fst m)) \<and> fst (weightedPickKey (e\<lparr>intn := \<lambda>_ _. x\<rparr>) m s) = Some k}
    = {x. x < nat (sum_list (map (weight_at m) ks)) \<and> map_option (nth ks) (locate (map (weight_at m) ks) (int x)) = Some k}"
  proof (rule Collect_cong, rule conj_cong)
    show "x < nat (total_weight m (map fst m)) \<longleftrightarrow> x < nat (sum_list (map (weight_at m) ks))" for x by (simp only: tot)
  next
    fix x assume x: "x < nat (sum_list (map (weight_at m) ks))"
    have "weightedPickKey (e\<lparr>intn := \<lambda>_ _. x\<rparr>) m s = (map_option (nth ks) (locate (map (weight_at m) ks) (int x)), Suc s)"
      using weightedPickKey_spec [of m "e\<lparr>intn := \<lambda>_ _. x\<rparr>" x s] x by (simp add: keys total_weight_locate)
    then show "fst (weightedPickKey (e\<lparr>intn := \<lambda>_ _. x\<rparr>) m s) = Some k
      \<longleftrightarrow> map_option (nth ks) (locate (map (weight_at m) ks) (int x)) = Some k" by simp
  qed
  then have "card {x. x < nat (total_weight m (map fst m)) \<and> fst (weightedPickKey (e\<lparr>intn := \<lambda>_ _. x\<rparr>) m s) = Some k}
    = nat (weight_at m k) * count_list ks k"
    using card_choice [of ks "weight_at m" k] by (simp add: weight_at_def)
  also have "\<dots> = nat (rate_of m k)"
  proof (cases "k \<in> set ks")
    case True
    then have "count_list ks k = 1" using dist by (simp add: count_list_distinct)
    then show ?thesis by (simp add: weight_at_def)
  next
    case False
    then show ?thesis using rate_absent [of k m] sortedKeys_set [OF assms(1), of m] by (simp add: ks_def weight_at_def)
  qed
  finally show ?thesis .
qed

lemma weightedRandomItemEntry_fair:
  assumes "\<forall>y\<in>set es. 0 \<le> Probability y"
  shows "card {x. x < nat (sum_list (map Probability es)) \<and> fst (weightedRandomItemEntry (e\<lparr>intn := \<lambda>_ _. x\<rparr>) es s) = Some y}
    = nat (Probability y) * count_list es y"
proof -
  have "fst (weightedRandomItemEntry (e\<lparr>intn := \<lambda>_ _. x\<rparr>) es s) = map_option (nth es) (locate (map Probability es) (int x))"
    if "x < nat (sum_list (map Probability es))" for x
  proof -
    have "locate (map Probability es) (int x) \<noteq> None"
      using that assms locate_total [of "map Probability es" "int x"] by (simp del: not_None_eq)
    then show ?thesis using that assms by (auto simp: weightedRandomItemEntry_def Let_def entry_walk_locate)
  qed
  then have "{x. x < nat (sum_list (map Probability es)) \<and> fst (weightedRandomItemEntry (e\<lparr>intn := \<lambda>_ _. x\<rparr>) es s) = Some y}
    = {x. x < nat (sum_list (map Probability es)) \<and> map_option (nth es) (locate (map Probability es) (int x)) = Some y}"
    by (intro Collect_cong conj_cong) simp_all
  then show ?thesis using card_choice [OF assms] by simp
qed

lemma WeightedRandomSelect_spec:
  assumes "\<forall>w\<in>set ws. 0 \<le> w"
  shows "0 < sum_list ws \<Longrightarrow> intn e s (nat (sum_list ws)) < nat (sum_list ws)
    \<Longrightarrow> \<exists>i. WeightedRandomSelect e ws s = Done (i, Suc s)
          \<and> locate ws (sum_list ws - 1 - int (intn e s (nat (sum_list ws)))) = Some i"
proof -
  let ?x = "sum_list ws - 1 - int (intn e s (nat (sum_list ws)))"
  assume "0 < sum_list ws" and "intn e s (nat (sum_list ws)) < nat (sum_list ws)"
  then have x: "0 \<le> ?x" "?x < sum_list ws" by simp_all
  then obtain i where i: "locate ws ?x = Some i" using locate_total [OF assms x(1)] by auto
  then show ?thesis using \<open>0 < sum_list ws\<close> by (simp add: WeightedRandomSelect_def Let_def select_loop_locate)
qed

lemma WeightedRandomSelect_fair:
  assumes "\<forall>w\<in>set ws. 0 \<le> w" "i < length ws"
  shows "card {x. x < nat (sum_list ws) \<and> WeightedRandomSelect (e\<lparr>intn := \<lambda>_ _. x\<rparr>) ws s = Done (i, Suc s)} = nat (ws ! i)"
proof -
  let ?n = "nat (sum_list ws)"
  have "{x. x < ?n \<and> WeightedRandomSelect (e\<lparr>intn := \<lambda>_ _. x\<rparr>) ws s = Done (i, Suc s)}
    = {x. x < ?n \<and> locate ws (int (?n - Suc x)) = Some i}"
  proof (rule Collect_cong, rule conj_cong [OF refl])
    fix x assume x: "x < ?n"
    then have "int (?n - Suc x) = sum_list ws - 1 - int x" "0 < sum_list ws" by linarith+
    moreover obtain j where "WeightedRandomSelect (e\<lparr>intn := \<lambda>_ _. x\<rparr>) ws s = Done (j, Suc s)"
        "locate ws (sum_list ws - 1 - int x) = Some j"
      using WeightedRandomSelect_spec [OF assms(1), of "e\<lparr>intn := \<lambda>_ _. x\<rparr>" s] x \<open>0 < sum_list ws\<close> by auto
    ultimately show "WeightedRandomSelect (e\<lparr>intn := \<lambda>_ _. x\<rparr>) ws s = Done (i, Suc s)
      \<longleftrightarrow> locate ws (int (?n - Suc x)) = Some i" by auto
  qed
  then show ?thesis using card_reflect [of ?n "\<lambda>x. locate ws (int x) = Some i"] card_share [OF assms] by simp
qed

text \<open>C32: Weighted choices are fair.  Of the equally likely answers of the random source, as many pick
  a key of a drop group as its weight says, none for a weight that is absent, 0 or negative; the same
  holds of the entries of a drop package and of the indexes of \<open>WeightedRandomSelect\<close>.  In
  particular the fallback to the last element is never taken.\<close>

theorem weighted_choices_fair:
  assumes "drop_env_ok e" "distinct (map fst m)" "\<forall>y\<in>set es. 0 \<le> Probability y" "\<forall>w\<in>set ws. 0 \<le> w"
    and "i < length ws"
  shows "card {x. x < nat (total_weight m (map fst m)) \<and> fst (weightedPickKey (e\<lparr>intn := \<lambda>_ _. x\<rparr>) m s) = Some k}
      = nat (rate_of m k)
    \<and> card {x. x < nat (sum_list (map Probability es)) \<and> fst (weightedRandomItemEntry (e\<lparr>intn := \<lambda>_ _. x\<rparr>) es s) = Some y}
      = nat (Probability y) * count_list es y
    \<and> card {x. x < nat (sum_list ws) \<and> WeightedRandomSelect (e\<lparr>intn := \<lambda>_ _. x\<rparr>) ws s = Done (i, Suc s)}
      = nat (ws ! i)"
  by (intro conjI weightedPickKey_fair weightedRandomItemEntry_fair WeightedRandomSelect_fair) (fact assms)+

section \<open>Drawing several\<close>

definition positives :: "int list \<Rightarrow> nat set" where "positives ws = {i. i < length ws \<and> 0 < ws ! i}"

lemma finite_positives [simp]: "finite (positives ws)"
  unfolding positives_def by simp

lemma no_positives: "\<forall>w\<in>set ws. 0 \<le> w \<Longrightarrow> positives ws = {} \<longleftrightarrow> sum_list ws \<le> (0 :: int)"
proof
  assume nn: "\<forall>w\<in>set ws. 0 \<le> w" and "positives ws = {}"
  then have "\<forall>w\<in>set ws. w \<le> 0" unfolding positives_def by (force simp: in_set_conv_nth)
  then show "sum_list ws \<le> 0" by (intro sum_list_nonpos) blast
next
  assume nn: "\<forall>w\<in>set ws. 0 \<le> w" and tot: "sum_list ws \<le> 0"
  have "ws ! i \<le> 0" if "i < length ws" for i
    using start_of_bounds [OF nn, of i] start_of_bounds [OF nn, of "Suc i"] that tot by (simp add: start_of_Suc)
  then show "positives ws = {}" unfolding positives_def by fastforce
qed

text \<open>A draw is one of the positive indexes, and it panics when there is none.\<close>

lemma WeightedRandomSelect_draw:
  assumes e: "drop_env_ok e" and nn: "\<forall>w\<in>set ws. 0 \<le> w"
  shows "if positives ws = {} then WeightedRandomSelect e ws s = Panic
    else \<exists>i\<in>positives ws. WeightedRandomSelect e ws s = Done (i, Suc s)"
proof (cases "positives ws = {}")
  case True
  then show ?thesis using no_positives [OF nn] by (simp add: WeightedRandomSelect_def)
next
  case False
  then have tot: "0 < sum_list ws" using no_positives [OF nn] by simp
  then have "intn e s (nat (sum_list ws)) < nat (sum_list ws)" by (intro env_ok_rand [OF e]) simp
  from WeightedRandomSelect_spec [OF nn tot this] this obtain i x
    where i: "WeightedRandomSelect e ws s = Done (i, Suc s)" "locate ws x = Some i" "0 \<le> x" by force
  have "i < length ws \<and> start_of ws i \<le> x \<and> x < start_of ws (Suc i)" using i(2) locate_share [OF nn i(3)] by blast
  then have "i \<in> positives ws" using start_of_Suc [of i ws] by (simp add: positives_def)
  then show ?thesis using i(1) False by auto
qed

lemma positives_update: "i < length ws \<Longrightarrow> positives (ws[i := 0]) = positives ws - {i}"
  by (auto simp: positives_def nth_list_update)

lemma select_n_spec:
  assumes "drop_env_ok e" "\<forall>w\<in>set ws. 0 \<le> w"
  shows "if n \<le> card (positives ws)
    then \<exists>picked. select_n e ws acc n s = Done (acc @ picked, s + n) \<and> length picked = n \<and> distinct picked
           \<and> set picked \<subseteq> positives ws
    else select_n e ws acc n s = Panic"
  using assms(2)
proof (induction n arbitrary: ws acc s)
  case (Suc n)
  show ?case
  proof (cases "positives ws = {}")
    case True
    then show ?thesis using WeightedRandomSelect_draw [OF assms(1) Suc.prems, of s] by simp
  next
    case False
    then obtain i where i: "i \<in> positives ws" "WeightedRandomSelect e ws s = Done (i, Suc s)"
      using WeightedRandomSelect_draw [OF assms(1) Suc.prems, of s] by auto
    have len: "i < length ws" using i(1) by (simp add: positives_def)
    have nn: "\<forall>w\<in>set (ws[i := 0]). 0 \<le> w" using Suc.prems set_update_subset_insert [of ws i 0] by auto
    have card: "card (positives ws) = Suc (card (positives (ws[i := 0])))"
      unfolding positives_update [OF len] using i(1) card_Suc_Diff1 [of "positives ws" i] by simp
    have step: "select_n e ws acc (Suc n) s = select_n e (ws[i := 0]) (acc @ [i]) n (Suc s)" using i(2) by simp
    show ?thesis
    proof (cases "n \<le> card (positives (ws[i := 0]))")
      case True
      then obtain picked where p: "select_n e (ws[i := 0]) (acc @ [i]) n (Suc s) = Done ((acc @ [i]) @ picked, Suc s + n)"
          "length picked = n" "distinct picked" "set picked \<subseteq> positives ws - {i}"
        using Suc.IH [OF nn, of "acc @ [i]" "Suc s"] unfolding positives_update [OF len] by auto
      have "\<exists>picked. select_n e ws acc (Suc n) s = Done (acc @ picked, s + Suc n) \<and> length picked = Suc n
          \<and> distinct picked \<and> set picked \<subseteq> positives ws"
        using p i(1) unfolding step by (intro exI [of _ "i # picked"]) auto
      then show ?thesis using True card by simp
    next
      case False
      then show ?thesis using Suc.IH [OF nn, of "acc @ [i]" "Suc s"] card step by auto
    qed
  qed
qed simp

text \<open>Drawing several without repetition.  \<open>WeightedRandomSelectN\<close> yields the smaller of n and the
  number of entries, as distinct indexes of positive weight, exactly when that many entries have a
  positive weight; otherwise it panics, since after the last of them is drawn the bound given to
  \<open>rand.Intn\<close> is 0.  \<open>RandomSelectN\<close> draws as many distinct numbers below its maximum as there are,
  at most n.\<close>

theorem select_n_or_panic:
  assumes "drop_env_ok e" "\<forall>w\<in>set ws. 0 \<le> w" "0 < n" "ws \<noteq> []" "0 < maxn"
  shows "(if min (nat n) (length ws) \<le> card (positives ws)
    then \<exists>picked s1. WeightedRandomSelectN e ws n s = Done (Some picked, s1) \<and> length picked = min (nat n) (length ws)
           \<and> distinct picked \<and> (\<forall>i\<in>set picked. i < length ws \<and> 0 < ws ! i)
    else WeightedRandomSelectN e ws n s = Panic)
    \<and> (\<exists>picked s1. RandomSelectN e maxn n s = Done (Some picked, s1)
           \<and> length picked = nat (min n maxn) \<and> distinct picked \<and> (\<forall>i\<in>set picked. int i < maxn))"
proof (intro conjI)
  have sel: "if min (nat n) (length vs) \<le> card (positives vs)
    then \<exists>picked s1. WeightedRandomSelectN e vs n s = Done (Some picked, s1) \<and> length picked = min (nat n) (length vs)
           \<and> distinct picked \<and> set picked \<subseteq> positives vs
    else WeightedRandomSelectN e vs n s = Panic"
    if "\<forall>w\<in>set vs. 0 \<le> w" "vs \<noteq> []" for vs
    using select_n_spec [OF assms(1) that(1), of "min (nat n) (length vs)" "[]" s] assms(3) that(2)
    by (auto simp: WeightedRandomSelectN_def split: if_splits)
  show "if min (nat n) (length ws) \<le> card (positives ws)
    then \<exists>picked s1. WeightedRandomSelectN e ws n s = Done (Some picked, s1) \<and> length picked = min (nat n) (length ws)
           \<and> distinct picked \<and> (\<forall>i\<in>set picked. i < length ws \<and> 0 < ws ! i)
    else WeightedRandomSelectN e ws n s = Panic"
    using sel [OF assms(2,4)] by (auto simp: positives_def split: if_splits)
  note pos = assms(5)
  let ?vs = "replicate (nat maxn) 1 :: int list"
  have "positives ?vs = {..<nat maxn}" by (auto simp: positives_def)
  then show "\<exists>picked s1. RandomSelectN e maxn n s = Done (Some picked, s1)
      \<and> length picked = nat (min n maxn) \<and> distinct picked \<and> (\<forall>i\<in>set picked. int i < maxn)"
    using sel [of ?vs] pos by (force simp: RandomSelectN_def min_def split: if_splits)
qed

section \<open>What a drop group may yield\<close>

text \<open>The reading of the tables as a typing relation: \<open>yields e room visited g k m\<close> says that the group
  \<open>g\<close>, with \<open>visited\<close> on the way to it and \<open>room\<close> further levels allowed, may yield the drop package
  \<open>k\<close> with the multiplier \<open>m\<close>.\<close>

definition enabled_row :: "drop_env \<Rightarrow> int \<Rightarrow> DropGroupConfig \<Rightarrow> bool" where
  "enabled_row e g row \<longleftrightarrow> Some row \<in> set (GroupDropGroupByGroupid e g) \<and> IsBan row = 0
     \<and> (case rootRow (GroupDropGroupByGroupid e g) None of None \<Rightarrow> False | Some root \<Rightarrow> IsBan root = 0)"

definition combo :: "drop_env \<Rightarrow> int \<Rightarrow> bool" where
  "combo e g \<longleftrightarrow> (case rootRow (GroupDropGroupByGroupid e g) None of
     None \<Rightarrow> False | Some root \<Rightarrow> GType root = dropGroupTypeCombo)"

definition selectable :: "DropGroupConfig \<Rightarrow> int \<Rightarrow> bool" where
  "selectable row k \<longleftrightarrow> k \<in> fst ` set (DropRateMap row)
     \<and> (GDropWay row = dropWayFixed \<or> GDropWay row \<in> {dropWayProb, dropWayWeight} \<and> 0 < rate_of (DropRateMap row) k)"

definition factor :: "DropGroupConfig \<Rightarrow> int \<Rightarrow> int" where
  "factor row m = (if DropType row = dropTypeMultiply \<and> DropCount row > 1 then i32 (m * DropCount row) else m)"

inductive yields :: "drop_env \<Rightarrow> nat \<Rightarrow> int set \<Rightarrow> int \<Rightarrow> int \<Rightarrow> int \<Rightarrow> bool" for e where
  yields_leaf: "enabled_row e g row \<Longrightarrow> \<not> combo e g \<Longrightarrow> selectable row k \<Longrightarrow> yields e room visited g k (factor row 1)"
| yields_plain: "enabled_row e g row \<Longrightarrow> combo e g \<Longrightarrow> selectable row k \<Longrightarrow> GroupDropGroupByGroupid e k = []
    \<Longrightarrow> yields e room visited g k (factor row 1)"
| yields_nested: "enabled_row e g row \<Longrightarrow> combo e g \<Longrightarrow> selectable row k \<Longrightarrow> k \<notin> visited
    \<Longrightarrow> yields e room (insert k visited) k d m \<Longrightarrow> yields e (Suc room) visited g d (factor row m)"

text \<open>Where the draws of each step come from.\<close>

lemma pick_all_from: "d \<in> set (fst (pick_all pick ks s)) \<Longrightarrow> \<exists>k\<in>set ks. \<exists>s1. d \<in> set (fst (pick k s1))"
proof (induction ks arbitrary: s)
  case (Cons k ks)
  obtain d0 s1 ds s2 where p: "pick k s = (d0, s1)" "pick_all pick ks s1 = (ds, s2)" by fastforce
  then have "d \<in> set d0 \<or> d \<in> set (fst (pick_all pick ks s1))" using Cons.prems by simp
  then show ?case using Cons.IH [of s1] p(1) by (metis fst_conv list.set_intros)
qed simp

lemma probabilityHit_pos: "fst (probabilityHit e rate s) \<Longrightarrow> 0 < rate"
  by (auto simp: probabilityHit_def split: if_splits)

lemma pick_hits_from:
  "d \<in> set (fst (pick_hits e m pick ks s)) \<Longrightarrow> \<exists>k\<in>set ks. 0 < rate_of m k \<and> (\<exists>s1. d \<in> set (fst (pick k s1)))"
proof (induction ks arbitrary: s)
  case (Cons k ks)
  obtain hit s1 d0 s2 ds s3 where p: "probabilityHit e (rate_of m k) s = (hit, s1)"
      "(if hit then pick k s1 else ([], s1)) = (d0, s2)" "pick_hits e m pick ks s2 = (ds, s3)"
    by (metis surj_pair)
  then have "d \<in> set d0 \<or> d \<in> set (fst (pick_hits e m pick ks s2))" using Cons.prems by simp
  then show ?case
  proof
    assume "d \<in> set d0"
    then have "hit" "d \<in> set (fst (pick k s1))" using p(2) by (auto split: if_splits)
    then show ?thesis using probabilityHit_pos [of e "rate_of m k" s] p(1) by auto
  qed (use Cons.IH [of s2] in auto)
qed simp

lemma weightedPickKey_from:
  assumes "drop_env_ok e" "fst (weightedPickKey e m s) = Some k"
  shows "k \<in> fst ` set m \<and> 0 < rate_of m k"
proof -
  let ?ks = "sortedKeys e m" let ?ws = "map (weight_at m) ?ks" let ?t = "total_weight m ?ks"
  have nn: "\<forall>w\<in>set ?ws. 0 \<le> w" by (simp add: weight_at_def)
  have tot: "0 < ?t" using assms(2) by (auto simp: weightedPickKey_def Let_def split: if_splits)
  define x where "x = intn e s (nat ?t)"
  have "x < nat ?t" unfolding x_def by (intro env_ok_rand [OF assms(1)]) (use tot in simp)
  then have "int x < ?t" by linarith
  from assms(2) have "map_option (nth ?ks) (locate ?ws (int x)) = Some k"
    unfolding weightedPickKey_spec [OF tot \<open>int x < ?t\<close> x_def [symmetric]] fst_conv .
  then obtain i where i: "locate ?ws (int x) = Some i" "?ks ! i = k" unfolding map_option_eq_Some by blast
  have *: "i < length ?ws \<and> start_of ?ws i \<le> int x \<and> int x < start_of ?ws (Suc i)"
    using i(1) locate_share [OF nn, of "int x" i] by simp
  then have "0 < ?ws ! i" using start_of_Suc [of i ?ws] by simp
  then have "0 < rate_of m k" "k \<in> set ?ks" using * i(2) by (auto simp: weight_at_def)
  then show ?thesis using sortedKeys_set [OF assms(1), of m] by simp
qed

lemma selectOnce_from:
  assumes "drop_env_ok e" "d \<in> set (fst (selectOnce e sub row isLeaf s))"
  shows "\<exists>k. selectable row k \<and> (if isLeaf then d = \<lparr>dropID = k, mult = 1\<rparr> else \<exists>s1. d \<in> set (fst (sub k s1)))"
proof -
  define pick where "pick = (\<lambda>k s. if isLeaf then ([\<lparr>dropID = k, mult = 1\<rparr>], s) else sub k s)"
  have "\<exists>k s1. selectable row k \<and> d \<in> set (fst (pick k s1))"
  proof -
    consider (fixed) "GDropWay row = dropWayFixed" | (prob) "GDropWay row = dropWayProb" | (weight) "GDropWay row = dropWayWeight"
      using assms(2) by (auto simp: selectOnce_def Let_def split: if_splits)
    then show ?thesis
    proof cases
      case fixed
      then have "d \<in> set (fst (pick_all pick (sortedKeys e (DropRateMap row)) s))"
        using assms(2) by (simp add: selectOnce_def Let_def pick_def)
      from pick_all_from [OF this] fixed show ?thesis by (auto simp: selectable_def sortedKeys_set [OF assms(1)])
    next
      case prob
      then have "d \<in> set (fst (pick_hits e (DropRateMap row) pick (sortedKeys e (DropRateMap row)) s))"
        using assms(2) by (simp add: selectOnce_def Let_def pick_def dropWayFixed_def dropWayProb_def)
      from pick_hits_from [OF this] prob show ?thesis by (auto simp: selectable_def sortedKeys_set [OF assms(1)])
    next
      case weight
      then obtain k s1 where k: "weightedPickKey e (DropRateMap row) s = (Some k, s1)" "d \<in> set (fst (pick k s1))"
        using assms(2)
        by (auto simp: selectOnce_def Let_def pick_def dropWayFixed_def dropWayProb_def dropWayWeight_def
            split: prod.splits option.splits)
      then show ?thesis using weightedPickKey_from [OF assms(1), of "DropRateMap row" s k] weight
        by (auto simp: selectable_def)
    qed
  qed
  then show ?thesis by (auto simp: pick_def split: if_splits)
qed

lemma select_times_from:
  "d \<in> set (fst (select_times e sub row isLeaf n s)) \<Longrightarrow> \<exists>s1. d \<in> set (fst (selectOnce e sub row isLeaf s1))"
proof (induction n arbitrary: s)
  case (Suc n)
  obtain d0 s1 ds s2 where p: "selectOnce e sub row isLeaf s = (d0, s1)" "select_times e sub row isLeaf n s1 = (ds, s2)"
    by fastforce
  then have "d \<in> set d0 \<or> d \<in> set (fst (select_times e sub row isLeaf n s1))" using Suc.prems by simp
  then show ?case using Suc.IH [of s1] p(1) by (metis fst_conv)
qed simp

lemma resolveRow_from:
  assumes "d \<in> set (fst (resolveRow e sub row isLeaf s))"
  shows "\<exists>d0 s1. d0 \<in> set (fst (selectOnce e sub row isLeaf s1)) \<and> dropID d = dropID d0 \<and> mult d = factor row (mult d0)"
proof (cases "DropType row = dropTypeMultiply")
  case True
  obtain base s1 where b: "selectOnce e sub row isLeaf s = (base, s1)" by fastforce
  have "\<exists>d0\<in>set base. dropID d = dropID d0 \<and> mult d = factor row (mult d0)"
    using assms True b by (auto simp: resolveRow_def Let_def factor_def split: if_splits)
  then show ?thesis using b by (metis fst_conv)
next
  case False
  then obtain n where "d \<in> set (fst (select_times e sub row isLeaf n s))"
    using assms by (auto simp: resolveRow_def Let_def)
  then show ?thesis using select_times_from False by (fastforce simp: factor_def)
qed

lemma resolve_rows_from:
  "d \<in> set (fst (resolve_rows e sub isLeaf rows s)) \<Longrightarrow> \<exists>row\<in>set rows. \<exists>s1. d \<in> set (fst (resolveRow e sub row isLeaf s1))"
proof (induction rows arbitrary: s)
  case (Cons row rows)
  obtain d0 s1 ds s2 where p: "resolveRow e sub row isLeaf s = (d0, s1)" "resolve_rows e sub isLeaf rows s1 = (ds, s2)"
    by fastforce
  then have "d \<in> set d0 \<or> d \<in> set (fst (resolve_rows e sub isLeaf rows s1))" using Cons.prems by simp
  then show ?case using Cons.IH [of s1] p(1) by (metis fst_conv list.set_intros)
qed simp

lemma enabledRowsSorted_set:
  "drop_env_ok e \<Longrightarrow> set (enabledRowsSorted e rows) = {row. Some row \<in> set rows \<and> IsBan row = 0}"
  unfolding drop_env_ok_def enabledRowsSorted_def
  by (auto simp: slice_sort.sort_set List.map_filter_def image_iff)

lemma resolve_with_from:
  assumes "drop_env_ok e" "d \<in> set (fst (resolve_with e sub g s))"
  shows "\<exists>row k m. enabled_row e g row \<and> selectable row k \<and> mult d = factor row m
    \<and> (if combo e g then \<exists>s1. \<lparr>dropID = dropID d, mult = m\<rparr> \<in> set (fst (sub k s1)) else dropID d = k \<and> m = 1)"
proof -
  obtain root where root: "rootRow (GroupDropGroupByGroupid e g) None = Some root" "IsBan root = 0"
    and "d \<in> set (fst (resolve_rows e sub (GType root \<noteq> dropGroupTypeCombo) (enabledRowsSorted e (GroupDropGroupByGroupid e g)) s))"
    using assms(2) by (auto simp: resolve_with_def Let_def split: if_splits option.splits)
  from resolve_rows_from [OF this(3)] obtain row s1 where row: "row \<in> set (enabledRowsSorted e (GroupDropGroupByGroupid e g))"
    and "d \<in> set (fst (resolveRow e sub row (GType root \<noteq> dropGroupTypeCombo) s1))" by blast
  from resolveRow_from [OF this(2)] obtain d0 s2 where
    d0: "d0 \<in> set (fst (selectOnce e sub row (GType root \<noteq> dropGroupTypeCombo) s2))"
      "dropID d = dropID d0" "mult d = factor row (mult d0)" by blast
  from selectOnce_from [OF assms(1) d0(1)] obtain k where k: "selectable row k"
    "if GType root \<noteq> dropGroupTypeCombo then d0 = \<lparr>dropID = k, mult = 1\<rparr> else \<exists>s1. d0 \<in> set (fst (sub k s1))" by blast
  have "combo e g \<longleftrightarrow> GType root = dropGroupTypeCombo" by (simp add: combo_def root(1))
  moreover have "enabled_row e g row"
    using row root by (simp add: enabled_row_def enabledRowsSorted_set [OF assms(1)])
  moreover have "\<lparr>dropID = dropID d, mult = mult d0\<rparr> = d0" using d0(2) by simp
  ultimately show ?thesis using k d0(2,3)
    by - (rule exI [of _ row], rule exI [of _ k], rule exI [of _ "mult d0"], cases d0, auto split: if_splits)
qed

lemma resolve_in_room_yields:
  assumes "drop_env_ok e"
  shows "d \<in> set (fst (resolve_with e (pick_in_room room e visited) g s)) \<Longrightarrow> yields e room visited g (dropID d) (mult d)"
proof (induction room arbitrary: d visited g s)
  case 0
  from resolve_with_from [OF assms 0] obtain row k m where
    r: "enabled_row e g row" "selectable row k" "mult d = factor row m" and
    c: "if combo e g then \<exists>s1. \<lparr>dropID = dropID d, mult = m\<rparr> \<in> set (fst (pick_in_room 0 e visited k s1)) else dropID d = k \<and> m = 1"
    by blast
  show ?case
  proof (cases "combo e g")
    case True
    then have "GroupDropGroupByGroupid e k = []" "dropID d = k" "m = 1" using c by (auto split: if_splits)
    then show ?thesis using yields_plain [OF r(1) True r(2)] r(3) by simp
  next
    case False
    then show ?thesis using yields_leaf [OF r(1) False r(2)] r(3) c by simp
  qed
next
  case (Suc room)
  from resolve_with_from [OF assms Suc.prems] obtain row k m where
    r: "enabled_row e g row" "selectable row k" "mult d = factor row m" and
    c: "if combo e g then \<exists>s1. \<lparr>dropID = dropID d, mult = m\<rparr> \<in> set (fst (pick_in_room (Suc room) e visited k s1)) else dropID d = k \<and> m = 1"
    by blast
  show ?case
  proof (cases "combo e g")
    case True
    then obtain s1 where s1: "\<lparr>dropID = dropID d, mult = m\<rparr> \<in> set (fst (pick_in_room (Suc room) e visited k s1))" using c by auto
    show ?thesis
    proof (cases "GroupDropGroupByGroupid e k = []")
      case plain: True
      then have "dropID d = k" "m = 1" using s1 by auto
      then show ?thesis using yields_plain [OF r(1) True r(2) plain] r(3) by simp
    next
      case False
      then have "k \<notin> visited" "\<lparr>dropID = dropID d, mult = m\<rparr> \<in> set (fst (resolve_with e (pick_in_room room e (insert k visited)) k s1))"
        using s1 by (auto split: if_splits)
      then show ?thesis using Suc.IH yields_nested [OF r(1) True r(2)] r(3) by fastforce
    qed
  next
    case False
    then show ?thesis using yields_leaf [OF r(1) False r(2)] r(3) c by simp
  qed
qed

lemma resolveGroup_yields:
  "drop_env_ok e \<Longrightarrow> d \<in> set (fst (resolveGroup e g 0 visited s)) \<Longrightarrow> yields e 6 visited g (dropID d) (mult d)"
  using resolve_in_room_yields [of e d 6] by (simp add: resolveGroup_def pickKeyAsDraws_def maxDropNestDepth_def)

section \<open>What a drop gives\<close>

definition may_drop :: "drop_env \<Rightarrow> int \<Rightarrow> int \<Rightarrow> bool" where
  "may_drop e g k \<longleftrightarrow> (\<exists>d x. x \<in> set (GetDropItemByDropId e d) \<and> ItemId x = k
     \<and> (d = g \<or> (\<exists>m > 0. yields e 6 {g} g d m)))"

lemma entry_walk_in: "entry_walk es x = Some y \<Longrightarrow> y \<in> set es"
  by (induction es x rule: entry_walk.induct) (auto split: if_splits)

lemma entries_hit_subset: "set (fst (entries_hit e es s)) \<subseteq> set es"
proof (induction es arbitrary: s)
  case (Cons y es)
  obtain hit s1 ys s2 where "probabilityHit e (Probability y) s = (hit, s1)" "entries_hit e es s1 = (ys, s2)" by fastforce
  then show ?case using Cons.IH [of s1] by auto
qed simp

lemma randomItemEntries_subset:
  assumes "drop_env_ok e"
  shows "set (fst (randomItemEntries e es s)) \<subseteq> set es"
proof (cases "es = []")
  case False
  then have "es ! intn e s (length es) \<in> set es" by (intro nth_mem env_ok_rand [OF assms]) simp
  moreover have "x \<in> set es" if "weightedRandomItemEntry e es s = (Some x, s1)" for x s1
    using that False by (auto simp: weightedRandomItemEntry_def Let_def dest: entry_walk_in split: if_splits option.splits)
  ultimately show ?thesis using entries_hit_subset [of e es s]
    by (auto simp: randomItemEntries_def Let_def split: option.splits prod.splits)
qed (simp add: randomItemEntries_def)

lemma expandDropId_from:
  assumes "drop_env_ok e" "(k, c) \<in> set (fst (expandDropId e d m s))"
  shows "\<exists>x\<in>set (GetDropItemByDropId e d). ItemId x = k"
proof -
  obtain es s1 where p: "randomItemEntries e (GetDropItemByDropId e d) s = (es, s1)" by fastforce
  then show ?thesis
    using assms(2) randomItemEntries_subset [OF assms(1), of "GetDropItemByDropId e d" s]
    by (auto simp: expandDropId_def Let_def split: if_splits)
qed

lemma expand_draws_from:
  "it \<in> set (fst (expand_draws e ds s)) \<Longrightarrow> \<exists>d\<in>set ds. 0 < mult d \<and> (\<exists>s1. it \<in> set (fst (expandDropId e (dropID d) (mult d) s1)))"
proof (induction ds arbitrary: s)
  case (Cons d ds)
  obtain items s1 rest s2 where p: "expandDropId e (dropID d) (mult d) s = (items, s1)" "expand_draws e ds s1 = (rest, s2)"
    by fastforce
  show ?case
  proof (cases "mult d \<le> 0")
    case True
    then show ?thesis using Cons.IH [of s] Cons.prems by auto
  next
    case False
    then have "it \<in> set items \<or> it \<in> set (fst (expand_draws e ds s1))" using Cons.prems p by simp
    then show ?thesis using Cons.IH [of s1] p(1) False by (metis fst_conv list.set_intros not_le)
  qed
qed simp

lemma executeDropOnce_from:
  assumes "drop_env_ok e" "(k, c) \<in> set (fst (executeDropOnce e g s))"
  shows "may_drop e g k"
proof -
  obtain draws s1 where p: "resolveGroup e g 0 {g} s = (draws, s1)" by fastforce
  show ?thesis
  proof (cases "draws = []")
    case True
    then show ?thesis using assms(2) p expandDropId_from [OF assms(1), of k c g 1 s1]
      by (auto simp: executeDropOnce_def may_drop_def)
  next
    case False
    then have "(k, c) \<in> set (fst (expand_draws e draws s1))" using assms(2) p by (simp add: executeDropOnce_def)
    from expand_draws_from [OF this] obtain d s2 where d: "d \<in> set draws" "0 < mult d"
      "(k, c) \<in> set (fst (expandDropId e (dropID d) (mult d) s2))" by blast
    have "yields e 6 {g} g (dropID d) (mult d)" using resolveGroup_yields [OF assms(1), of d g "{g}" s] d(1) p by simp
    then show ?thesis using expandDropId_from [OF assms(1) d(3)] d(2) unfolding may_drop_def by blast
  qed
qed

lemma aggregate_keys:
  "set (map fst (aggregate items m)) = fst ` set items \<union> set (map fst m)"
  "distinct (map fst m) \<Longrightarrow> distinct (map fst (aggregate items m))"
proof -
  show "set (map fst (aggregate items m)) = fst ` set items \<union> set (map fst m)"
    by (induction items m rule: aggregate.induct) (simp, simp only: aggregate.simps keys_alist_put, auto)
  show "distinct (map fst m) \<Longrightarrow> distinct (map fst (aggregate items m))"
    by (induction items m rule: aggregate.induct) (simp_all del: keys_alist_put)
qed

lemma drop_times_keys:
  assumes "drop_env_ok e" "distinct (map fst m)" "\<forall>k\<in>set (map fst m). may_drop e g k"
  shows "distinct (map fst (fst (drop_times e g n m s))) \<and> (\<forall>k\<in>set (map fst (fst (drop_times e g n m s))). may_drop e g k)"
  using assms(2,3)
proof (induction n arbitrary: m s)
  case (Suc n)
  obtain items s1 where p: "executeDropOnce e g s = (items, s1)" by fastforce
  have step: "drop_times e g (Suc n) m s = drop_times e g n (aggregate items m) s1" using p by simp
  have "\<forall>k\<in>fst ` set items. may_drop e g k" using executeDropOnce_from [OF assms(1), of _ _ g s] p by fastforce
  then have "\<forall>k\<in>set (map fst (aggregate items m)). may_drop e g k"
    unfolding aggregate_keys(1) using Suc.prems(2) by blast
  then show ?case unfolding step by (intro Suc.IH aggregate_keys(2) Suc.prems(1))
qed simp

lemma add_each_run:
  "add_each (ItemAdd fuel ie rs) items st = run_inv_ops fuel ie rs st (map (\<lambda>(k, n). IAdd k n) items)"
  by (induction "ItemAdd fuel ie rs" items st rule: add_each.induct) (auto simp: fst_run_def split: run.splits)

text \<open>C31: Drops come from the tables.  Every item that \<open>DropExecute\<close> gives stands in a package that the
  drop group may yield: reached through enabled rows of groups that are not banned, by keys with a positive
  rate or of a row that gives everything, through at most six nested groups without meeting a group
  twice, with a positive multiplier; or in the package of the same number, when there is no draw.  Each
  item is listed once with a positive amount, and the role becomes what adding exactly this list to it, in
  order, makes of it, so that all that holds of additions, such as the limits of items, holds of drops.\<close>

theorem drops_come_from_tables:
  assumes "drop_env_ok e" "order_ok ie" and "DropExecute e fuel ie rs g n s st = ((outcome, out), s1)"
  shows "distinct (map fst out) \<and> (\<forall>(k, c) \<in> set out. 0 < c \<and> may_drop e g k)
    \<and> outcome = run_inv_ops fuel ie rs st (map (\<lambda>(k, n). IAdd k n) out)"
proof (intro conjI)
  obtain N where "DropExecute e fuel ie rs g n s st = (case drop_times e g N [] s of (aggregated, s1) \<Rightarrow>
      let out = filter (\<lambda>it. snd it > 0) (mapOrder ie aggregated) in ((add_each (ItemAdd fuel ie rs) out st, out), s1))"
    unfolding DropExecute_def Let_def by blast
  moreover obtain agg s2 where agg: "drop_times e g N [] s = (agg, s2)" by fastforce
  ultimately have out: "out = filter (\<lambda>it. snd it > 0) (mapOrder ie agg)" "outcome = add_each (ItemAdd fuel ie rs) out st"
    using assms(3) by (simp_all add: Let_def)
  have m: "mset (mapOrder ie agg) = mset agg" using assms(2) by (simp add: order_ok_def)
  have a: "distinct (map fst agg)" "\<forall>k\<in>set (map fst agg). may_drop e g k"
    using drop_times_keys [OF assms(1), of "[]" g N s] agg by simp_all
  have "mset (map fst (mapOrder ie agg)) = mset (map fst agg)" using m by simp
  then have "distinct (map fst (mapOrder ie agg))" using a(1) mset_eq_imp_distinct_iff by blast
  then show "distinct (map fst out)" unfolding out(1) by (rule distinct_map_filter)
  show "\<forall>(k, c) \<in> set out. 0 < c \<and> may_drop e g k"
    using a(2) mset_eq_setD [OF m] by (auto simp: out(1))
  show "outcome = run_inv_ops fuel ie rs st (map (\<lambda>(k, n). IAdd k n) out)"
    unfolding out(2) by (rule add_each_run)
qed

section \<open>Single drops\<close>

definition heal :: "drop_ways \<Rightarrow> int \<Rightarrow> DropItemConfig \<Rightarrow> DropItemConfig" where
  "heal ways k v = (if DropId v = k \<and> DropWay v \<notin> {way_CERTAIN ways, way_PROBABILITY ways}
     \<and> DropWay v = way_WEIGHT ways \<and> Probability v = 0 then v\<lparr>Probability := 1\<rparr> else v)"

definition weighted_row :: "drop_ways \<Rightarrow> int \<Rightarrow> DropItemConfig \<Rightarrow> bool" where
  "weighted_row ways k v \<longleftrightarrow> DropId v = k \<and> DropWay v \<notin> {way_CERTAIN ways, way_PROBABILITY ways} \<and> DropWay v = way_WEIGHT ways"

lemma drop_pass_spec:
  "drop_pass e ways k vs items w s = (items1, w1, t, s1) \<Longrightarrow>
     t = map (heal ways k) vs \<and> w1 = w @ filter (weighted_row ways k) (map (heal ways k) vs)
     \<and> (\<exists>new. items1 = items @ new \<and> set new \<subseteq> (\<lambda>v. (ItemId v, ItemCount v)) ` {v \<in> set vs. DropId v = k}
          \<and> (\<forall>v\<in>set vs. DropId v = k \<longrightarrow> DropWay v = way_CERTAIN ways \<longrightarrow> (ItemId v, ItemCount v) \<in> set new))"
proof (induction vs arbitrary: items w s items1 w1 t s1)
  case (Cons v vs)
  obtain items2 w2 s2 t2 where p: "drop_pass e ways k vs items2 w2 s2 = (items1, w1, t2, s1)"
    and t: "t = heal ways k v # t2"
    and w2: "w2 = w @ (if weighted_row ways k (heal ways k v) then [heal ways k v] else [])"
    and i: "items2 = items \<or> items2 = items @ [(ItemId v, ItemCount v)] \<and> DropId v = k"
      "DropId v = k \<longrightarrow> DropWay v = way_CERTAIN ways \<longrightarrow> items2 = items @ [(ItemId v, ItemCount v)]"
    using Cons.prems by (fastforce simp: heal_def weighted_row_def Let_def split: if_splits prod.splits)
  from Cons.IH [OF p] obtain new where n: "t2 = map (heal ways k) vs" "w1 = w2 @ filter (weighted_row ways k) (map (heal ways k) vs)"
    "items1 = items2 @ new" "set new \<subseteq> (\<lambda>v. (ItemId v, ItemCount v)) ` {v \<in> set vs. DropId v = k}"
    "\<forall>v\<in>set vs. DropId v = k \<longrightarrow> DropWay v = way_CERTAIN ways \<longrightarrow> (ItemId v, ItemCount v) \<in> set new" by blast
  have "\<exists>new. items1 = items @ new \<and> set new \<subseteq> (\<lambda>v. (ItemId v, ItemCount v)) ` {x \<in> set (v # vs). DropId x = k}
      \<and> (\<forall>x\<in>set (v # vs). DropId x = k \<longrightarrow> DropWay x = way_CERTAIN ways \<longrightarrow> (ItemId x, ItemCount x) \<in> set new)"
  proof (cases "items2 = items")
    case True
    then show ?thesis using n(3-5) i(2) by (intro exI [of _ new]) auto
  next
    case False
    then show ?thesis using n(3-5) i by (intro exI [of _ "(ItemId v, ItemCount v) # new"]) auto
  qed
  then show ?case using n(1,2) t w2 by auto
qed simp

text \<open>A lookup keeps the table but for the weighted rows without a probability, and a second one changes
  nothing more.\<close>

lemma heal_heal [simp]: "heal ways k (heal ways k v) = heal ways k v"
  by (simp add: heal_def)

lemma heal_weight: "0 \<le> Probability v \<Longrightarrow> weighted_row ways k (heal ways k v) \<Longrightarrow> 0 < Probability (heal ways k v)"
  by (auto simp: heal_def weighted_row_def)

text \<open>With probabilities that are not negative a lookup does not panic. Its items stand in the rows of the
  drop, and all its certain rows are among them.\<close>

lemma single_drop:
  assumes "drop_env_ok e" "\<forall>v\<in>set table. 0 \<le> Probability v"
  shows "\<exists>items s1. DropGetItemByDropID e ways k table s = Done (items, map (heal ways k) table, s1)
    \<and> set items \<subseteq> (\<lambda>v. (ItemId v, ItemCount v)) ` {v \<in> set table. DropId v = k}
    \<and> (\<forall>v\<in>set table. DropId v = k \<longrightarrow> DropWay v = way_CERTAIN ways \<longrightarrow> (ItemId v, ItemCount v) \<in> set items)"
proof -
  obtain items w t s1 where p: "drop_pass e ways k table [] [] s = (items, w, t, s1)" by (metis surj_pair)
  from drop_pass_spec [OF p] have t: "t = map (heal ways k) table" "w = filter (weighted_row ways k) (map (heal ways k) table)"
    and i: "set items \<subseteq> (\<lambda>v. (ItemId v, ItemCount v)) ` {v \<in> set table. DropId v = k}"
      "\<forall>v\<in>set table. DropId v = k \<longrightarrow> DropWay v = way_CERTAIN ways \<longrightarrow> (ItemId v, ItemCount v) \<in> set items" by auto
  show ?thesis
  proof (cases "w = []")
    case True
    then show ?thesis using p t(1) i by (simp add: DropGetItemByDropID_def)
  next
    case False
    have pos: "\<forall>v\<in>set w. 0 < Probability v" using assms(2) heal_weight unfolding t(2) by fastforce
    then have nn: "\<forall>x\<in>set (map Probability w). 0 \<le> x" by fastforce
    have "0 \<in> positives (map Probability w)" using False pos by (cases w) (auto simp: positives_def)
    then obtain i s2 where s: "i \<in> positives (map Probability w)" "WeightedRandomSelect e (map Probability w) s1 = Done (i, s2)"
      using WeightedRandomSelect_draw [OF assms(1) nn, of s1] by (auto split: if_splits)
    have "w ! i \<in> set w" using s(1) by (intro nth_mem) (simp add: positives_def)
    then obtain v where v: "v \<in> set table" "w ! i = heal ways k v" "weighted_row ways k (w ! i)" unfolding t(2) by auto
    have same: "ItemId (heal ways k v) = ItemId v" "ItemCount (heal ways k v) = ItemCount v" "DropId (heal ways k v) = DropId v"
      by (simp_all add: heal_def)
    then have "DropId v = k" using v(2,3) by (simp add: weighted_row_def)
    then have "(ItemId (w ! i), ItemCount (w ! i)) \<in> (\<lambda>v. (ItemId v, ItemCount v)) ` {v \<in> set table. DropId v = k}"
      using v same by auto
    then show ?thesis using False p s(2) i t(1) by (simp add: DropGetItemByDropID_def)
  qed
qed

section \<open>Samples\<close>

definition sample_row :: DropGroupConfig where
  "sample_row = \<lparr>Subid = 1, GType = 1, GDropWay = 2, DropType = 0, DropCount = 2, IsBan = 0, DropRateMap = [(2, 0), (50, 0)]\<rparr>"

definition sample_drops :: drop_env where
  "sample_drops = \<lparr>GroupDropGroupByGroupid = (\<lambda>g. if g = 1 then [Some sample_row]
       else if g = 2 then [Some (sample_row\<lparr>GType := 0, GDropWay := 3, DropRateMap := [(61, 1), (60, 3)]\<rparr>)] else []),
     GetDropItemByDropId = (\<lambda>d. if d = 50 \<or> d = 60
       then [\<lparr>DropId = d, ItemId = d div 10 * 10 - 30, ItemCount = 1, DropWay = 1, Probability = 0\<rparr>] else []),
     sort_rows = insertionSort, sort_keys = insertionSort, intn = (\<lambda>_ _. 0)\<rparr>"

lemma sample_drops_ok: "drop_env_ok sample_drops"
  by (auto simp: drop_env_ok_def sample_drops_def sample_row_def go_sort.slice_sort_axioms split: if_splits)

theorem drops_come_from_tables_witness:
  "\<exists>outcome s1. DropExecute sample_drops 5 sample_env play 1 3 0 (sample_player, 0) = ((outcome, [(30, 12), (20, 6)]), s1)
     \<and> may_drop sample_drops 1 20 \<and> outcome = run_inv_ops 5 sample_env play (sample_player, 0) [IAdd 30 12, IAdd 20 6]"
proof -
  let ?x = "DropExecute sample_drops 5 sample_env play 1 3 0 (sample_player, 0)"
  have "snd (fst ?x) = [(30, 12), (20, 6)]" by code_simp
  then obtain outcome s1 where x: "?x = ((outcome, [(30, 12), (20, 6)]), s1)" by (metis prod.collapse)
  from drops_come_from_tables [OF sample_drops_ok sample_env_ok(1) x] x show ?thesis by auto
qed

theorem weighted_choices_fair_witness:
  "card {x. x < (4::nat) \<and> fst (weightedPickKey (sample_drops\<lparr>intn := \<lambda>_ _. x\<rparr>) [(61, 1), (60, 3)] 0) = Some 60} = 3"
proof -
  have "total_weight [(61, 1), (60, 3)] (map fst [(61, 1), (60, 3)]) = 4" "rate_of [(61, 1), (60, 3)] 60 = 3"
    by (simp_all add: total_weight_def rate_of_def)
  then show ?thesis
    using weighted_choices_fair [OF sample_drops_ok, of "[(61, 1), (60, 3)]" "[]" "[1]" 0 0 60] by simp
qed

theorem select_n_or_panic_witness:
  "WeightedRandomSelectN sample_drops [1, 0] 2 0 = Panic"
proof -
  have "positives [1, 0] = {0}" by (auto simp: positives_def less_Suc_eq numeral_2_eq_2)
  then show ?thesis using select_n_or_panic [OF sample_drops_ok, of "[1, 0]" 2 1 0] by simp
qed

end
