(* ===== verification/TimeWheel.thy ===== *)
theory TimeWheel
  imports GoPrelude
begin

text \<open>
  The hierarchical timing wheel of src/lib/util/timer/timewheel.go. The scheduler goroutine handles one
  event at a time (a tick, a request to add, a request to remove), callers only put requests into two
  buffered channels; a run of the program is a list of such steps. Durations are \<open>int64\<close> nanoseconds.
  The job is seen through the log \<open>fired\<close> of the tasks it was called for and the time of each call;
  what it does, and whether in a goroutine of its own, does not act on the wheel.
\<close>

section \<open>Tasks, layers and the wheel\<close>

record ('k, 'd) task =
  expiration :: int
  tkey :: "'k option"
  tdata :: 'd

record ('k, 'd) layer =
  slots :: "('k, 'd) task list list"
  slotNum :: nat
  perSlot :: int
  capacity :: int
  curPos :: nat

record ('k, 'd) TimeWheel =
  tickInterval :: int
  layers :: "('k, 'd) layer list"
  asyncJob :: bool
  addCh :: "('k, 'd) task list"
  removeCh :: "'k list"
  runners :: nat
  stopped :: bool
  loc :: "'k \<Rightarrow> (nat \<times> nat) option"
  cancelled :: "'k set"
  elapsed :: int
  slotNumCfg :: nat
  layersCfg :: nat
  fired :: "(('k, 'd) task \<times> int) list"

datatype tw_option = WithTickInterval int | WithSlotNum int | WithLayers int | WithAsyncJob bool

fun apply_option :: "tw_option \<Rightarrow> ('k, 'd) TimeWheel \<Rightarrow> ('k, 'd) TimeWheel" where
  "apply_option (WithTickInterval d) tw = (if d > 0 then tw\<lparr>tickInterval := d\<rparr> else tw)"
| "apply_option (WithSlotNum n) tw = (if n > 0 then tw\<lparr>slotNumCfg := nat n\<rparr> else tw)"
| "apply_option (WithLayers n) tw = (if n > 0 then tw\<lparr>layersCfg := nat n\<rparr> else tw)"
| "apply_option (WithAsyncJob b) tw = tw\<lparr>asyncJob := b\<rparr>"

text \<open>The loop of \<open>buildLayers\<close>: the next layer's \<open>perSlot\<close> is the capacity of this one.\<close>

fun build_layers :: "nat \<Rightarrow> nat \<Rightarrow> int \<Rightarrow> ('k, 'd) layer list" where
  "build_layers 0 num per = []"
| "build_layers (Suc n) num per =
     \<lparr>slots = replicate num [], slotNum = num, perSlot = per, capacity = i64 (per * int num), curPos = 0\<rparr>
       # build_layers n num (i64 (per * int num))"

definition buildLayers :: "('k, 'd) TimeWheel \<Rightarrow> ('k, 'd) TimeWheel" where
  "buildLayers tw = tw\<lparr>layers := layers tw @ build_layers (layersCfg tw) (slotNumCfg tw) (tickInterval tw)\<rparr>"

definition addCh_cap :: nat where "addCh_cap = 1024"
definition removeCh_cap :: nat where "removeCh_cap = 128"

definition NewTimeWheel :: "bool \<Rightarrow> tw_option list \<Rightarrow> ('k, 'd) TimeWheel option" where
  "NewTimeWheel hasJob opts =
     (if \<not> hasJob then None
      else Some (buildLayers (fold apply_option opts
        \<lparr>tickInterval = 100000000, layers = [], asyncJob = False, addCh = [], removeCh = [], runners = 0, stopped = False,
         loc = Map.empty, cancelled = {}, elapsed = 0, slotNumCfg = 60, layersCfg = 3, fired = []\<rparr>)))"

section \<open>The callers' side\<close>

text \<open>\<open>Start\<close> starts a scheduler goroutine each time it is called before \<open>Stop\<close>.\<close>

definition Start :: "('k, 'd) TimeWheel \<Rightarrow> ('k, 'd) TimeWheel" where
  "Start tw = (if stopped tw then tw else tw\<lparr>runners := Suc (runners tw)\<rparr>)"

definition Stop :: "('k, 'd) TimeWheel \<Rightarrow> ('k, 'd) TimeWheel" where
  "Stop tw = tw\<lparr>stopped := True\<rparr>"

definition new_task :: "int \<Rightarrow> 'k option \<Rightarrow> 'd \<Rightarrow> ('k, 'd) TimeWheel \<Rightarrow> ('k, 'd) task" where
  "new_task delay key data tw =
     \<lparr>expiration = i64 (elapsed tw + (if delay < 0 then 0 else delay)), tkey = key, tdata = data\<rparr>"

definition AddTimer :: "int \<Rightarrow> 'k option \<Rightarrow> 'd \<Rightarrow> ('k, 'd) TimeWheel \<Rightarrow> bool \<times> ('k, 'd) TimeWheel" where
  "AddTimer delay key data tw =
     (if stopped tw then (False, tw)
      else let t = new_task delay key data tw
           in if length (addCh tw) < addCh_cap then (True, tw\<lparr>addCh := addCh tw @ [t]\<rparr>) else (False, tw))"

definition RemoveTimer :: "'k option \<Rightarrow> ('k, 'd) TimeWheel \<Rightarrow> ('k, 'd) TimeWheel" where
  "RemoveTimer key tw =
     (case key of
        None \<Rightarrow> tw
      | Some k \<Rightarrow>
          if stopped tw then tw
          else if length (removeCh tw) < removeCh_cap then tw\<lparr>removeCh := removeCh tw @ [k]\<rparr> else tw)"

section \<open>The scheduler's side\<close>

definition exec :: "('k, 'd) task \<Rightarrow> ('k, 'd) TimeWheel \<Rightarrow> ('k, 'd) TimeWheel" where
  "exec t tw = tw\<lparr>fired := fired tw @ [(t, elapsed tw)]\<rparr>"

abbreviation slot_at :: "('k, 'd) TimeWheel \<Rightarrow> nat \<Rightarrow> nat \<Rightarrow> ('k, 'd) task list" where
  "slot_at tw i s \<equiv> slots (layers tw ! i) ! s"

definition set_slot :: "nat \<Rightarrow> nat \<Rightarrow> ('k, 'd) task list \<Rightarrow> ('k, 'd) TimeWheel \<Rightarrow> ('k, 'd) TimeWheel" where
  "set_slot i s q tw = tw\<lparr>layers := (layers tw)[i := (layers tw ! i)\<lparr>slots := (slots (layers tw ! i))[s := q]\<rparr>]\<rparr>"

definition set_cur :: "nat \<Rightarrow> nat \<Rightarrow> ('k, 'd) TimeWheel \<Rightarrow> ('k, 'd) TimeWheel" where
  "set_cur i c tw = tw\<lparr>layers := (layers tw)[i := (layers tw ! i)\<lparr>curPos := c\<rparr>]\<rparr>"

text \<open>The loop that chooses a layer: the first from \<open>i\<close> on with room, the last one if none has.\<close>

fun choose_layer :: "('k, 'd) layer list \<Rightarrow> int \<Rightarrow> nat \<Rightarrow> nat \<Rightarrow> nat" where
  "choose_layer ls remaining i 0 = i"
| "choose_layer ls remaining i (Suc n) =
     (if capacity (ls ! i) > remaining then i else choose_layer ls remaining (Suc i) n)"

definition is_cancelled :: "('k, 'd) TimeWheel \<Rightarrow> ('k, 'd) task \<Rightarrow> bool" where
  "is_cancelled tw t \<longleftrightarrow> (case tkey t of None \<Rightarrow> False | Some k \<Rightarrow> k \<in> cancelled tw)"

definition clear_mark :: "('k, 'd) task \<Rightarrow> ('k, 'd) TimeWheel \<Rightarrow> ('k, 'd) TimeWheel" where
  "clear_mark t tw = (case tkey t of None \<Rightarrow> tw | Some k \<Rightarrow> tw\<lparr>cancelled := cancelled tw - {k}\<rparr>)"

definition drop_loc :: "('k, 'd) task \<Rightarrow> ('k, 'd) TimeWheel \<Rightarrow> ('k, 'd) TimeWheel" where
  "drop_loc t tw = (case tkey t of None \<Rightarrow> tw | Some k \<Rightarrow> tw\<lparr>loc := (loc tw)(k := None)\<rparr>)"

definition put_loc :: "('k, 'd) task \<Rightarrow> nat \<times> nat \<Rightarrow> ('k, 'd) TimeWheel \<Rightarrow> ('k, 'd) TimeWheel" where
  "put_loc t p tw = (case tkey t of None \<Rightarrow> tw | Some k \<Rightarrow> tw\<lparr>loc := (loc tw)(k \<mapsto> p)\<rparr>)"

definition scheduleIn :: "('k, 'd) task \<Rightarrow> nat \<Rightarrow> ('k, 'd) TimeWheel \<Rightarrow> ('k, 'd) TimeWheel" where
  "scheduleIn t maxIdx tw =
     (if is_cancelled tw t then clear_mark t tw
      else let remaining = i64 (expiration t - elapsed tw);
               remaining = (if remaining < 0 then 0 else remaining);
               chosen = choose_layer (layers tw) remaining 0 maxIdx;
               l = layers tw ! chosen;
               ticks = remaining div perSlot l;
               pos = nat ((int (curPos l) + ticks) mod int (slotNum l))
           in put_loc t (chosen, pos) (set_slot chosen pos (slot_at tw chosen pos @ [t]) tw))"

definition schedule :: "('k, 'd) task \<Rightarrow> ('k, 'd) TimeWheel \<Rightarrow> ('k, 'd) TimeWheel" where
  "schedule t tw =
     (let remaining = i64 (expiration t - elapsed tw)
      in if remaining \<le> 0 then exec t tw else scheduleIn t (length (layers tw) - 1) tw)"

text \<open>The loop of \<open>runSlot\<close> over a slot: what stays in it, and the wheel after the calls.\<close>

fun run_tasks :: "('k, 'd) task list \<Rightarrow> ('k, 'd) TimeWheel \<Rightarrow> ('k, 'd) task list \<times> ('k, 'd) TimeWheel" where
  "run_tasks [] tw = ([], tw)"
| "run_tasks (t # ts) tw =
     (if expiration t \<le> elapsed tw then
        let tw1 = drop_loc t tw
        in run_tasks ts (if is_cancelled tw1 t then clear_mark t tw1 else exec t tw1)
      else case run_tasks ts tw of (rest, tw1) \<Rightarrow> (t # rest, tw1))"

definition runSlot :: "nat \<Rightarrow> nat \<Rightarrow> ('k, 'd) TimeWheel \<Rightarrow> ('k, 'd) TimeWheel" where
  "runSlot idx slotIdx tw = (case run_tasks (slot_at tw idx slotIdx) tw of (rest, tw1) \<Rightarrow> set_slot idx slotIdx rest tw1)"

fun cascade_tasks :: "nat \<Rightarrow> ('k, 'd) task list \<Rightarrow> ('k, 'd) TimeWheel \<Rightarrow> ('k, 'd) TimeWheel" where
  "cascade_tasks maxIdx [] tw = tw"
| "cascade_tasks maxIdx (t # ts) tw =
     (let tw1 = drop_loc t tw
      in cascade_tasks maxIdx ts (if is_cancelled tw1 t then clear_mark t tw1 else scheduleIn t maxIdx tw1))"

definition cascadeDown :: "nat \<Rightarrow> ('k, 'd) TimeWheel \<Rightarrow> ('k, 'd) TimeWheel" where
  "cascadeDown idx tw =
     (if idx = 0 then tw
      else let s = curPos (layers tw ! idx)
           in cascade_tasks (idx - 1) (slot_at tw idx s) (set_slot idx s [] tw))"

lemma set_slot_simps [simp]:
  "length (layers (set_slot i s q tw)) = length (layers tw)"
  "elapsed (set_slot i s q tw) = elapsed tw" "fired (set_slot i s q tw) = fired tw"
  "cancelled (set_slot i s q tw) = cancelled tw"
  by (simp_all add: set_slot_def)

lemma set_cur_simps [simp]:
  "length (layers (set_cur i c tw)) = length (layers tw)"
  "elapsed (set_cur i c tw) = elapsed tw" "fired (set_cur i c tw) = fired tw"
  "cancelled (set_cur i c tw) = cancelled tw"
  by (simp_all add: set_cur_def)

lemma mark_simps [simp]:
  "layers (drop_loc t tw) = layers tw" "layers (clear_mark t tw) = layers tw" "layers (put_loc t p tw) = layers tw"
  "layers (exec t tw) = layers tw" "elapsed (drop_loc t tw) = elapsed tw" "elapsed (clear_mark t tw) = elapsed tw"
  "elapsed (put_loc t p tw) = elapsed tw" "elapsed (exec t tw) = elapsed tw"
  "fired (drop_loc t tw) = fired tw" "fired (clear_mark t tw) = fired tw" "fired (put_loc t p tw) = fired tw"
  "cancelled (drop_loc t tw) = cancelled tw" "cancelled (put_loc t p tw) = cancelled tw" "cancelled (exec t tw) = cancelled tw"
  by (simp_all add: drop_loc_def clear_mark_def put_loc_def exec_def split: option.splits)

lemma is_cancelled_drop_loc [simp]: "is_cancelled (drop_loc t tw) u = is_cancelled tw u"
  by (simp add: is_cancelled_def split: option.splits)

lemma run_tasks_layers [simp]: "layers (snd (run_tasks ts tw)) = layers tw"
  by (induction ts tw rule: run_tasks.induct) (auto simp: Let_def split: prod.splits)

lemma runSlot_length [simp]: "length (layers (runSlot idx s tw)) = length (layers tw)"
  by (simp add: runSlot_def case_prod_beta)

text \<open>\<open>tickLayer\<close> goes up the layers as long as pointers wrap.\<close>

function tickLayer :: "nat \<Rightarrow> ('k, 'd) TimeWheel \<Rightarrow> ('k, 'd) TimeWheel" where
  "tickLayer idx tw =
     (let tw1 = runSlot idx (curPos (layers tw ! idx)) tw;
          c = Suc (curPos (layers tw1 ! idx))
      in if c \<ge> slotNum (layers tw1 ! idx) then
           let tw2 = set_cur idx 0 tw1
           in if Suc idx < length (layers tw2) then cascadeDown (Suc idx) (tickLayer (Suc idx) tw2) else tw2
         else set_cur idx c tw1)"
  by pat_completeness auto

termination
  by (relation "measure (\<lambda>(idx, tw). length (layers tw) - idx)") auto

declare tickLayer.simps [simp del]

definition advance :: "int \<Rightarrow> ('k, 'd) TimeWheel \<Rightarrow> ('k, 'd) TimeWheel" where
  "advance delta tw = tickLayer 0 (tw\<lparr>elapsed := i64 (elapsed tw + delta)\<rparr>)"

text \<open>Taking a task out of the slot the index names: the first one with the key.\<close>

fun remove_first :: "'k \<Rightarrow> ('k, 'd) task list \<Rightarrow> ('k, 'd) task list option" where
  "remove_first k [] = None"
| "remove_first k (t # ts) = (if tkey t = Some k then Some ts else map_option (Cons t) (remove_first k ts))"

definition removeByKey :: "'k \<Rightarrow> ('k, 'd) TimeWheel \<Rightarrow> ('k, 'd) TimeWheel" where
  "removeByKey k tw =
     (let tw1 = tw\<lparr>cancelled := insert k (cancelled tw)\<rparr>
      in case loc tw1 k of
        None \<Rightarrow> tw1
      | Some (i, s) \<Rightarrow>
          let tw2 = tw1\<lparr>loc := (loc tw1)(k := None)\<rparr>
          in case remove_first k (slot_at tw2 i s) of
               None \<Rightarrow> tw2
             | Some q \<Rightarrow> (set_slot i s q tw2)\<lparr>cancelled := cancelled tw2 - {k}\<rparr>)"

section \<open>Runs\<close>

text \<open>What callers do, and the branches of the \<open>select\<close> of \<open>run\<close>: a tick of the ticker, a request
  from one of the channels, the end after \<open>Stop\<close>. A scheduler step needs a running scheduler.\<close>

datatype ('k, 'd) tw_op =
    TStart | TStop | TAdd int "'k option" 'd | TRemove "'k option" | STick | SAdd | SRemove | SDone

fun exec_tw :: "('k, 'd) TimeWheel \<Rightarrow> ('k, 'd) tw_op \<Rightarrow> ('k, 'd) TimeWheel" where
  "exec_tw tw TStart = Start tw"
| "exec_tw tw TStop = Stop tw"
| "exec_tw tw (TAdd d k x) = snd (AddTimer d k x tw)"
| "exec_tw tw (TRemove k) = RemoveTimer k tw"
| "exec_tw tw STick = (if runners tw = 0 then tw else advance (tickInterval tw) tw)"
| "exec_tw tw SAdd = (if runners tw = 0 then tw else
     case addCh tw of [] \<Rightarrow> tw | t # ts \<Rightarrow> schedule t (tw\<lparr>addCh := ts\<rparr>))"
| "exec_tw tw SRemove = (if runners tw = 0 then tw else
     case removeCh tw of [] \<Rightarrow> tw | k # ks \<Rightarrow> removeByKey k (tw\<lparr>removeCh := ks\<rparr>))"
| "exec_tw tw SDone = (if stopped tw then tw\<lparr>runners := runners tw - 1\<rparr> else tw)"

text \<open>Steps within the range of \<open>int64\<close> time.\<close>

definition max_time :: int where "max_time = 9223372036854775808"

fun in_time :: "('k, 'd) TimeWheel \<Rightarrow> ('k, 'd) tw_op \<Rightarrow> bool" where
  "in_time tw STick = (elapsed tw + tickInterval tw < max_time)"
| "in_time tw (TAdd d k x) = (elapsed tw + d < max_time)"
| "in_time tw _ = True"

section \<open>The shape of the wheel and its tasks\<close>

definition shape :: "int \<Rightarrow> nat \<Rightarrow> ('k, 'd) layer list \<Rightarrow> bool" where
  "shape T S ls \<longleftrightarrow> (\<forall>i < length ls. slotNum (ls ! i) = S \<and> length (slots (ls ! i)) = S \<and> curPos (ls ! i) < S
     \<and> perSlot (ls ! i) = T * int S ^ i \<and> capacity (ls ! i) = T * int S ^ Suc i)"

lemma shapeD:
  assumes "shape T S ls" "i < length ls"
  shows "slotNum (ls ! i) = S" "length (slots (ls ! i)) = S" "curPos (ls ! i) < S"
    "perSlot (ls ! i) = T * int S ^ i" "capacity (ls ! i) = T * int S ^ Suc i"
  using assms by (simp_all add: shape_def)

lemma shape_set_slot [simp]: "shape T S (layers tw) \<Longrightarrow> shape T S (layers (set_slot i s q tw))"
  by (cases "i < length (layers tw)") (auto simp: shape_def set_slot_def nth_list_update not_less)

lemma shape_set_cur: "shape T S (layers tw) \<Longrightarrow> c < S \<Longrightarrow> shape T S (layers (set_cur i c tw))"
  by (cases "i < length (layers tw)") (auto simp: shape_def set_cur_def nth_list_update not_less)

text \<open>All tasks in slots, and these together with the ones the job was called for.\<close>

definition mounted :: "('k, 'd) TimeWheel \<Rightarrow> ('k, 'd) task multiset" where
  "mounted tw = (\<Sum>l\<leftarrow>layers tw. \<Sum>q\<leftarrow>slots l. mset q)"

definition tally :: "(('k, 'd) task \<Rightarrow> bool) \<Rightarrow> ('k, 'd) TimeWheel \<Rightarrow> ('k, 'd) task multiset" where
  "tally P tw = filter_mset P (mounted tw + mset (map fst (fired tw)))"

definition held :: "('k, 'd) TimeWheel \<Rightarrow> nat \<Rightarrow> nat \<Rightarrow> ('k, 'd) task \<Rightarrow> bool" where
  "held tw i s t \<longleftrightarrow> i < length (layers tw) \<and> s < length (slots (layers tw ! i)) \<and> t \<in> set (slot_at tw i s)"

lemma sum_mset_update:
  "i < length xs \<Longrightarrow> (\<Sum>x\<leftarrow>xs[i := y]. f x) + f (xs ! i) = (\<Sum>x\<leftarrow>xs. f x) + (f y :: 'a multiset)"
  by (induction xs arbitrary: i) (auto simp: ac_simps split: nat.splits)

lemma add_eq_swap: "a + f = m + g \<Longrightarrow> g + s = f + q \<Longrightarrow> a + s = m + (q :: 'a multiset)"
proof -
  assume "a + f = m + g" "g + s = f + q"
  then have "f + (a + s) = (m + g) + s" by (simp add: ac_simps)
  also have "\<dots> = f + (m + q)" using \<open>g + s = f + q\<close> by (simp add: ac_simps)
  finally show ?thesis by simp
qed

lemma mounted_set_slot:
  assumes "i < length (layers tw)" "s < length (slots (layers tw ! i))"
  shows "mounted (set_slot i s q tw) + mset (slot_at tw i s) = mounted tw + mset q"
proof -
  let ?f = "\<lambda>l :: ('a, 'b) layer. \<Sum>q\<leftarrow>slots l. mset q"
  let ?l = "layers tw ! i"
  have "mounted (set_slot i s q tw) + ?f ?l = mounted tw + ?f (?l\<lparr>slots := (slots ?l)[s := q]\<rparr>)"
    unfolding mounted_def set_slot_def using sum_mset_update [OF assms(1), of ?f] by simp
  moreover have "?f (?l\<lparr>slots := (slots ?l)[s := q]\<rparr>) + mset (slot_at tw i s) = ?f ?l + mset q"
    using sum_mset_update [OF assms(2), of mset] by simp
  ultimately show ?thesis by (rule add_eq_swap)
qed

lemma mounted_set_cur [simp]: "mounted (set_cur i c tw) = mounted tw"
proof (cases "i < length (layers tw)")
  case True
  let ?f = "\<lambda>l :: ('a, 'b) layer. \<Sum>q\<leftarrow>slots l. mset q"
  have "mounted (set_cur i c tw) + ?f (layers tw ! i) = mounted tw + ?f (layers tw ! i)"
    unfolding mounted_def set_cur_def using sum_mset_update [OF True, of ?f] by simp
  then show ?thesis by simp
qed (simp add: mounted_def set_cur_def not_less list_update_beyond)

lemma mounted_marks [simp]:
  "mounted (drop_loc t tw) = mounted tw" "mounted (clear_mark t tw) = mounted tw" "mounted (put_loc t p tw) = mounted tw"
  "mounted (exec t tw) = mounted tw"
  by (simp_all add: mounted_def)

lemma sum_mset_in: "t \<in># (\<Sum>x\<leftarrow>xs. f x) \<longleftrightarrow> (\<exists>i < length xs. t \<in># (f (xs ! i) :: 'a multiset))"
proof
  assume "t \<in># (\<Sum>x\<leftarrow>xs. f x)"
  then obtain x where "x \<in> set xs" "t \<in># f x" by (induction xs) auto
  then show "\<exists>i < length xs. t \<in># f (xs ! i)" by (auto simp: in_set_conv_nth)
next
  assume "\<exists>i < length xs. t \<in># f (xs ! i)"
  then obtain i where "i < length xs" "t \<in># f (xs ! i)" by blast
  then show "t \<in># (\<Sum>x\<leftarrow>xs. f x)"
  proof (induction xs arbitrary: i)
    case (Cons x xs)
    then show ?case by (cases i) auto
  qed simp
qed

lemma mounted_held: "t \<in># mounted tw \<longleftrightarrow> (\<exists>i s. held tw i s t)"
  unfolding mounted_def sum_mset_in by (auto simp: held_def)

section \<open>What scheduler code does to the tasks\<close>

text \<open>Code that handles due tasks and moves others loses none, unless it is marked as cancelled, adds
  none, calls the job only for due tasks, and changes nothing else but pointers and marks.\<close>

definition frame :: "('k, 'd) TimeWheel \<Rightarrow> int \<times> ('k, 'd) task list \<times> 'k list \<times> nat \<times> bool \<times> nat \<times> nat \<times> int" where
  "frame tw = (tickInterval tw, addCh tw, removeCh tw, runners tw, stopped tw, slotNumCfg tw, layersCfg tw, elapsed tw)"

definition passes :: "('k, 'd) TimeWheel \<Rightarrow> ('k, 'd) TimeWheel \<Rightarrow> bool" where
  "passes tw tw' \<longleftrightarrow> length (layers tw') = length (layers tw) \<and> frame tw' = frame tw \<and> cancelled tw' \<subseteq> cancelled tw
     \<and> set_mset (mounted tw') \<subseteq> set_mset (mounted tw)
     \<and> (\<exists>new. fired tw' = fired tw @ new \<and> (\<forall>(t, a) \<in> set new. a = elapsed tw \<and> expiration t \<le> a \<and> t \<in># mounted tw))
     \<and> (\<forall>P. (\<forall>t. P t \<longrightarrow> \<not> is_cancelled tw t) \<longrightarrow> tally P tw' = tally P tw)"

lemma frame_simps [simp]:
  "frame (set_slot i s q tw) = frame tw" "frame (set_cur i c tw) = frame tw" "frame (drop_loc t tw) = frame tw"
  "frame (clear_mark t tw) = frame tw" "frame (put_loc t p tw) = frame tw" "frame (exec t tw) = frame tw"
  by (simp_all add: frame_def set_slot_def set_cur_def drop_loc_def clear_mark_def put_loc_def exec_def split: option.splits)

lemma frame_elapsed: "frame tw' = frame tw \<Longrightarrow> elapsed tw' = elapsed tw"
  by (simp add: frame_def)

lemma cancelled_mono: "cancelled tw' \<subseteq> cancelled tw \<Longrightarrow> is_cancelled tw' t \<Longrightarrow> is_cancelled tw t"
  by (auto simp: is_cancelled_def split: option.splits)

lemma clear_mark_subset: "cancelled (clear_mark t tw) \<subseteq> cancelled tw"
  by (auto simp: clear_mark_def split: option.splits)

lemma passesD:
  assumes "passes tw tw'"
  shows "length (layers tw') = length (layers tw)" "frame tw' = frame tw" "cancelled tw' \<subseteq> cancelled tw"
    "set_mset (mounted tw') \<subseteq> set_mset (mounted tw)"
    "\<exists>new. fired tw' = fired tw @ new \<and> (\<forall>(t, a) \<in> set new. a = elapsed tw \<and> expiration t \<le> a \<and> t \<in># mounted tw)"
    "(\<And>t. P t \<Longrightarrow> \<not> is_cancelled tw t) \<Longrightarrow> tally P tw' = tally P tw"
  using assms by (simp_all add: passes_def)

lemma passes_trans:
  assumes ab: "passes a b" and bc: "passes b c"
  shows "passes a c"
proof -
  note AB = passesD [OF ab] and BC = passesD [OF bc]
  have "tally P c = tally P a" if P: "\<And>t. P t \<Longrightarrow> \<not> is_cancelled a t" for P
    using AB(6) [of P] BC(6) [of P] P cancelled_mono [OF AB(3)] by metis
  moreover have "\<exists>new. fired c = fired a @ new \<and> (\<forall>(t, x) \<in> set new. x = elapsed a \<and> expiration t \<le> x \<and> t \<in># mounted a)"
  proof -
    obtain new where n: "fired b = fired a @ new" "\<forall>(t, x) \<in> set new. x = elapsed a \<and> expiration t \<le> x \<and> t \<in># mounted a"
      using AB(5) by (elim exE conjE)
    obtain new' where n': "fired c = fired b @ new'" "\<forall>(t, x) \<in> set new'. x = elapsed b \<and> expiration t \<le> x \<and> t \<in># mounted b"
      using BC(5) by (elim exE conjE)
    have "\<forall>(t, x) \<in> set new'. x = elapsed a \<and> expiration t \<le> x \<and> t \<in># mounted a"
      using n'(2) AB(4) frame_elapsed [OF AB(2)] by (auto dest: subsetD)
    then show ?thesis using n n'(1) by (intro exI [of _ "new @ new'"]) auto
  qed
  ultimately show ?thesis
    using AB(1,2,3,4) BC(1,2,3,4) by (simp add: passes_def) (metis subset_trans)
qed

lemma passes_refl [simp]: "passes tw tw"
  by (simp add: passes_def)

lemma passes_set_cur: "passes tw (set_cur i c tw)"
  by (simp add: passes_def tally_def)

lemma run_tasks_passes:
  "run_tasks ts tw = (rest, tw1) \<Longrightarrow>
     frame tw1 = frame tw \<and> layers tw1 = layers tw \<and> cancelled tw1 \<subseteq> cancelled tw \<and> set rest \<subseteq> set ts
     \<and> (\<forall>t\<in>set rest. elapsed tw < expiration t)
     \<and> (\<exists>new. fired tw1 = fired tw @ new \<and> (\<forall>(t, a) \<in> set new. a = elapsed tw \<and> expiration t \<le> a \<and> t \<in> set ts))
     \<and> (\<forall>P. (\<forall>t. P t \<longrightarrow> \<not> is_cancelled tw t) \<longrightarrow>
          filter_mset P (mset rest + mset (map fst (fired tw1))) = filter_mset P (mset ts + mset (map fst (fired tw))))"
proof (induction ts arbitrary: tw rest tw1)
  case (Cons t ts)
  show ?case
  proof (cases "expiration t \<le> elapsed tw")
    case True
    define tw2 where "tw2 = (if is_cancelled tw t then clear_mark t (drop_loc t tw) else exec t (drop_loc t tw))"
    have "run_tasks ts tw2 = (rest, tw1)" using Cons.prems True by (simp add: tw2_def Let_def)
    note IH = Cons.IH [OF this]
    have tw2: "frame tw2 = frame tw" "layers tw2 = layers tw" "cancelled tw2 \<subseteq> cancelled tw" "elapsed tw2 = elapsed tw"
      "fired tw2 = (if is_cancelled tw t then fired tw else fired tw @ [(t, elapsed tw)])"
      using clear_mark_subset [of t "drop_loc t tw"] by (auto simp: tw2_def) (simp_all add: exec_def drop_loc_def split: option.splits)
    obtain new where new: "fired tw1 = fired tw2 @ new" "\<forall>(t, a) \<in> set new. a = elapsed tw \<and> expiration t \<le> a \<and> t \<in> set ts"
      using IH tw2(4) by auto
    have "\<exists>new. fired tw1 = fired tw @ new \<and> (\<forall>(u, a) \<in> set new. a = elapsed tw \<and> expiration u \<le> a \<and> u \<in> set (t # ts))"
      using new True tw2(5) by (cases "is_cancelled tw t") auto
    moreover have "filter_mset P (mset rest + mset (map fst (fired tw1))) = filter_mset P (mset (t # ts) + mset (map fst (fired tw)))"
      if P: "\<forall>t. P t \<longrightarrow> \<not> is_cancelled tw t" for P
    proof -
      have "\<forall>t. P t \<longrightarrow> \<not> is_cancelled tw2 t" using P cancelled_mono [OF tw2(3)] by blast
      then have "filter_mset P (mset rest + mset (map fst (fired tw1))) = filter_mset P (mset ts + mset (map fst (fired tw2)))"
        using IH by blast
      then show ?thesis using P tw2(5) by (auto simp: ac_simps)
    qed
    ultimately show ?thesis using IH tw2 by auto
  next
    case False
    then obtain rest' where r: "run_tasks ts tw = (rest', tw1)" "rest = t # rest'"
      using Cons.prems by (auto split: prod.splits)
    note IH = Cons.IH [OF r(1)]
    then obtain new where new: "fired tw1 = fired tw @ new" "\<forall>(t, a) \<in> set new. a = elapsed tw \<and> expiration t \<le> a \<and> t \<in> set ts"
      by blast
    then have "\<exists>new. fired tw1 = fired tw @ new \<and> (\<forall>(u, a) \<in> set new. a = elapsed tw \<and> expiration u \<le> a \<and> u \<in> set (t # ts))"
      by auto
    moreover have "filter_mset P (mset rest + mset (map fst (fired tw1))) = filter_mset P (mset (t # ts) + mset (map fst (fired tw)))"
      if "\<forall>t. P t \<longrightarrow> \<not> is_cancelled tw t" for P
    proof -
      have "filter_mset P (mset rest' + mset (map fst (fired tw1))) = filter_mset P (mset ts + mset (map fst (fired tw)))"
        using IH that by blast
      then show ?thesis by (simp add: r(2))
    qed
    ultimately show ?thesis using IH r(2) False by auto
  qed
qed auto

lemma mounted_set_slot_layers: "layers tw1 = layers tw \<Longrightarrow> mounted (set_slot i s q tw1) = mounted (set_slot i s q tw)"
  by (simp add: mounted_def set_slot_def)

lemma runSlot_passes:
  assumes "shape T S (layers tw)" "idx < length (layers tw)" "s < S"
  shows "passes tw (runSlot idx s tw)"
proof -
  obtain rest tw1 where r: "run_tasks (slot_at tw idx s) tw = (rest, tw1)" by fastforce
  note R = run_tasks_passes [OF r]
  let ?tw' = "set_slot idx s rest tw1"
  have ly: "layers tw1 = layers tw" using R by blast
  have M: "mounted ?tw' + mset (slot_at tw idx s) = mounted tw + mset rest"
    unfolding mounted_set_slot_layers [OF ly] using assms by (intro mounted_set_slot) (simp_all add: shapeD)
  have held: "t \<in># mounted tw" if "t \<in> set (slot_at tw idx s)" for t
    unfolding mounted_held using assms that by (intro exI [of _ idx] exI [of _ s]) (simp add: held_def shapeD)
  have sub: "set_mset (mounted ?tw') \<subseteq> set_mset (mounted tw)"
  proof
    fix t assume "t \<in># mounted ?tw'"
    then have "t \<in># mounted tw + mset rest" unfolding M [symmetric] by simp
    then show "t \<in># mounted tw" using held R by auto
  qed
  have tally: "tally P ?tw' = tally P tw" if P: "\<forall>t. P t \<longrightarrow> \<not> is_cancelled tw t" for P
  proof -
    have f: "filter_mset P (mset rest) + filter_mset P (mset (map fst (fired tw1)))
        = filter_mset P (mset (slot_at tw idx s)) + filter_mset P (mset (map fst (fired tw)))"
      using R P by (simp only: filter_union_mset [symmetric])
    have m: "filter_mset P (mounted ?tw') + filter_mset P (mset (slot_at tw idx s)) = filter_mset P (mounted tw) + filter_mset P (mset rest)"
      using arg_cong [OF M, of "filter_mset P"] by simp
    show ?thesis using add_eq_swap [OF m f] by (simp add: tally_def)
  qed
  obtain new where "fired tw1 = fired tw @ new" "\<forall>(t, a) \<in> set new. a = elapsed tw \<and> expiration t \<le> a \<and> t \<in> set (slot_at tw idx s)"
    using R by blast
  then have "\<exists>new. fired ?tw' = fired tw @ new \<and> (\<forall>(t, a) \<in> set new. a = elapsed tw \<and> expiration t \<le> a \<and> t \<in># mounted tw)"
    using held by (intro exI [of _ new]) auto
  moreover have "runSlot idx s tw = ?tw'" by (simp add: runSlot_def r)
  ultimately show ?thesis using R sub tally by (simp add: passes_def ly)
qed

text \<open>Mounting a task: nothing but the slot chosen grows.\<close>

definition target :: "('k, 'd) task \<Rightarrow> nat \<Rightarrow> ('k, 'd) TimeWheel \<Rightarrow> nat \<times> nat" where
  "target t maxIdx tw =
     (let remaining = i64 (expiration t - elapsed tw);
          remaining = (if remaining < 0 then 0 else remaining);
          chosen = choose_layer (layers tw) remaining 0 maxIdx;
          l = layers tw ! chosen
      in (chosen, nat ((int (curPos l) + remaining div perSlot l) mod int (slotNum l))))"

lemma scheduleIn_target:
  "scheduleIn t maxIdx tw = (if is_cancelled tw t then clear_mark t tw
     else case target t maxIdx tw of (i, s) \<Rightarrow> put_loc t (i, s) (set_slot i s (slot_at tw i s @ [t]) tw))"
  by (simp add: scheduleIn_def target_def Let_def)

lemma choose_layer_range: "i \<le> choose_layer ls r i m \<and> choose_layer ls r i m \<le> i + m"
  by (induction ls r i m rule: choose_layer.induct) (auto simp: le_Suc_eq)

lemma target_range:
  assumes "shape T S (layers tw)" "0 < S" "maxIdx < length (layers tw)" "target t maxIdx tw = (i, s)"
  shows "i \<le> maxIdx" "i < length (layers tw)" "s < S"
proof -
  show i: "i \<le> maxIdx" using assms(4) choose_layer_range [of 0] by (auto simp: target_def Let_def)
  then show l: "i < length (layers tw)" using assms(3) by simp
  have "int (slotNum (layers tw ! i)) = int S" using shapeD(1) [OF assms(1) l] by simp
  moreover obtain x where "s = nat (x mod int (slotNum (layers tw ! i)))" using assms(4) by (auto simp: target_def Let_def)
  ultimately show "s < S" using assms(2) by (simp add: nat_less_iff)
qed

lemma mounted_target:
  assumes "shape T S (layers tw)" "0 < S" "maxIdx < length (layers tw)" "target t maxIdx tw = (i, s)"
  shows "mounted (set_slot i s (slot_at tw i s @ [t]) tw) = mounted tw + {#t#}"
proof -
  have "mounted (set_slot i s (slot_at tw i s @ [t]) tw) + mset (slot_at tw i s) = mounted tw + mset (slot_at tw i s @ [t])"
    using target_range [OF assms] assms(1) by (intro mounted_set_slot) (simp_all add: shapeD)
  then show ?thesis by (simp add: ac_simps)
qed

lemma frame_cong: "layers a = layers b \<Longrightarrow> mounted a = mounted b"
  by (simp add: mounted_def)

text \<open>What \<open>scheduleIn\<close> does, in the terms of \<^const>\<open>passes\<close>.\<close>

lemma scheduleIn_effect:
  assumes "shape T S (layers tw)" "0 < S" "maxIdx < length (layers tw)"
  shows "frame (scheduleIn t maxIdx tw) = frame tw" "fired (scheduleIn t maxIdx tw) = fired tw"
    "length (layers (scheduleIn t maxIdx tw)) = length (layers tw)"
    "shape T S (layers (scheduleIn t maxIdx tw))" "cancelled (scheduleIn t maxIdx tw) \<subseteq> cancelled tw"
    "mounted (scheduleIn t maxIdx tw) = mounted tw + (if is_cancelled tw t then {#} else {#t#})"
proof -
  obtain i s where t: "target t maxIdx tw = (i, s)" by fastforce
  note M = mounted_target [OF assms t]
  show "frame (scheduleIn t maxIdx tw) = frame tw" "fired (scheduleIn t maxIdx tw) = fired tw"
    "length (layers (scheduleIn t maxIdx tw)) = length (layers tw)" "shape T S (layers (scheduleIn t maxIdx tw))"
    "cancelled (scheduleIn t maxIdx tw) \<subseteq> cancelled tw"
    "mounted (scheduleIn t maxIdx tw) = mounted tw + (if is_cancelled tw t then {#} else {#t#})"
    using assms(1) M subsetD [OF clear_mark_subset [of t tw]] by (auto simp: scheduleIn_target t)
qed

lemma cascade_tasks_effect:
  assumes "shape T S (layers tw)" "0 < S" "maxIdx < length (layers tw)" "tw' = cascade_tasks maxIdx ts tw"
  shows "frame tw' = frame tw \<and> fired tw' = fired tw \<and> length (layers tw') = length (layers tw) \<and> shape T S (layers tw')
    \<and> cancelled tw' \<subseteq> cancelled tw \<and> mounted tw' \<subseteq># mounted tw + mset ts
    \<and> (\<forall>P. (\<forall>t. P t \<longrightarrow> \<not> is_cancelled tw t) \<longrightarrow> filter_mset P (mounted tw') = filter_mset P (mounted tw + mset ts))"
  using assms
proof (induction ts arbitrary: tw)
  case (Cons t ts)
  define tw1 where "tw1 = drop_loc t tw"
  define tw2 where "tw2 = (if is_cancelled tw1 t then clear_mark t tw1 else scheduleIn t maxIdx tw1)"
  have one: "shape T S (layers tw1)" "maxIdx < length (layers tw1)" "mounted tw1 = mounted tw" "frame tw1 = frame tw"
      "fired tw1 = fired tw" "cancelled tw1 = cancelled tw" "length (layers tw1) = length (layers tw)"
    using Cons.prems by (simp_all add: tw1_def)
  have c1: "is_cancelled tw1 u = is_cancelled tw u" for u by (simp add: tw1_def)
  note eff = scheduleIn_effect [OF one(1) Cons.prems(2) one(2), of t]
  have two: "frame tw2 = frame tw" "fired tw2 = fired tw" "length (layers tw2) = length (layers tw)" "shape T S (layers tw2)"
      "cancelled tw2 \<subseteq> cancelled tw" "mounted tw2 = mounted tw + (if is_cancelled tw t then {#} else {#t#})"
    using one eff clear_mark_subset [of t tw1] by (auto simp: tw2_def c1)
  have "tw' = cascade_tasks maxIdx ts tw2" using Cons.prems(4) by (simp add: tw2_def tw1_def Let_def)
  note IH = Cons.IH [OF two(4) Cons.prems(2) _ this]
  have len: "maxIdx < length (layers tw2)" using two(3) Cons.prems(3) by simp
  have "mounted tw' \<subseteq># mounted tw + mset (t # ts)"
  proof (rule subset_mset.order_trans)
    show "mounted tw' \<subseteq># mounted tw2 + mset ts" using IH [OF len] by blast
    show "mounted tw2 + mset ts \<subseteq># mounted tw + mset (t # ts)" by (simp add: two(6))
  qed
  moreover have "filter_mset P (mounted tw') = filter_mset P (mounted tw + mset (t # ts))"
    if P: "\<forall>t. P t \<longrightarrow> \<not> is_cancelled tw t" for P
  proof -
    have "\<forall>t. P t \<longrightarrow> \<not> is_cancelled tw2 t" using P cancelled_mono [OF two(5)] by blast
    then have "filter_mset P (mounted tw') = filter_mset P (mounted tw2 + mset ts)" using IH [OF len] by blast
    then show ?thesis using P by (auto simp: two(6))
  qed
  ultimately show ?case using IH [OF len] two by auto
qed auto

lemma cascadeDown_passes:
  assumes "shape T S (layers tw)" "0 < S" "idx < length (layers tw)"
  shows "passes tw (cascadeDown idx tw) \<and> shape T S (layers (cascadeDown idx tw))"
proof (cases "idx = 0")
  case False
  define s where "s = curPos (layers tw ! idx)"
  define tw1 where "tw1 = set_slot idx s [] tw"
  have s: "s < length (slots (layers tw ! idx))" using shapeD [OF assms(1,3)] by (simp add: s_def)
  have M: "mounted tw1 + mset (slot_at tw idx s) = mounted tw"
    using mounted_set_slot [OF assms(3) s, of "[]"] by (simp add: tw1_def)
  have c: "cascadeDown idx tw = cascade_tasks (idx - 1) (slot_at tw idx s) tw1"
    using False by (simp add: cascadeDown_def s_def tw1_def Let_def)
  have "shape T S (layers tw1)" "idx - 1 < length (layers tw1)" using assms by (simp_all add: tw1_def)
  note E = cascade_tasks_effect [OF this(1) assms(2) this(2) c]
  have "tally P (cascadeDown idx tw) = tally P tw" if "\<forall>t. P t \<longrightarrow> \<not> is_cancelled tw t" for P
  proof -
    have "\<forall>t. P t \<longrightarrow> \<not> is_cancelled tw1 t" using that by (simp add: tw1_def is_cancelled_def split: option.splits)
    then have "filter_mset P (mounted (cascadeDown idx tw)) = filter_mset P (mounted tw)" using E M by metis
    then show ?thesis using E by (simp add: tally_def tw1_def)
  qed
  moreover have "set_mset (mounted (cascadeDown idx tw)) \<subseteq> set_mset (mounted tw)" using E M by (metis set_mset_mono)
  ultimately show ?thesis using E by (simp add: passes_def tw1_def)
qed (use assms(1) in \<open>simp add: cascadeDown_def\<close>)

lemma runSlot_shape:
  assumes "shape T S (layers tw)"
  shows "shape T S (layers (runSlot idx s tw))" "curPos (layers (runSlot idx s tw) ! i) = curPos (layers tw ! i)"
proof -
  obtain rest tw1 where r: "run_tasks (slot_at tw idx s) tw = (rest, tw1)" by fastforce
  then have l: "layers tw1 = layers tw" using run_tasks_passes by blast
  show "shape T S (layers (runSlot idx s tw))" using assms r l by (simp add: runSlot_def)
  show "curPos (layers (runSlot idx s tw) ! i) = curPos (layers tw ! i)"
    using r l by (cases "idx < length (layers tw)") (auto simp: runSlot_def set_slot_def nth_list_update not_less list_update_beyond)
qed

lemma tickLayer_passes:
  assumes "shape T S (layers tw)" "0 < S" "idx < length (layers tw)"
  shows "passes tw (tickLayer idx tw) \<and> shape T S (layers (tickLayer idx tw))"
  using assms
proof (induction idx tw rule: tickLayer.induct)
  case (1 idx tw)
  define tw1 where "tw1 = runSlot idx (curPos (layers tw ! idx)) tw"
  define c where "c = Suc (curPos (layers tw1 ! idx))"
  have tw1: "passes tw tw1" "shape T S (layers tw1)" "length (layers tw1) = length (layers tw)"
    using runSlot_passes [OF 1(2,4)] runSlot_shape [OF 1(2)] shapeD(3) [OF 1(2,4)] by (simp_all add: tw1_def)
  have step: "tickLayer idx tw = (if c \<ge> slotNum (layers tw1 ! idx) then
        if Suc idx < length (layers tw1) then cascadeDown (Suc idx) (tickLayer (Suc idx) (set_cur idx 0 tw1)) else set_cur idx 0 tw1
      else set_cur idx c tw1)"
    by (subst tickLayer.simps) (simp add: tw1_def c_def Let_def)
  have num: "slotNum (layers tw1 ! idx) = S" using shapeD(1) [OF tw1(2)] 1(4) tw1(3) by simp
  show ?case
  proof (cases "c \<ge> S")
    case True
    note z = passes_trans [OF tw1(1) passes_set_cur, of idx 0] shape_set_cur [OF tw1(2) 1(3), of idx]
    show ?thesis
    proof (cases "Suc idx < length (layers tw1)")
      case up: True
      have IH: "passes (set_cur idx 0 tw1) (tickLayer (Suc idx) (set_cur idx 0 tw1)) \<and> shape T S (layers (tickLayer (Suc idx) (set_cur idx 0 tw1)))"
        using "1.IH" [OF tw1_def c_def _ refl] True num up z(2) 1(3) by simp
      then have "passes tw (tickLayer (Suc idx) (set_cur idx 0 tw1))" using passes_trans [OF z(1)] by blast
      moreover have "Suc idx < length (layers (tickLayer (Suc idx) (set_cur idx 0 tw1)))"
        using passesD(1) [OF conjunct1 [OF IH]] up by simp
      ultimately show ?thesis
        using cascadeDown_passes [OF conjunct2 [OF IH] 1(3)] passes_trans True num up unfolding step by auto
    qed (use True num z step in auto)
  next
    case False
    then show ?thesis using step num passes_trans [OF tw1(1) passes_set_cur] shape_set_cur [OF tw1(2), of c idx] by auto
  qed
qed

section \<open>Where tasks hang\<close>

text \<open>After \<open>n\<close> ticks the pointer of layer \<open>i\<close> has made \<open>n div S ^ i\<close> steps. A task that expires at \<open>x\<close>
  hangs in the slot of layer 0 that is run in the tick of its expiration, or in a slot of a higher layer
  that the pointer reaches not later than \<open>x\<close>; \<open>near\<close> admits that it is just there.\<close>

definition aligned :: "nat \<Rightarrow> int \<Rightarrow> ('k, 'd) TimeWheel \<Rightarrow> nat \<Rightarrow> bool" where
  "aligned S n tw i \<longleftrightarrow> int (curPos (layers tw ! i)) = (n div int S ^ i) mod int S"

definition placed :: "int \<Rightarrow> nat \<Rightarrow> int \<Rightarrow> nat \<Rightarrow> nat \<Rightarrow> int \<Rightarrow> bool" where
  "placed T S n i s x \<longleftrightarrow>
     (if i = 0 then int s = (x div T) mod int S \<and> n \<le> x div T
      else \<exists>u. n div int S ^ i < u \<and> int s = u mod int S \<and> u * (T * int S ^ i) \<le> x)"

definition near :: "int \<Rightarrow> nat \<Rightarrow> int \<Rightarrow> nat \<Rightarrow> nat \<Rightarrow> int \<Rightarrow> bool" where
  "near T S n i s x \<longleftrightarrow>
     (if i = 0 then placed T S n i s x
      else \<exists>u. n div int S ^ i \<le> u \<and> int s = u mod int S \<and> u * (T * int S ^ i) \<le> x)"

lemma placed_near: "placed T S n i s x \<Longrightarrow> near T S n i s x"
  unfolding placed_def near_def by (metis less_imp_le)

lemma steps_le:
  assumes "0 < T" "0 < S" "n div int S ^ i < u" "u * (T * int S ^ i) \<le> x"
  shows "(n + 1) * T \<le> x"
proof -
  have P: "0 < int S ^ i" using assms(2) by simp
  have "n = n div int S ^ i * int S ^ i + n mod int S ^ i" by (rule div_mult_mod_eq [symmetric])
  also have "\<dots> < (n div int S ^ i + 1) * int S ^ i" using pos_mod_bound [OF P, of n] by (simp add: distrib_right)
  also have "\<dots> \<le> u * int S ^ i" using assms(3) P by (intro mult_right_mono) auto
  finally have "n + 1 \<le> u * int S ^ i" by simp
  then have "(n + 1) * T \<le> u * int S ^ i * T" using assms(1) by (intro mult_right_mono) auto
  also have "\<dots> \<le> x" using assms(4) by (simp add: mult.assoc mult.commute [of T])
  finally show ?thesis .
qed

lemma div_times_le: "0 < m \<Longrightarrow> n div m * m \<le> (n :: int)"
  using pos_mod_sign [of m n] div_mult_mod_eq [of n m] by linarith

lemma placed_ge: "placed T S n i s x \<Longrightarrow> 0 < T \<Longrightarrow> 0 < S \<Longrightarrow> n * T \<le> x"
proof -
  assume p: "placed T S n i s x" and T: "0 < T" and S: "0 < S"
  show "n * T \<le> x"
  proof (cases "i = 0")
    case True
    then have "n * T \<le> x div T * T" using p T by (simp add: placed_def)
    also have "\<dots> \<le> x" using T pos_mod_sign [of T x] div_mult_mod_eq [of x T] by linarith
    finally show ?thesis .
  next
    case False
    then obtain u where "n div int S ^ i < u" "u * (T * int S ^ i) \<le> x" using p by (auto simp: placed_def)
    from steps_le [OF T S this] show ?thesis using T by (simp add: distrib_right)
  qed
qed

lemma choose_layer_full: "choose_layer ls r i m = j \<Longrightarrow> i < j \<Longrightarrow> capacity (ls ! (j - 1)) \<le> r"
proof (induction ls r i m rule: choose_layer.induct)
  case (2 ls r i m)
  then show ?case using choose_layer_range [of "Suc i" ls r m] by (cases "j = Suc i") (auto split: if_splits)
qed simp

lemma target_placed:
  assumes "shape T S (layers tw)" "0 < T" "0 < S" "maxIdx < length (layers tw)"
    and "\<forall>j < length (layers tw). aligned S n tw j" "elapsed tw = n * T" "0 \<le> n"
    and "n * T \<le> expiration t" "expiration t < max_time" "target t maxIdx tw = (i, s)"
  shows "placed T S n i s (expiration t)"
proof -
  let ?x = "expiration t" let ?r = "?x - n * T" let ?P = "int S ^ i"
  have i: "i < length (layers tw)" "s < S" using target_range [OF assms(1,3,4,10)] by simp_all
  have "0 \<le> n * T" using assms(2,7) by simp
  then have "- 9223372036854775808 \<le> ?r" "?r < 9223372036854775808"
    using assms(8,9) unfolding max_time_def by linarith+
  then have r: "i64 (?x - elapsed tw) = ?r" "0 \<le> ?r" using assms(6,8) i64_id [of ?r] by simp_all
  have ch: "choose_layer (layers tw) ?r 0 maxIdx = i"
    using assms(10) r by (auto simp: target_def Let_def)
  have P: "0 < T * ?P" using assms(2,3) by simp
  define k where "k = ?r div (T * ?P)"
  have "s = nat ((int (curPos (layers tw ! i)) + k) mod int S)"
    using assms(10) r ch shapeD [OF assms(1) i(1)] by (auto simp: target_def Let_def k_def)
  then have s: "int s = (n div ?P + k) mod int S"
    using assms(3,5) i(1) by (simp add: aligned_def mod_add_left_eq)
  show ?thesis
  proof (cases "i = 0")
    case True
    have "n + k = ?x div T" using True assms(2) div_mult_self1 [of T ?r n] by (simp add: k_def)
    moreover have "0 \<le> k" unfolding k_def using P r(2) by (simp only: pos_imp_zdiv_nonneg_iff)
    ultimately show ?thesis using True s by (simp add: placed_def)
  next
    case False
    have "i - 1 < length (layers tw)" "Suc (i - 1) = i" using i(1) False by simp_all
    then have "T * ?P \<le> ?r" using choose_layer_full [OF ch] shapeD(5) [OF assms(1), of "i - 1"] False by simp
    then have "T * ?P div (T * ?P) \<le> k" unfolding k_def using P by (rule zdiv_mono1)
    moreover have "T * ?P div (T * ?P) = 1" by (rule div_self) (use P in linarith)
    ultimately have k: "1 \<le> k" by linarith
    have "(n div ?P + k) * (T * ?P) = n div ?P * ?P * T + k * (T * ?P)" by (simp add: distrib_right)
    also have "n div ?P * ?P * T \<le> n * T"
      using assms(2,3) by (intro mult_right_mono div_times_le) simp_all
    also have "k * (T * ?P) \<le> ?r" unfolding k_def using P pos_mod_sign [of "T * ?P" ?r] div_mult_mod_eq [of ?r "T * ?P"] by linarith
    finally have "(n div ?P + k) * (T * ?P) \<le> ?x" by simp
    then show ?thesis using False k s by (auto simp: placed_def intro!: exI [of _ "n div ?P + k"])
  qed
qed

lemma held_set_slot:
  "held (set_slot i s q tw) j r t \<longleftrightarrow>
     (if i = j \<and> s = r then j < length (layers tw) \<and> r < length (slots (layers tw ! j)) \<and> t \<in> set q else held tw j r t)"
  by (cases "i < length (layers tw)") (auto simp: held_def set_slot_def nth_list_update not_less list_update_beyond)

lemma held_cong: "layers a = layers b \<Longrightarrow> held a i s t = held b i s t"
  by (simp add: held_def)

lemma held_set_cur [simp]: "held (set_cur i c tw) j r t = held tw j r t"
  by (cases "i < length (layers tw)") (auto simp: held_def set_cur_def nth_list_update not_less list_update_beyond)

lemma cur_set_slot [simp]: "curPos (layers (set_slot i s q tw) ! j) = curPos (layers tw ! j)"
  by (cases "i < length (layers tw)") (auto simp: set_slot_def nth_list_update not_less list_update_beyond)

lemma cur_set_cur:
  "i < length (layers tw) \<Longrightarrow> curPos (layers (set_cur i c tw) ! j) = (if i = j then c else curPos (layers tw ! j))"
  by (simp add: set_cur_def nth_list_update)

lemma scheduleIn_placed:
  assumes "shape T S (layers tw)" "0 < T" "0 < S" "maxIdx < length (layers tw)"
    and "\<forall>j < length (layers tw). aligned S n tw j" "elapsed tw = n * T" "0 \<le> n"
    and "n * T \<le> expiration t" "expiration t < max_time"
  shows "held (scheduleIn t maxIdx tw) i s u \<Longrightarrow> held tw i s u \<or> u = t \<and> i \<le> maxIdx \<and> placed T S n i s (expiration t)"
    and "curPos (layers (scheduleIn t maxIdx tw) ! j) = curPos (layers tw ! j)"
proof -
  obtain i' s' where t: "target t maxIdx tw = (i', s')" by fastforce
  note R = target_range [OF assms(1,3,4) t] and Q = target_placed [OF assms t]
  show "curPos (layers (scheduleIn t maxIdx tw) ! j) = curPos (layers tw ! j)" by (simp add: scheduleIn_target t)
  assume h: "held (scheduleIn t maxIdx tw) i s u"
  show "held tw i s u \<or> u = t \<and> i \<le> maxIdx \<and> placed T S n i s (expiration t)"
  proof (cases "is_cancelled tw t")
    case True
    then show ?thesis using h by (simp add: scheduleIn_target held_def)
  next
    case False
    then have "held (set_slot i' s' (slot_at tw i' s' @ [t]) tw) i s u"
      using h held_cong [of "put_loc t (i', s') (set_slot i' s' (slot_at tw i' s' @ [t]) tw)"] by (simp add: scheduleIn_target t)
    then show ?thesis using R Q unfolding held_set_slot by (auto simp: held_def split: if_splits)
  qed
qed

lemma cascade_tasks_placed:
  assumes "shape T S (layers tw)" "0 < T" "0 < S" "maxIdx < length (layers tw)"
    and "\<forall>j < length (layers tw). aligned S n tw j" "elapsed tw = n * T" "0 \<le> n"
    and "\<forall>t\<in>set ts. n * T \<le> expiration t \<and> expiration t < max_time"
  shows "held (cascade_tasks maxIdx ts tw) i s u
      \<Longrightarrow> held tw i s u \<or> u \<in> set ts \<and> i \<le> maxIdx \<and> placed T S n i s (expiration u)"
    and "curPos (layers (cascade_tasks maxIdx ts tw) ! j) = curPos (layers tw ! j)"
proof -
  have "(held (cascade_tasks maxIdx ts tw) i s u
      \<longrightarrow> held tw i s u \<or> u \<in> set ts \<and> i \<le> maxIdx \<and> placed T S n i s (expiration u))
    \<and> curPos (layers (cascade_tasks maxIdx ts tw) ! j) = curPos (layers tw ! j)"
    using assms
  proof (induction ts arbitrary: tw)
    case (Cons t ts)
    define tw1 where "tw1 = drop_loc t tw"
    define tw2 where "tw2 = (if is_cancelled tw1 t then clear_mark t tw1 else scheduleIn t maxIdx tw1)"
    have one: "shape T S (layers tw1)" "maxIdx < length (layers tw1)" "\<forall>j < length (layers tw1). aligned S n tw1 j" "elapsed tw1 = n * T"
      using Cons.prems by (simp_all add: tw1_def aligned_def)
    have t: "n * T \<le> expiration t" "expiration t < max_time" using Cons.prems(8) by simp_all
    note Q = scheduleIn_placed [OF one(1) Cons.prems(2,3) one(2,3,4) Cons.prems(7) t]
    note E = scheduleIn_effect [OF one(1) Cons.prems(3) one(2), of t]
    have cur: "curPos (layers tw2 ! j) = curPos (layers tw ! j)" for j
      using Q(2) by (simp add: tw2_def tw1_def)
    have len: "length (layers tw2) = length (layers tw)" using E(3) by (simp add: tw2_def tw1_def)
    have two: "shape T S (layers tw2)" "elapsed tw2 = n * T"
      using one E(1,4) by (auto simp: tw2_def frame_def)
    have al: "\<forall>j < length (layers tw2). aligned S n tw2 j" using Cons.prems(5) by (simp add: len aligned_def cur)
    have mx: "maxIdx < length (layers tw2)" using len Cons.prems(4) by simp
    have ts: "\<forall>t\<in>set ts. n * T \<le> expiration t \<and> expiration t < max_time" using Cons.prems(8) by simp
    have h: "held tw2 i s u \<Longrightarrow> held tw i s u \<or> u = t \<and> i \<le> maxIdx \<and> placed T S n i s (expiration t)"
      using Q(1) [of i s u] by (auto simp: tw2_def tw1_def held_def split: if_splits)
    have "cascade_tasks maxIdx (t # ts) tw = cascade_tasks maxIdx ts tw2" by (simp add: tw2_def tw1_def Let_def)
    then show ?case using Cons.IH [OF two(1) Cons.prems(2,3) mx al two(2) Cons.prems(7) ts] h cur by auto
  qed simp
  then show "held (cascade_tasks maxIdx ts tw) i s u \<Longrightarrow> held tw i s u \<or> u \<in> set ts \<and> i \<le> maxIdx \<and> placed T S n i s (expiration u)"
    "curPos (layers (cascade_tasks maxIdx ts tw) ! j) = curPos (layers tw ! j)" by blast+
qed

text \<open>Facts on the step counts when a tick is over.\<close>

lemma div_step: "0 < m \<Longrightarrow> (n + 1) div m = (if m dvd n + 1 then n div m + 1 else n div (m :: int))"
proof -
  assume m: "0 < m"
  have "(n + 1) div m = n div m + ((n mod m) + 1) div m"
    using div_mult_mod_eq [of n m] m by (metis add.assoc div_mult_self3 mult.commute less_irrefl)
  moreover have "(n mod m + 1) div m = (if m dvd n + 1 then 1 else 0)"
  proof (cases "n mod m + 1 = m")
    case True
    then have "(n + 1) mod m = 0" by (metis mod_add_left_eq mod_self)
    then show ?thesis using True m by auto
  next
    case False
    then have lt: "0 \<le> n mod m" "n mod m + 1 < m" using pos_mod_bound [OF m, of n] pos_mod_sign [OF m, of n] by simp_all
    then have "(n + 1) mod m = n mod m + 1" by (metis mod_add_left_eq mod_pos_pos_trivial add_nonneg_nonneg zero_le_one)
    then have "\<not> m dvd n + 1" using lt by (simp add: dvd_eq_mod_eq_0)
    then show ?thesis using lt by (simp add: div_pos_pos_trivial)
  qed
  ultimately show ?thesis by simp
qed

lemma placed_same:
  "0 < i \<Longrightarrow> 0 < S \<Longrightarrow> \<not> int S ^ i dvd n + 1 \<Longrightarrow> placed T S (n + 1) i s x = placed T S n i s x"
  by (simp add: placed_def div_step)

lemma near_other:
  "near T S n i s x \<Longrightarrow> 0 < i \<Longrightarrow> int s \<noteq> (n div int S ^ i) mod int S \<Longrightarrow> placed T S n i s x"
  unfolding near_def placed_def by (auto simp: order_le_less)

text \<open>The state in the middle of a tick, when the pointers of the layers below \<open>idx\<close> have moved; and
  the state when \<open>tickLayer idx\<close> is done.\<close>

definition moving :: "int \<Rightarrow> nat \<Rightarrow> int \<Rightarrow> nat \<Rightarrow> ('k, 'd) TimeWheel \<Rightarrow> bool" where
  "moving T S n idx tw \<longleftrightarrow> shape T S (layers tw) \<and> elapsed tw = (n + 1) * T \<and> int S ^ idx dvd n + 1
     \<and> (\<forall>i < length (layers tw). aligned S (if i < idx then n + 1 else n) tw i)
     \<and> (\<forall>i s t. held tw i s t \<longrightarrow> expiration t < max_time
          \<and> (if i < idx then near T S (n + 1) i s (expiration t) else placed T S n i s (expiration t)))"

definition moved :: "int \<Rightarrow> nat \<Rightarrow> int \<Rightarrow> nat \<Rightarrow> ('k, 'd) TimeWheel \<Rightarrow> bool" where
  "moved T S n idx tw \<longleftrightarrow> shape T S (layers tw) \<and> elapsed tw = n * T
     \<and> (\<forall>i < length (layers tw). aligned S n tw i)
     \<and> (\<forall>i s t. held tw i s t \<longrightarrow> expiration t < max_time
          \<and> (if i \<le> idx then near T S n i s (expiration t) else placed T S n i s (expiration t)))"

lemma cascadeDown_moved:
  assumes m: "moved T S n (Suc idx) tw" and pos: "0 < T" "0 < S" "0 \<le> n"
    and d: "int S ^ Suc idx dvd n" and len: "Suc idx < length (layers tw)"
  shows "moved T S n idx (cascadeDown (Suc idx) tw)"
proof -
  define s where "s = curPos (layers tw ! Suc idx)"
  define tw1 where "tw1 = set_slot (Suc idx) s [] tw"
  define ts where "ts = slot_at tw (Suc idx) s"
  have sh: "shape T S (layers tw)" and el: "elapsed tw = n * T" and al: "\<forall>i < length (layers tw). aligned S n tw i"
    and h: "\<And>i r t. held tw i r t \<Longrightarrow> expiration t < max_time
          \<and> (if i \<le> Suc idx then near T S n i r (expiration t) else placed T S n i r (expiration t))"
    using m by (auto simp: moved_def)
  have s: "s < S" "int s = (n div int S ^ Suc idx) mod int S"
    using shapeD(3) [OF sh len] al len by (simp_all add: s_def aligned_def)
  have c: "cascadeDown (Suc idx) tw = cascade_tasks idx ts tw1" by (simp add: cascadeDown_def s_def tw1_def ts_def Let_def)
  have one: "shape T S (layers tw1)" "idx < length (layers tw1)" "\<forall>j < length (layers tw1). aligned S n tw1 j" "elapsed tw1 = n * T"
    using sh len al el by (simp_all add: tw1_def aligned_def)
  have ts: "\<forall>t\<in>set ts. n * T \<le> expiration t \<and> expiration t < max_time"
  proof
    fix t assume "t \<in> set ts"
    then have held: "held tw (Suc idx) s t" using len s(1) shapeD(2) [OF sh len] by (simp add: held_def ts_def)
    then obtain u where u: "n div int S ^ Suc idx \<le> u" "u * (T * int S ^ Suc idx) \<le> expiration t"
      using h [OF held] by (auto simp: near_def)
    have "n = n div int S ^ Suc idx * int S ^ Suc idx" using d by (simp only: dvd_div_mult_self)
    then have "n * T = n div int S ^ Suc idx * (T * int S ^ Suc idx)" by (metis mult.assoc mult.commute)
    also have "\<dots> \<le> u * (T * int S ^ Suc idx)" using u(1) pos by (intro mult_right_mono) simp_all
    finally show "n * T \<le> expiration t \<and> expiration t < max_time" using u(2) h [OF held] by simp
  qed
  note Q = cascade_tasks_placed [OF one(1) pos(1,2) one(2,3,4) pos(3) ts]
  note E = cascade_tasks_effect [OF one(1) pos(2) one(2) refl, of ts]
  have "expiration t < max_time \<and> (if i \<le> idx then near T S n i r (expiration t) else placed T S n i r (expiration t))"
    if held: "held (cascade_tasks idx ts tw1) i r t" for i r t
    using Q(1) [OF held]
  proof
    assume "held tw1 i r t"
    then have o: "held tw i r t" "\<not> (i = Suc idx \<and> r = s)" by (auto simp: tw1_def held_set_slot split: if_splits)
    have "placed T S n i r (expiration t)" if "i = Suc idx"
    proof (rule near_other)
      show "near T S n i r (expiration t)" "0 < i" using h [OF o(1)] that by simp_all
      have "r \<noteq> s" using o(2) that by simp
      then show "int r \<noteq> (n div int S ^ i) mod int S" using s(2) that by simp
    qed
    then show ?thesis using h [OF o(1)] by (cases "i = Suc idx") (auto split: if_splits)
  next
    assume "t \<in> set ts \<and> i \<le> idx \<and> placed T S n i r (expiration t)"
    then show ?thesis using ts placed_near by auto
  qed
  moreover have "elapsed (cascade_tasks idx ts tw1) = n * T" using E one(4) frame_elapsed by metis
  moreover have "\<forall>i < length (layers (cascade_tasks idx ts tw1)). aligned S n (cascade_tasks idx ts tw1) i"
    using al E unfolding aligned_def Q(2) by (simp add: tw1_def)
  ultimately show ?thesis unfolding moved_def c using E by blast
qed

lemma runSlot_held:
  assumes "held (runSlot idx c tw) i s t"
  shows "held tw i s t \<and> (i = idx \<and> s = c \<longrightarrow> elapsed tw < expiration t)"
proof -
  obtain rest tw1 where r: "run_tasks (slot_at tw idx c) tw = (rest, tw1)" by fastforce
  note R = run_tasks_passes [OF r]
  have "held (set_slot idx c rest tw1) i s t" using assms r by (simp add: runSlot_def)
  moreover have "layers tw1 = layers tw" "set rest \<subseteq> set (slot_at tw idx c)" "\<forall>t\<in>set rest. elapsed tw < expiration t"
    using R by blast+
  ultimately show ?thesis unfolding held_set_slot by (auto simp: held_def split: if_splits)
qed

lemma runSlot_frame: "frame (runSlot idx c tw) = frame tw"
proof -
  obtain rest tw1 where r: "run_tasks (slot_at tw idx c) tw = (rest, tw1)" by fastforce
  then show ?thesis using run_tasks_passes [OF r] by (simp add: runSlot_def)
qed

text \<open>The slot of a pointer that has just been run: what is left there waits for a later round.\<close>

lemma run_near:
  assumes pos: "0 < T" "0 < S" and p: "placed T S n i s x" and d: "int S ^ i dvd n + 1"
    and run: "int s = (n div int S ^ i) mod int S \<Longrightarrow> (n + 1) * T < x"
  shows "near T S (n + 1) i s x"
proof (cases "i = 0")
  case True
  then have q: "int s = (x div T) mod int S" "n \<le> x div T" using p by (simp_all add: placed_def)
  have "x div T \<noteq> n"
  proof
    assume "x div T = n"
    then have "(n + 1) * T < x" using run q True by simp
    then have "n + 1 \<le> x div T" using pos(1) zdiv_mono1 [of "(n + 1) * T" x T] by simp
    then show False using \<open>x div T = n\<close> by simp
  qed
  then show ?thesis using True q by (simp add: near_def placed_def)
next
  case False
  then obtain u where "n div int S ^ i < u" "int s = u mod int S" "u * (T * int S ^ i) \<le> x" using p by (auto simp: placed_def)
  moreover have "(n + 1) div int S ^ i = n div int S ^ i + 1" using d pos(2) by (simp add: div_step)
  ultimately show ?thesis using False by (auto simp: near_def intro!: exI [of _ u])
qed

lemma tickLayer_moved:
  assumes "moving T S n idx tw" "0 < T" "0 < S" "0 \<le> n" "idx < length (layers tw)"
  shows "moved T S (n + 1) idx (tickLayer idx tw)"
  using assms
proof (induction idx tw rule: tickLayer.induct)
  case (1 idx tw)
  note pos = 1(3,4)
  define c0 where "c0 = curPos (layers tw ! idx)"
  define tw1 where "tw1 = runSlot idx c0 tw"
  define c where "c = Suc (curPos (layers tw1 ! idx))"
  have sh: "shape T S (layers tw)" and el: "elapsed tw = (n + 1) * T" and d: "int S ^ idx dvd n + 1"
    and al: "\<And>i. i < length (layers tw) \<Longrightarrow> aligned S (if i < idx then n + 1 else n) tw i"
    and h: "\<And>i s t. held tw i s t \<Longrightarrow> expiration t < max_time
          \<and> (if i < idx then near T S (n + 1) i s (expiration t) else placed T S n i s (expiration t))"
    using 1(2) by (auto simp: moving_def)
  have sh1: "shape T S (layers tw1)" "\<And>i. curPos (layers tw1 ! i) = curPos (layers tw ! i)" and len1: "length (layers tw1) = length (layers tw)"
    and el1: "elapsed tw1 = (n + 1) * T"
    using runSlot_shape [OF sh] frame_elapsed [OF runSlot_frame [of idx c0 tw]] el by (simp_all add: tw1_def)
  have c0: "int c0 = (n div int S ^ idx) mod int S" using al [OF 1(6)] by (simp add: aligned_def c0_def)
  have cnt: "(n + 1) div int S ^ idx = n div int S ^ idx + 1" using d pos(2) by (simp add: div_step)
  have num: "slotNum (layers tw1 ! idx) = S" "c = Suc c0" "c \<le> S"
    using shapeD(1) [OF sh1(1)] shapeD(3) [OF sh 1(6)] 1(6) len1 by (simp_all add: c_def sh1(2) c0_def)
  have h1: "expiration t < max_time \<and> (if i \<le> idx then near T S (n + 1) i s (expiration t) else placed T S n i s (expiration t))"
    if held: "held tw1 i s t" for i s t
  proof -
    note o = runSlot_held [OF held [unfolded tw1_def]]
    have "near T S (n + 1) idx s (expiration t)" if "i = idx"
    proof (rule run_near [OF pos(1,2)])
      show "placed T S n idx s (expiration t)" using h [OF conjunct1 [OF o]] that by simp
      show "int S ^ idx dvd n + 1" by (rule d)
      assume "int s = (n div int S ^ idx) mod int S"
      then have "s = c0" using c0 by simp
      then show "(n + 1) * T < expiration t" using o that el by simp
    qed
    then show ?thesis using h [OF conjunct1 [OF o]] by (cases i idx rule: linorder_cases) auto
  qed
  have step: "tickLayer idx tw = (if c \<ge> S then
        if Suc idx < length (layers tw1) then cascadeDown (Suc idx) (tickLayer (Suc idx) (set_cur idx 0 tw1)) else set_cur idx 0 tw1
      else set_cur idx c tw1)"
    by (subst tickLayer.simps) (simp add: tw1_def c_def c0_def Let_def num(1) [unfolded tw1_def c0_def])
  define c' where "c' = (if c \<ge> S then 0 else c)"
  have c': "int c' = ((n + 1) div int S ^ idx) mod int S"
  proof -
    have "((n + 1) div int S ^ idx) mod int S = (int c0 + 1) mod int S" unfolding cnt c0 by (rule mod_add_left_eq [symmetric])
    also have "\<dots> = int c mod int S" by (simp add: num(2) add.commute)
    also have "\<dots> = int c'" using num(3) pos(2) by (cases "c = S") (simp_all add: c'_def)
    finally show ?thesis by simp
  qed
  have wrap: "c \<ge> S \<longleftrightarrow> int S ^ Suc idx dvd n + 1"
  proof -
    have "c \<ge> S \<longleftrightarrow> c' = 0" using num by (auto simp: c'_def)
    also have "\<dots> \<longleftrightarrow> int S dvd (n + 1) div int S ^ idx" by (simp add: dvd_eq_mod_eq_0 c' [symmetric])
    also have "\<dots> \<longleftrightarrow> int S ^ Suc idx dvd n + 1"
      using d pos(2) by (metis dvd_div_iff_mult mult.commute power_Suc power_not_zero of_nat_0_less_iff less_irrefl)
    finally show ?thesis .
  qed
  define tw2 where "tw2 = set_cur idx c' tw1"
  have tw2: "shape T S (layers tw2)" "length (layers tw2) = length (layers tw)" "elapsed tw2 = (n + 1) * T"
      "\<And>i s t. held tw2 i s t = held tw1 i s t"
    using shape_set_cur [OF sh1(1), of c' idx] len1 el1 num pos(2) by (auto simp: tw2_def c'_def)
  have al2: "aligned S (if i \<le> idx then n + 1 else n) tw2 i" if "i < length (layers tw)" for i
    using al [OF that] c' cur_set_cur [of idx tw1 c' i] 1(6) len1 by (auto simp: aligned_def tw2_def sh1(2) split: if_splits)
  show ?case
  proof (cases "c \<ge> S")
    case True
    show ?thesis
    proof (cases "Suc idx < length (layers tw)")
      case up: True
      have "moving T S n (Suc idx) tw2"
        using tw2 al2 h1 True wrap unfolding moving_def by (auto simp: less_Suc_eq_le)
      moreover have z: "set_cur idx 0 tw1 = tw2" using True by (simp add: tw2_def c'_def)
      ultimately have IH: "moved T S (n + 1) (Suc idx) (tickLayer (Suc idx) tw2)"
        using "1.IH" [OF tw1_def [unfolded c0_def] c_def _ refl] True 1(5) num(1) up pos tw2(2) by simp
      have "shape T S (layers tw2)" "Suc idx < length (layers tw2)" using tw2 up by simp_all
      then have "Suc idx < length (layers (tickLayer (Suc idx) tw2))"
        using tickLayer_passes [of T S tw2 "Suc idx"] pos passesD(1) by metis
      then show ?thesis
        using cascadeDown_moved [OF IH pos(1,2)] 1(5) wrap True up len1 z unfolding step by simp
    next
      case False
      have "moved T S (n + 1) idx tw2"
        unfolding moved_def
      proof (intro conjI allI impI)
        show "aligned S (n + 1) tw2 i" if "i < length (layers tw2)" for i
          using al2 [of i] that tw2(2) False 1(6) by simp
        show "expiration t < max_time" "if i \<le> idx then near T S (n + 1) i s (expiration t) else placed T S (n + 1) i s (expiration t)"
          if held: "held tw2 i s t" for i s t
        proof -
          have "i \<le> idx" using held False tw2(2) by (simp add: held_def)
          then show "expiration t < max_time" "if i \<le> idx then near T S (n + 1) i s (expiration t) else placed T S (n + 1) i s (expiration t)"
            using h1 [OF held [unfolded tw2(4)]] by simp_all
        qed
      qed (use tw2 in simp_all)
      then show ?thesis unfolding step using True False len1 by (simp add: tw2_def c'_def)
    qed
  next
    case False
    have nd: "\<not> int S ^ i dvd n + 1" if "idx < i" for i
    proof
      assume "int S ^ i dvd n + 1"
      moreover have "int S ^ Suc idx dvd int S ^ i" using that by (intro le_imp_power_dvd) simp
      ultimately show False using False wrap dvd_trans by blast
    qed
    have "moved T S (n + 1) idx tw2"
      unfolding moved_def
    proof (intro conjI allI impI)
      show "aligned S (n + 1) tw2 i" if "i < length (layers tw2)" for i
        using al2 [of i] that tw2(2) nd [of i] pos(2) by (cases "i \<le> idx") (simp_all add: aligned_def div_step)
      show "expiration t < max_time" "if i \<le> idx then near T S (n + 1) i s (expiration t) else placed T S (n + 1) i s (expiration t)"
        if held: "held tw2 i s t" for i s t
        using h1 [OF held [unfolded tw2(4)]] nd [of i] pos(2) by (auto simp: placed_same)
    qed (use tw2 in simp_all)
    then show ?thesis unfolding step using False by (simp add: tw2_def c'_def)
  qed
qed

section \<open>The invariant of a wheel in use\<close>

definition tw_inv :: "int \<Rightarrow> nat \<Rightarrow> ('k, 'd) TimeWheel \<Rightarrow> bool" where
  "tw_inv T S tw \<longleftrightarrow> 0 < T \<and> 0 < S \<and> layers tw \<noteq> [] \<and> tickInterval tw = T \<and> (\<exists>n \<ge> 0. moved T S n 0 tw)
     \<and> 0 \<le> elapsed tw \<and> elapsed tw < max_time \<and> (\<forall>t\<in>set (addCh tw). 0 \<le> expiration t \<and> expiration t < max_time)
     \<and> (\<forall>(t, a) \<in> set (fired tw). expiration t \<le> a)"

lemma moved_all:
  "moved T S n 0 tw \<longleftrightarrow> shape T S (layers tw) \<and> elapsed tw = n * T \<and> (\<forall>i < length (layers tw). aligned S n tw i)
     \<and> (\<forall>i s t. held tw i s t \<longrightarrow> expiration t < max_time \<and> placed T S n i s (expiration t))"
proof -
  have "(if i \<le> 0 then near T S n i s x else placed T S n i s x) = placed T S n i s x" for i s x
    by (cases "i = 0") (simp_all add: near_def)
  then show ?thesis unfolding moved_def by presburger
qed

lemma tw_inv_mounted: "tw_inv T S tw \<Longrightarrow> t \<in># mounted tw \<Longrightarrow> elapsed tw \<le> expiration t"
proof -
  assume inv: "tw_inv T S tw" and "t \<in># mounted tw"
  then obtain n i s where m: "moved T S n 0 tw" and h: "held tw i s t" by (auto simp: tw_inv_def mounted_held)
  have pos: "0 < T" "0 < S" using inv by (simp_all add: tw_inv_def)
  have "placed T S n i s (expiration t)" "elapsed tw = n * T" using m h unfolding moved_all by blast+
  from placed_ge [OF this(1) pos] show ?thesis using \<open>elapsed tw = n * T\<close> by simp
qed

lemma moved_cong: "layers a = layers b \<Longrightarrow> elapsed a = elapsed b \<Longrightarrow> moved T S n i a = moved T S n i b"
  by (simp add: moved_def aligned_def held_def)

lemma tw_inv_cong:
  "layers a = layers b \<Longrightarrow> elapsed a = elapsed b \<Longrightarrow> tickInterval a = tickInterval b \<Longrightarrow> fired a = fired b
    \<Longrightarrow> set (addCh a) \<subseteq> set (addCh b) \<Longrightarrow> tw_inv T S b \<Longrightarrow> tw_inv T S a"
  by (auto simp: tw_inv_def moved_cong [of a b])

text \<open>A tick.\<close>

lemma advance_inv:
  assumes inv: "tw_inv T S tw" and time: "elapsed tw + T < max_time"
  shows "tw_inv T S (advance (tickInterval tw) tw)" "passes (tw\<lparr>elapsed := elapsed tw + T\<rparr>) (advance (tickInterval tw) tw)"
proof -
  obtain n where n: "0 \<le> n" "moved T S n 0 tw" and pos: "0 < T" "0 < S" "0 < length (layers tw)" "tickInterval tw = T" "0 \<le> elapsed tw"
    using inv by (auto simp: tw_inv_def)
  define tw0 where "tw0 = tw\<lparr>elapsed := elapsed tw + T\<rparr>"
  have "i64 (elapsed tw + T) = elapsed tw + T" using time pos by (intro i64_id) (simp_all add: max_time_def)
  then have a: "advance (tickInterval tw) tw = tickLayer 0 tw0" by (simp add: advance_def pos(4) tw0_def)
  have sh: "shape T S (layers tw0)" "0 < length (layers tw0)" using n(2) pos(3) by (simp_all add: moved_def tw0_def)
  have "moving T S n 0 tw0"
    using n(2) unfolding moved_all moving_def by (simp add: tw0_def aligned_def held_def distrib_right)
  from tickLayer_moved [OF this pos(1,2) n(1) sh(2)] have m: "moved T S (n + 1) 0 (tickLayer 0 tw0)" .
  have p: "passes tw0 (tickLayer 0 tw0)" using tickLayer_passes [OF sh(1) pos(2) sh(2)] by blast
  show "passes (tw\<lparr>elapsed := elapsed tw + T\<rparr>) (advance (tickInterval tw) tw)" using p by (simp add: a tw0_def)
  obtain new where new: "fired (tickLayer 0 tw0) = fired tw0 @ new" "\<forall>(t, a) \<in> set new. a = elapsed tw0 \<and> expiration t \<le> a \<and> t \<in># mounted tw0"
    using passesD(5) [OF p] by (elim exE conjE)
  have fr: "frame (tickLayer 0 tw0) = frame tw0" "length (layers (tickLayer 0 tw0)) = length (layers tw0)"
    using passesD(1,2) [OF p] by simp_all
  have fi: "\<forall>(t, a) \<in> set (fired (tickLayer 0 tw0)). expiration t \<le> a"
    using inv new by (auto simp: tw_inv_def tw0_def)
  have "tickLayer 0 tw0 = tickLayer 0 tw0" "layers (tickLayer 0 tw0) \<noteq> []" using fr(2) sh(2) by auto
  then show "tw_inv T S (advance (tickInterval tw) tw)"
    using inv fr(1) m n(1) time fi unfolding a by (auto simp: tw_inv_def frame_def tw0_def intro!: exI [of _ "n + 1"])
qed

text \<open>A request to add.\<close>

lemma schedule_inv:
  assumes inv: "tw_inv T S tw" and t: "0 \<le> expiration t" "expiration t < max_time"
  shows "tw_inv T S (schedule t tw)"
proof -
  obtain n where n: "0 \<le> n" "moved T S n 0 tw" and pos: "0 < T" "0 < S" "layers tw \<noteq> []"
    and el: "0 \<le> elapsed tw" "elapsed tw < max_time"
    using inv by (auto simp: tw_inv_def)
  have r: "i64 (expiration t - elapsed tw) = expiration t - elapsed tw" using t el by (intro i64_id) (simp_all add: max_time_def)
  show ?thesis
  proof (cases "expiration t \<le> elapsed tw")
    case True
    then show ?thesis using inv r by (auto simp: schedule_def tw_inv_def exec_def moved_def held_def aligned_def)
  next
    case False
    define L where "L = length (layers tw) - 1"
    have L: "L < length (layers tw)" using pos(3) by (simp add: L_def)
    have sh: "shape T S (layers tw)" and al: "\<forall>j < length (layers tw). aligned S n tw j" and eln: "elapsed tw = n * T"
      using n(2) by (simp_all add: moved_def)
    have x: "n * T \<le> expiration t" using False eln by simp
    note Q = scheduleIn_placed [OF sh pos(1,2) L al eln n(1) x t(2)]
    note E = scheduleIn_effect [OF sh pos(2) L, of t]
    have s: "schedule t tw = scheduleIn t L tw" using False r by (simp add: schedule_def L_def)
    have "moved T S n 0 (scheduleIn t L tw)"
      unfolding moved_def
    proof (intro conjI allI impI)
      show "elapsed (scheduleIn t L tw) = n * T" using frame_elapsed [OF E(1)] eln by simp
      show "aligned S n (scheduleIn t L tw) i" if "i < length (layers (scheduleIn t L tw))" for i
        using that al E(3) Q(2) by (simp add: aligned_def)
      show "expiration u < max_time" "if i \<le> 0 then near T S n i s (expiration u) else placed T S n i s (expiration u)"
        if "held (scheduleIn t L tw) i s u" for i s u
        using Q(1) [OF that] n(2) t(2) placed_near by (auto simp: moved_def)
    qed (rule E(4))
    moreover have "layers (scheduleIn t L tw) \<noteq> []" using E(3) pos(3) by auto
    ultimately show ?thesis using inv n(1) E(1,2) unfolding s by (auto simp: tw_inv_def frame_def)
  qed
qed

text \<open>A request to remove.\<close>

lemma remove_first_spec:
  "remove_first k ts = Some q \<Longrightarrow> \<exists>t. tkey t = Some k \<and> mset ts = add_mset t (mset q)"
proof (induction ts arbitrary: q)
  case (Cons t ts)
  then show ?case by (auto split: if_splits)
qed simp

lemma removeByKey_effect:
  assumes "shape T S (layers tw)"
  shows "frame (removeByKey k tw) = frame tw" "fired (removeByKey k tw) = fired tw"
    "\<exists>gone. mounted tw = mounted (removeByKey k tw) + gone \<and> (\<forall>t\<in>#gone. tkey t = Some k)"
    "cancelled (removeByKey k tw) \<subseteq> insert k (cancelled tw)" "length (layers (removeByKey k tw)) = length (layers tw)"
    "shape T S (layers (removeByKey k tw))" "\<And>j. curPos (layers (removeByKey k tw) ! j) = curPos (layers tw ! j)"
    "\<And>i s t. held (removeByKey k tw) i s t \<Longrightarrow> held tw i s t"
proof -
  have "frame (removeByKey k tw) = frame tw \<and> fired (removeByKey k tw) = fired tw
    \<and> (\<exists>gone. mounted tw = mounted (removeByKey k tw) + gone \<and> (\<forall>t\<in>#gone. tkey t = Some k))
    \<and> cancelled (removeByKey k tw) \<subseteq> insert k (cancelled tw) \<and> length (layers (removeByKey k tw)) = length (layers tw)
    \<and> shape T S (layers (removeByKey k tw)) \<and> (\<forall>j. curPos (layers (removeByKey k tw) ! j) = curPos (layers tw ! j))
    \<and> (\<forall>i s t. held (removeByKey k tw) i s t \<longrightarrow> held tw i s t)"
  proof (cases "\<exists>i s q. loc tw k = Some (i, s) \<and> remove_first k (slot_at tw i s) = Some q
      \<and> i < length (layers tw) \<and> s < length (slots (layers tw ! i))")
    case True
    then obtain i s q where l: "loc tw k = Some (i, s)" "remove_first k (slot_at tw i s) = Some q"
      "i < length (layers tw)" "s < length (slots (layers tw ! i))" by blast
    obtain t where t: "tkey t = Some k" "mset (slot_at tw i s) = add_mset t (mset q)" using remove_first_spec [OF l(2)] by blast
    define tw2 where "tw2 = tw\<lparr>cancelled := insert k (cancelled tw), loc := (loc tw)(k := None)\<rparr>"
    have r: "removeByKey k tw = (set_slot i s q tw2)\<lparr>cancelled := cancelled tw2 - {k}\<rparr>"
      using l by (simp add: removeByKey_def Let_def tw2_def)
    have same: "layers tw2 = layers tw" "frame tw2 = frame tw" "fired tw2 = fired tw" by (simp_all add: tw2_def frame_def)
    have "mounted (set_slot i s q tw2) + mset (slot_at tw i s) = mounted tw + mset q"
      using mounted_set_slot [of i tw2 s q] l(3,4) by (simp add: same(1) frame_cong [OF same(1)])
    then have "mounted tw = mounted (set_slot i s q tw2) + {#t#}" by (simp add: t(2))
    then have "mounted tw = mounted (removeByKey k tw) + {#t#}" by (simp add: r mounted_def)
    then have "\<exists>gone. mounted tw = mounted (removeByKey k tw) + gone \<and> (\<forall>t\<in>#gone. tkey t = Some k)" using t(1) by auto
    moreover have "held tw j r' u" if "held (removeByKey k tw) j r' u" for j r' u
    proof -
      have "set q \<subseteq> set (slot_at tw i s)" using t(2) by (metis set_mset_add_mset_insert set_mset_mset subset_insertI)
      moreover have "held (set_slot i s q tw2) j r' u" using that by (simp add: r held_def)
      ultimately show ?thesis unfolding held_set_slot using same(1) by (auto simp: held_def split: if_splits)
    qed
    moreover have "frame (removeByKey k tw) = frame tw" "fired (removeByKey k tw) = fired tw"
      "length (layers (removeByKey k tw)) = length (layers tw)"
      using same by (simp_all add: r) (simp_all add: frame_def set_slot_def)
    moreover have "shape T S (layers (removeByKey k tw))" "\<forall>j. curPos (layers (removeByKey k tw) ! j) = curPos (layers tw ! j)"
      using assms shape_set_slot [of T S tw2 i s q] same by (simp_all add: r)
    ultimately show ?thesis by (auto simp: r tw2_def)
  next
    case False
    then have l: "layers (removeByKey k tw) = layers tw"
      by (auto simp: removeByKey_def Let_def set_slot_def not_less list_update_beyond split: option.splits prod.splits)
    have "frame (removeByKey k tw) = frame tw" "fired (removeByKey k tw) = fired tw"
      "cancelled (removeByKey k tw) \<subseteq> insert k (cancelled tw)"
      by (auto simp: removeByKey_def Let_def set_slot_def frame_def split: option.splits prod.splits)
    then show ?thesis using l assms frame_cong [OF l] by (auto simp: held_def)
  qed
  then show "frame (removeByKey k tw) = frame tw" "fired (removeByKey k tw) = fired tw"
    "\<exists>gone. mounted tw = mounted (removeByKey k tw) + gone \<and> (\<forall>t\<in>#gone. tkey t = Some k)"
    "cancelled (removeByKey k tw) \<subseteq> insert k (cancelled tw)" "length (layers (removeByKey k tw)) = length (layers tw)"
    "shape T S (layers (removeByKey k tw))" "\<And>j. curPos (layers (removeByKey k tw) ! j) = curPos (layers tw ! j)"
    "\<And>i s t. held (removeByKey k tw) i s t \<Longrightarrow> held tw i s t" by blast+
qed

lemma removeByKey_inv:
  assumes inv: "tw_inv T S tw"
  shows "tw_inv T S (removeByKey k tw)"
proof -
  obtain n where n: "0 \<le> n" "moved T S n 0 tw" using inv by (auto simp: tw_inv_def)
  then have sh: "shape T S (layers tw)" by (simp add: moved_def)
  note R = removeByKey_effect [OF sh, of k]
  have "moved T S n 0 (removeByKey k tw)"
    using n(2) frame_elapsed [OF R(1)] R(5,6,7,8) unfolding moved_all aligned_def by simp blast
  moreover have "layers (removeByKey k tw) \<noteq> []" using R(5) inv by (auto simp: tw_inv_def)
  ultimately show ?thesis using inv n(1) R(1,2) by (auto simp: tw_inv_def frame_def)
qed

lemma exec_tw_inv:
  assumes inv: "tw_inv T S tw" and can: "in_time tw a"
  shows "tw_inv T S (exec_tw tw a)"
proof (cases a)
  case (TAdd d k x)
  have el: "0 \<le> elapsed tw" "elapsed tw < max_time" using inv by (simp_all add: tw_inv_def)
  then have "i64 (elapsed tw + (if d < 0 then 0 else d)) = elapsed tw + (if d < 0 then 0 else d)"
    using can TAdd by (intro i64_id) (auto simp: max_time_def)
  then have "0 \<le> expiration (new_task d k x tw) \<and> expiration (new_task d k x tw) < max_time"
    using el can TAdd by (auto simp: new_task_def)
  then have "tw_inv T S (tw\<lparr>addCh := addCh tw @ [new_task d k x tw]\<rparr>)"
    using inv by (auto simp: tw_inv_def moved_cong [of "tw\<lparr>addCh := addCh tw @ [new_task d k x tw]\<rparr>" tw])
  then show ?thesis using inv TAdd by (simp add: AddTimer_def Let_def)
next
  case STick
  then show ?thesis using advance_inv(1) [OF inv] inv can by (auto simp: tw_inv_def)
next
  case SAdd
  show ?thesis
  proof (cases "addCh tw")
    case (Cons t ts)
    have "tw_inv T S (tw\<lparr>addCh := ts\<rparr>)" by (rule tw_inv_cong [OF _ _ _ _ _ inv]) (auto simp: Cons)
    moreover have "0 \<le> expiration t" "expiration t < max_time" using inv Cons by (simp_all add: tw_inv_def)
    ultimately have "tw_inv T S (schedule t (tw\<lparr>addCh := ts\<rparr>))" by (rule schedule_inv)
    then show ?thesis using SAdd Cons inv by simp
  qed (use SAdd inv in simp)
next
  case SRemove
  show ?thesis
  proof (cases "removeCh tw")
    case (Cons k ks)
    have "tw_inv T S (tw\<lparr>removeCh := ks\<rparr>)" by (rule tw_inv_cong [OF _ _ _ _ _ inv]) auto
    then have "tw_inv T S (removeByKey k (tw\<lparr>removeCh := ks\<rparr>))" by (rule removeByKey_inv)
    then show ?thesis using SRemove Cons inv by simp
  qed (use SRemove inv in simp)
next
  case TStart
  have "tw_inv T S (tw\<lparr>runners := Suc (runners tw)\<rparr>)" by (rule tw_inv_cong [OF _ _ _ _ _ inv]) simp_all
  then show ?thesis using TStart inv by (simp add: Start_def)
next
  case TStop
  have "tw_inv T S (tw\<lparr>stopped := True\<rparr>)" by (rule tw_inv_cong [OF _ _ _ _ _ inv]) simp_all
  then show ?thesis using TStop by (simp add: Stop_def)
next
  case (TRemove key)
  have "tw_inv T S (tw\<lparr>removeCh := ks\<rparr>)" for ks by (rule tw_inv_cong [OF _ _ _ _ _ inv]) simp_all
  then show ?thesis using TRemove inv by (simp add: RemoveTimer_def split: option.splits)
next
  case SDone
  have "tw_inv T S (tw\<lparr>runners := runners tw - 1\<rparr>)" by (rule tw_inv_cong [OF _ _ _ _ _ inv]) simp_all
  then show ?thesis using SDone inv by simp
qed

interpretation tw_run: guarded_invariant exec_tw in_time "tw_inv T S"
  by unfold_locales (rule exec_tw_inv)

text \<open>A new wheel.\<close>

lemma build_layers_spec:
  assumes "0 < per" "0 < num" "per * int num ^ n < max_time"
  shows "length (build_layers n num per) = n
    \<and> (\<forall>i < n. build_layers n num per ! i = \<lparr>slots = replicate num [], slotNum = num, perSlot = per * int num ^ i,
          capacity = per * int num ^ Suc i, curPos = 0\<rparr>)"
  using assms
proof (induction n arbitrary: per)
  case (Suc n)
  have "per * int num \<le> per * int num * int num ^ n" using Suc.prems(1,2) by simp
  also have "\<dots> < max_time" using Suc.prems(3) by (simp add: mult.assoc)
  finally have lt: "per * int num < max_time" .
  have "0 < per * int num" using Suc.prems(1,2) by simp
  then have c: "i64 (per * int num) = per * int num"
    using lt unfolding max_time_def by (intro i64_id) linarith+
  have "per * int num * int num ^ n < max_time" "0 < per * int num" using Suc.prems by (simp_all add: mult.assoc)
  note IH = Suc.IH [OF this(2) Suc.prems(2) this(1)]
  show ?case using IH c by (auto simp: nth_Cons mult.assoc split: nat.splits)
qed simp

lemma apply_option_keeps:
  "0 < tickInterval tw \<and> 0 < slotNumCfg tw \<and> 0 < layersCfg tw \<and> layers tw = [] \<and> elapsed tw = 0 \<and> addCh tw = [] \<and> fired tw = []
    \<Longrightarrow> (let tw1 = apply_option opt tw in 0 < tickInterval tw1 \<and> 0 < slotNumCfg tw1 \<and> 0 < layersCfg tw1 \<and> layers tw1 = []
      \<and> elapsed tw1 = 0 \<and> addCh tw1 = [] \<and> fired tw1 = [])"
  by (cases opt) auto

lemma fold_options_keep:
  "0 < tickInterval tw \<and> 0 < slotNumCfg tw \<and> 0 < layersCfg tw \<and> layers tw = [] \<and> elapsed tw = 0 \<and> addCh tw = [] \<and> fired tw = []
    \<Longrightarrow> (let tw1 = fold apply_option opts tw in 0 < tickInterval tw1 \<and> 0 < slotNumCfg tw1 \<and> 0 < layersCfg tw1 \<and> layers tw1 = []
      \<and> elapsed tw1 = 0 \<and> addCh tw1 = [] \<and> fired tw1 = [])"
proof (induction opts arbitrary: tw)
  case (Cons opt opts)
  show ?case using Cons.IH [of "apply_option opt tw"] apply_option_keeps [OF Cons.prems, of opt] by (simp add: Let_def)
qed (simp add: Let_def)

text \<open>The capacity of the wheel fits into \<open>int64\<close>.\<close>

definition fits :: "('k, 'd) TimeWheel \<Rightarrow> bool" where
  "fits tw \<longleftrightarrow> tickInterval tw * int (slotNumCfg tw) ^ layersCfg tw < max_time"

lemma NewTimeWheel_inv:
  assumes "NewTimeWheel True opts = Some tw" "fits tw"
  shows "tw_inv (tickInterval tw) (slotNumCfg tw) tw"
proof -
  define tw0 :: "('a, 'b) TimeWheel" where "tw0 = fold apply_option opts
        \<lparr>tickInterval = 100000000, layers = [], asyncJob = False, addCh = [], removeCh = [], runners = 0, stopped = False,
         loc = Map.empty, cancelled = {}, elapsed = 0, slotNumCfg = 60, layersCfg = 3, fired = []\<rparr>"
  have tw: "tw = buildLayers tw0" using assms(1) by (simp add: NewTimeWheel_def tw0_def)
  have k: "0 < tickInterval tw0 \<and> 0 < slotNumCfg tw0 \<and> 0 < layersCfg tw0 \<and> layers tw0 = [] \<and> elapsed tw0 = 0 \<and> addCh tw0 = [] \<and> fired tw0 = []"
    unfolding tw0_def by (rule fold_options_keep [unfolded Let_def]) simp
  let ?T = "tickInterval tw0" let ?S = "slotNumCfg tw0"
  have ly: "layers tw = build_layers (layersCfg tw0) ?S ?T" using k by (simp add: tw buildLayers_def)
  have "?T * int ?S ^ layersCfg tw0 < max_time" using assms(2) by (simp add: fits_def tw buildLayers_def)
  then have B: "length (layers tw) = layersCfg tw0 \<and> (\<forall>i < layersCfg tw0. layers tw ! i =
      \<lparr>slots = replicate ?S [], slotNum = ?S, perSlot = ?T * int ?S ^ i, capacity = ?T * int ?S ^ Suc i, curPos = 0\<rparr>)"
    unfolding ly using k by (intro build_layers_spec) simp_all
  have "shape ?T ?S (layers tw)" using B k unfolding shape_def by simp
  moreover have "\<not> held tw i s t" for i s t using B unfolding held_def by auto
  moreover have "\<forall>i < length (layers tw). aligned ?S 0 tw i" using B unfolding aligned_def by simp
  ultimately have "moved ?T ?S 0 0 tw" using k unfolding moved_all by (simp add: tw buildLayers_def)
  moreover have "layers tw \<noteq> []" using B k by auto
  ultimately show ?thesis using k by (auto simp: tw_inv_def tw buildLayers_def max_time_def intro!: exI [of _ 0])
qed

text \<open>C33: Timers are never early and never more than a tick late.  Whatever callers add and remove, and in
  whatever order the scheduler takes the requests between the ticks, no job is called before its timer
  expires, and a timer in the wheel has not expired before the last tick, whatever its delay and however
  many layers it came down: it is called at the latest in the next one.\<close>

theorem timers_on_time:
  assumes "NewTimeWheel True opts = Some tw0" "fits tw0" and "valid_run exec_tw in_time tw0 ops"
  shows "(\<forall>t \<in># mounted (foldl exec_tw tw0 ops). elapsed (foldl exec_tw tw0 ops) \<le> expiration t)
    \<and> (\<forall>(t, a) \<in> set (fired (foldl exec_tw tw0 ops)). expiration t \<le> a)"
proof -
  have "tw_inv (tickInterval tw0) (slotNumCfg tw0) (foldl exec_tw tw0 ops)"
    by (rule tw_run.valid_run_inv [OF NewTimeWheel_inv [OF assms(1,2)] assms(3)])
  note inv = this
  show ?thesis using tw_inv_mounted [OF inv] inv unfolding tw_inv_def by blast
qed

section \<open>Every timer fires, once\<close>

text \<open>A timer that nobody removes: its key is not marked, no request to remove it is waiting, and the
  same task is not waiting to be added again; \<open>spares\<close> is what callers must not do for that.\<close>

definition safe :: "('k, 'd) task \<Rightarrow> ('k, 'd) TimeWheel \<Rightarrow> bool" where
  "safe t tw \<longleftrightarrow> \<not> is_cancelled tw t \<and> (\<forall>k\<in>set (removeCh tw). tkey t \<noteq> Some k) \<and> t \<notin> set (addCh tw)"

definition spares :: "('k, 'd) task \<Rightarrow> ('k, 'd) tw_op \<Rightarrow> bool" where
  "spares t a \<longleftrightarrow> (case a of TRemove (Some k) \<Rightarrow> tkey t \<noteq> Some k | TAdd d k x \<Rightarrow> \<not> (k = tkey t \<and> x = tdata t) | _ \<Rightarrow> True)"

definition calls :: "('k, 'd) task \<Rightarrow> ('k, 'd) TimeWheel \<Rightarrow> nat" where
  "calls t tw = count (mset (map fst (fired tw))) t"

definition due_calls :: "int \<Rightarrow> ('k, 'd) task \<Rightarrow> (('k, 'd) task \<times> int) list \<Rightarrow> bool" where
  "due_calls T t new \<longleftrightarrow> (\<forall>(u, a) \<in> set new. u = t \<longrightarrow> expiration t \<le> a \<and> a \<le> expiration t + T)"

text \<open>One step of a run keeps such a timer or calls it in time.\<close>

definition kept :: "int \<Rightarrow> ('k, 'd) task \<Rightarrow> ('k, 'd) TimeWheel \<Rightarrow> ('k, 'd) TimeWheel \<Rightarrow> bool" where
  "kept T t tw tw' \<longleftrightarrow> safe t tw' \<and> count (mounted tw') t + calls t tw' = count (mounted tw) t + calls t tw
     \<and> (\<exists>new. fired tw' = fired tw @ new \<and> due_calls T t new)"

lemma kept_same:
  "safe t tw' \<Longrightarrow> mounted tw' = mounted tw \<Longrightarrow> fired tw' = fired tw \<Longrightarrow> kept T t tw tw'"
  by (simp add: kept_def calls_def due_calls_def)

lemma kept_trans:
  assumes "kept T t a b" "kept T t b c"
  shows "kept T t a c"
proof -
  obtain new new' where "fired b = fired a @ new" "due_calls T t new" "fired c = fired b @ new'" "due_calls T t new'"
    using assms by (auto simp: kept_def)
  then have "fired c = fired a @ (new @ new') \<and> due_calls T t (new @ new')" by (auto simp: due_calls_def)
  then show ?thesis using assms by (auto simp: kept_def)
qed

lemma advance_kept:
  assumes inv: "tw_inv T S tw" and time: "elapsed tw + T < max_time" and safe: "safe t tw"
  shows "kept T t tw (advance (tickInterval tw) tw)"
proof -
  define tw0 where "tw0 = tw\<lparr>elapsed := elapsed tw + T\<rparr>"
  define tw1 where "tw1 = advance (tickInterval tw) tw"
  have m0: "mounted tw0 = mounted tw" "fired tw0 = fired tw" "cancelled tw0 = cancelled tw" by (simp_all add: tw0_def mounted_def)
  note P = passesD [OF advance_inv(2) [OF inv time, folded tw0_def tw1_def]]
  have c: "is_cancelled tw0 t = is_cancelled tw t" by (simp add: is_cancelled_def m0(3) split: option.splits)
  have tl: "tally (\<lambda>u. u = t) tw1 = tally (\<lambda>u. u = t) tw0" using safe c by (intro P(6)) (auto simp: safe_def)
  have n: "count (mounted w) t + calls t w = count (tally (\<lambda>u. u = t) w) t" for w
    by (simp add: tally_def calls_def)
  obtain new where new: "fired tw1 = fired tw @ new" "\<forall>(u, a) \<in> set new. a = elapsed tw0 \<and> expiration u \<le> a \<and> u \<in># mounted tw"
    using P(5) m0 by (elim exE conjE) simp
  have "due_calls T t new"
    using new(2) tw_inv_mounted [OF inv, of t] by (auto simp: due_calls_def tw0_def)
  moreover have "safe t tw1"
    using safe P(2) c cancelled_mono [OF P(3), of t] by (auto simp: safe_def frame_def tw0_def)
  ultimately show ?thesis using new(1) tl n [of tw1] n [of tw0] m0 unfolding tw1_def [symmetric] by (auto simp: kept_def calls_def)
qed

lemma schedule_kept:
  assumes inv: "tw_inv T S tw" and u: "u \<noteq> t" and safe: "safe t tw"
  shows "kept T t tw (schedule u tw)"
proof -
  obtain n where "moved T S n 0 tw" and pos: "0 < S" "layers tw \<noteq> []" using inv by (auto simp: tw_inv_def)
  then have sh: "shape T S (layers tw)" by (simp add: moved_def)
  have L: "length (layers tw) - 1 < length (layers tw)" using pos(2) by simp
  note E = scheduleIn_effect [OF sh pos(1) L, of u]
  show ?thesis
  proof (cases "i64 (expiration u - elapsed tw) \<le> 0")
    case True
    have "safe t (exec u tw)" using safe by (simp add: safe_def is_cancelled_def exec_def split: option.splits)
    then show ?thesis using True u by (auto simp: schedule_def kept_def calls_def exec_def due_calls_def mounted_def)
  next
    case False
    have "safe t (scheduleIn u (length (layers tw) - 1) tw)"
      using safe E(1) cancelled_mono [OF E(5), of t] by (auto simp: safe_def frame_def)
    then show ?thesis using False E(2,6) u by (simp add: schedule_def kept_def calls_def due_calls_def)
  qed
qed

lemma removeByKey_kept:
  assumes inv: "tw_inv T S tw" and k: "tkey t \<noteq> Some k" and safe: "safe t tw"
  shows "kept T t tw (removeByKey k tw)"
proof -
  obtain n where "moved T S n 0 tw" using inv by (auto simp: tw_inv_def)
  then have "shape T S (layers tw)" by (simp add: moved_def)
  note R = removeByKey_effect [OF this, of k]
  obtain gone where "mounted tw = mounted (removeByKey k tw) + gone" "\<forall>t\<in>#gone. tkey t = Some k" using R(3) by blast
  then have "count (mounted (removeByKey k tw)) t = count (mounted tw) t" using k by (simp add: count_eq_zero_iff) blast
  moreover have "safe t (removeByKey k tw)"
    using safe R(1,4) k by (auto simp: safe_def frame_def is_cancelled_def split: option.splits)
  ultimately show ?thesis using R(2) by (simp add: kept_def calls_def due_calls_def)
qed

lemma exec_tw_kept:
  assumes inv: "tw_inv T S tw" and can: "in_time tw a" and a: "spares t a" and safe: "safe t tw"
  shows "kept T t tw (exec_tw tw a)"
proof -
  have same: "kept T t tw tw'" if "safe t tw'" "layers tw' = layers tw" "fired tw' = fired tw" for tw'
    using that frame_cong [OF that(2)] by (intro kept_same) simp_all
  have self: "kept T t tw tw" by (rule same [OF safe]) simp_all
  show ?thesis
  proof (cases a)
    case (TAdd d k x)
    then have "new_task d k x tw \<noteq> t" using a by (auto simp: spares_def new_task_def)
    then have "safe t (tw\<lparr>addCh := addCh tw @ [new_task d k x tw]\<rparr>)"
      using safe by (auto simp: safe_def is_cancelled_def split: option.splits)
    then show ?thesis using TAdd self same by (simp add: AddTimer_def Let_def)
  next
    case (TRemove key)
    have "safe t (tw\<lparr>removeCh := removeCh tw @ [k]\<rparr>)" if "key = Some k" for k
      using that TRemove safe a by (auto simp: safe_def spares_def is_cancelled_def split: option.splits)
    then show ?thesis using TRemove self same by (simp add: RemoveTimer_def split: option.splits)
  next
    case STick
    then show ?thesis using advance_kept [OF inv _ safe] inv can self by (auto simp: tw_inv_def)
  next
    case SAdd
    show ?thesis
    proof (cases "addCh tw")
      case (Cons u us)
      define tw1 where "tw1 = tw\<lparr>addCh := us\<rparr>"
      have "u \<noteq> t" "safe t tw1" using safe Cons by (auto simp: safe_def tw1_def is_cancelled_def split: option.splits)
      moreover have "tw_inv T S tw1" unfolding tw1_def by (rule tw_inv_cong [OF _ _ _ _ _ inv]) (auto simp: Cons)
      ultimately have "kept T t tw1 (schedule u tw1)" using schedule_kept by blast
      moreover have "kept T t tw tw1" by (rule same) (use \<open>safe t tw1\<close> in \<open>simp_all add: tw1_def\<close>)
      ultimately show ?thesis using SAdd Cons kept_trans self unfolding tw1_def by auto
    qed (use SAdd self in simp)
  next
    case SRemove
    show ?thesis
    proof (cases "removeCh tw")
      case (Cons k ks)
      define tw1 where "tw1 = tw\<lparr>removeCh := ks\<rparr>"
      have "tkey t \<noteq> Some k" "safe t tw1" using safe Cons by (auto simp: safe_def tw1_def is_cancelled_def split: option.splits)
      moreover have "tw_inv T S tw1" unfolding tw1_def by (rule tw_inv_cong [OF _ _ _ _ _ inv]) auto
      ultimately have "kept T t tw1 (removeByKey k tw1)" by (intro removeByKey_kept)
      moreover have "kept T t tw tw1" by (rule same) (use \<open>safe t tw1\<close> in \<open>simp_all add: tw1_def\<close>)
      ultimately show ?thesis using SRemove Cons kept_trans self unfolding tw1_def by auto
    qed (use SRemove self in simp)
  next
    case TStart
    have "safe t (Start tw)" using safe by (simp add: Start_def safe_def is_cancelled_def split: option.splits)
    then show ?thesis using TStart same by (simp add: Start_def)
  next
    case TStop
    have "safe t (Stop tw)" using safe by (simp add: Stop_def safe_def is_cancelled_def split: option.splits)
    then show ?thesis using TStop same by (simp add: Stop_def)
  next
    case SDone
    have "safe t (exec_tw tw SDone)" using safe by (simp add: safe_def is_cancelled_def split: option.splits)
    then show ?thesis using SDone same by simp
  qed
qed

lemma run_kept:
  assumes "tw_inv T S tw" "valid_run exec_tw in_time tw as" "\<forall>a\<in>set as. spares t a" "safe t tw"
  shows "kept T t tw (foldl exec_tw tw as)"
  using assms
proof (induction as arbitrary: tw)
  case Nil
  then show ?case by (simp add: kept_same)
next
  case (Cons a as)
  have can: "in_time tw a" "spares t a" using Cons.prems by simp_all
  have k: "kept T t tw (exec_tw tw a)" by (rule exec_tw_kept [OF Cons.prems(1) can Cons.prems(4)])
  have "kept T t (exec_tw tw a) (foldl exec_tw (exec_tw tw a) as)"
    using Cons.prems(2,3) k exec_tw_inv [OF Cons.prems(1) can(1)] by (intro Cons.IH) (simp_all add: kept_def)
  then show ?case using kept_trans [OF k] by simp
qed

text \<open>C34: A timer fires, and once.  A timer in the wheel whose key nobody asks to remove is called as
  often as it was added as soon as the clock of the wheel is past its expiration, each time at or after
  it and at most a tick later, whatever other timers are added and removed in between.\<close>

theorem timer_fires_once:
  assumes "NewTimeWheel True opts = Some tw0" "fits tw0" and "valid_run exec_tw in_time tw0 (ops1 @ ops2)"
    and "tw1 = foldl exec_tw tw0 ops1" "tw2 = foldl exec_tw tw1 ops2"
    and "safe t tw1" "\<forall>a\<in>set ops2. spares t a" "expiration t < elapsed tw2"
  shows "calls t tw2 = calls t tw1 + count (mounted tw1) t
    \<and> (\<exists>new. fired tw2 = fired tw1 @ new \<and> due_calls (tickInterval tw0) t new)"
proof -
  let ?T = "tickInterval tw0" let ?S = "slotNumCfg tw0"
  have v: "valid_run exec_tw in_time tw0 ops1" "valid_run exec_tw in_time tw1 ops2"
    using assms(3,4) by (simp_all add: valid_run_append)
  have inv1: "tw_inv ?T ?S tw1" unfolding assms(4) by (rule tw_run.valid_run_inv [OF NewTimeWheel_inv [OF assms(1,2)] v(1)])
  have inv2: "tw_inv ?T ?S tw2" unfolding assms(5) by (rule tw_run.valid_run_inv [OF inv1 v(2)])
  have k: "kept ?T t tw1 tw2" unfolding assms(5) by (rule run_kept [OF inv1 v(2) assms(7,6)])
  have "count (mounted tw2) t = 0"
    using tw_inv_mounted [OF inv2, of t] assms(8) by (auto simp: not_in_iff [symmetric])
  then show ?thesis using k by (simp add: kept_def)
qed

text \<open>C35: A removal that comes too late swallows the next timer.  \<open>RemoveTimer\<close> of a key that hangs in
  no slot, such as that of a timer that has fired, leaves a mark, contrary to the comment that an
  unknown key is ignored: \<open>AddTimer\<close> then accepts a new timer with the key and answers true, but the
  scheduler drops it, and it is neither in the wheel nor called.\<close>

theorem late_removal_swallows_timer:
  assumes "loc tw k = None" "removeCh tw = []" "addCh tw = []" "\<not> stopped tw" "runners tw \<noteq> 0"
    and "0 < d" "0 \<le> elapsed tw" "elapsed tw + d < max_time"
  shows "fst (AddTimer d (Some k) x (foldl exec_tw tw [TRemove (Some k), SRemove]))
    \<and> mounted (foldl exec_tw tw [TRemove (Some k), SRemove, TAdd d (Some k) x, SAdd]) = mounted tw
    \<and> fired (foldl exec_tw tw [TRemove (Some k), SRemove, TAdd d (Some k) x, SAdd]) = fired tw"
proof -
  define tw1 where "tw1 = tw\<lparr>removeCh := [], cancelled := insert k (cancelled tw)\<rparr>"
  have one: "foldl exec_tw tw [TRemove (Some k), SRemove] = tw1"
    using assms(1-5) by (simp add: RemoveTimer_def removeByKey_def removeCh_cap_def tw1_def)
  define t where "t = new_task d (Some k) x tw1"
  have add: "AddTimer d (Some k) x tw1 = (True, tw1\<lparr>addCh := [t]\<rparr>)"
    using assms(3,4) by (simp add: AddTimer_def t_def tw1_def addCh_cap_def)
  have "i64 (elapsed tw + d) = elapsed tw + d" "i64 d = d"
    using assms(6-8) by (simp_all add: i64_id max_time_def)
  then have "schedule t (tw1\<lparr>addCh := []\<rparr>) = clear_mark t (tw1\<lparr>addCh := []\<rparr>)"
    using assms(6) by (simp add: schedule_def t_def new_task_def tw1_def scheduleIn_def is_cancelled_def)
  then have "foldl exec_tw tw1 [TAdd d (Some k) x, SAdd] = clear_mark t (tw1\<lparr>addCh := []\<rparr>)"
    using add assms(5) by (simp add: tw1_def)
  moreover have "foldl exec_tw tw [TRemove (Some k), SRemove, TAdd d (Some k) x, SAdd]
      = foldl exec_tw (foldl exec_tw tw [TRemove (Some k), SRemove]) [TAdd d (Some k) x, SAdd]" by simp
  ultimately show ?thesis
    unfolding one using add by (simp add: tw1_def mounted_def)
qed

text \<open>\<open>Start\<close> is documented as idempotent; called twice it runs two schedulers on one wheel.\<close>

lemma Start_twice: "\<not> stopped tw \<Longrightarrow> runners (Start (Start tw)) = runners tw + 2"
  by (simp add: Start_def)

section \<open>Samples\<close>

text \<open>Two layers of two slots of 10 ns; a timer of 25 ns, which comes down from the second layer.\<close>

definition sample_wheel :: "(int, int) TimeWheel" where
  "sample_wheel = the (NewTimeWheel True [WithTickInterval 10, WithSlotNum 2, WithLayers 2])"

definition sample_ops :: "(int, int) tw_op list" where
  "sample_ops = [TStart, TAdd 25 (Some 1) 7, SAdd]"

lemma sample_wheel_new: "NewTimeWheel True [WithTickInterval 10, WithSlotNum 2, WithLayers 2] = Some sample_wheel" "fits sample_wheel"
  by (simp_all add: sample_wheel_def NewTimeWheel_def fits_def buildLayers_def max_time_def)

theorem timers_on_time_witness:
  "(\<lparr>expiration = 25, tkey = Some 1, tdata = 7\<rparr>, 30) \<in> set (fired (foldl exec_tw sample_wheel (sample_ops @ [STick, STick, STick])))
     \<and> expiration \<lparr>expiration = 25, tkey = Some (1 :: int), tdata = 7 :: int\<rparr> \<le> 30"
proof -
  have "valid_run exec_tw in_time sample_wheel (sample_ops @ [STick, STick, STick])" by code_simp
  note late = conjunct2 [OF timers_on_time [OF sample_wheel_new this]]
  have called: "(\<lparr>expiration = 25, tkey = Some 1, tdata = 7\<rparr>, 30) \<in> set (fired (foldl exec_tw sample_wheel (sample_ops @ [STick, STick, STick])))"
    by code_simp
  from late called have "expiration \<lparr>expiration = 25, tkey = Some (1 :: int), tdata = 7 :: int\<rparr> \<le> 30" by fast
  with called show ?thesis ..
qed

theorem timer_fires_once_witness:
  "calls \<lparr>expiration = 25, tkey = Some 1, tdata = 7\<rparr> (foldl exec_tw (foldl exec_tw sample_wheel sample_ops) [STick, STick, STick]) = 1"
proof -
  let ?t = "\<lparr>expiration = 25, tkey = Some (1 :: int), tdata = 7 :: int\<rparr>"
  have v: "valid_run exec_tw in_time sample_wheel (sample_ops @ [STick, STick, STick])" by code_simp
  have s: "safe ?t (foldl exec_tw sample_wheel sample_ops)" by code_simp
  have e: "expiration ?t < elapsed (foldl exec_tw (foldl exec_tw sample_wheel sample_ops) [STick, STick, STick])" by code_simp
  have m: "calls ?t (foldl exec_tw sample_wheel sample_ops) = 0" "count (mounted (foldl exec_tw sample_wheel sample_ops)) ?t = 1"
    by code_simp+
  show ?thesis
    using timer_fires_once [OF sample_wheel_new v refl refl s _ e] m by (simp add: spares_def)
qed

theorem late_removal_swallows_timer_witness:
  "\<exists>tw. tw = foldl exec_tw sample_wheel (sample_ops @ [STick, STick, STick])
     \<and> fst (AddTimer 15 (Some 1) 8 (foldl exec_tw tw [TRemove (Some 1), SRemove]))
     \<and> fired (foldl exec_tw tw [TRemove (Some 1), SRemove, TAdd 15 (Some 1) 8, SAdd]) = fired tw"
proof -
  define tw where "tw = foldl exec_tw sample_wheel (sample_ops @ [STick, STick, STick])"
  have "loc tw 1 = None" "removeCh tw = []" "addCh tw = []" "\<not> stopped tw" "runners tw \<noteq> 0"
    "0 \<le> elapsed tw" "elapsed tw + 15 < max_time"
    unfolding tw_def by code_simp+
  from late_removal_swallows_timer [OF this(1-5) _ this(6,7), of 8] show ?thesis unfolding tw_def [symmetric] by simp
qed

end
