(* ===== verification/Xxtea.thy ===== *)
theory Xxtea
  imports GoPrelude
begin

text \<open>
  The XXTEA cipher of src/lib/util/crypto/xxtea/xxtea.go: the rounds of \<open>btea\<close> on 32-bit words, the
  conversions between bytes and words with PKCS#7 padding, \<open>Encrypt\<close> and \<open>Decrypt\<close>. \<open>Decrypt\<close> inverts
  \<open>Encrypt\<close> for every key, every number of rounds and both padding modes.
\<close>

unbundle bit_operations_syntax

type_synonym byte = "8 word"

section \<open>Rounds\<close>

definition delta :: "32 word" where "delta = 0x9e3779b9"

definition mx :: "32 word \<Rightarrow> 32 word \<Rightarrow> 32 word \<Rightarrow> 32 word \<Rightarrow> 32 word \<Rightarrow> 32 word list \<Rightarrow> 32 word" where
  "mx y z p e sm key =
     ((drop_bit 5 z XOR push_bit 2 y) + (drop_bit 3 y XOR push_bit 4 z))
       XOR ((sm XOR y) + (key ! unat ((p AND 3) XOR e) XOR z))"

definition round_e :: "32 word \<Rightarrow> 32 word" where "round_e sm = drop_bit 2 sm AND 3"

text \<open>The inner loop from \<open>p\<close> on, with \<open>left\<close> turns to go; the second component is \<open>z\<close>.\<close>

fun enc_inner :: "32 word list \<Rightarrow> 32 word \<Rightarrow> 32 word \<Rightarrow> nat \<Rightarrow> nat \<Rightarrow> 32 word list \<Rightarrow> 32 word \<Rightarrow> 32 word list \<times> 32 word" where
  "enc_inner key e sm p 0 v z = (v, z)"
| "enc_inner key e sm p (Suc left) v z =
     (let y = v ! (p + 1); v1 = v[p := v ! p + mx y z (word_of_nat p) e sm key]
      in enc_inner key e sm (Suc p) left v1 (v1 ! p))"

definition enc_round :: "32 word list \<Rightarrow> 32 word \<Rightarrow> nat \<Rightarrow> 32 word list \<Rightarrow> 32 word \<Rightarrow> 32 word list \<times> 32 word" where
  "enc_round key sm n v z =
     (let e = round_e sm; un = word_of_nat n :: 32 word
      in case enc_inner key e sm 0 (unat (un - 1)) v z of
           (v1, z1) \<Rightarrow>
             let y = v1 ! 0; v2 = v1[n - 1 := v1 ! (n - 1) + mx y z1 (un - 1) e sm key]
             in (v2, v2 ! (n - 1)))"

fun enc_rounds :: "nat \<Rightarrow> 32 word list \<Rightarrow> 32 word \<Rightarrow> nat \<Rightarrow> 32 word list \<Rightarrow> 32 word \<Rightarrow> 32 word list" where
  "enc_rounds 0 key sm n v z = v"
| "enc_rounds (Suc i) key sm n v z =
     (case enc_round key (sm + delta) n v z of (v1, z1) \<Rightarrow> enc_rounds i key (sm + delta) n v1 z1)"

fun dec_inner :: "32 word list \<Rightarrow> 32 word \<Rightarrow> 32 word \<Rightarrow> nat \<Rightarrow> 32 word list \<Rightarrow> 32 word \<Rightarrow> 32 word list \<times> 32 word" where
  "dec_inner key e sm 0 v y = (v, y)"
| "dec_inner key e sm (Suc p) v y =
     (let z = v ! p; v1 = v[Suc p := v ! Suc p - mx y z (word_of_nat (Suc p)) e sm key]
      in dec_inner key e sm p v1 (v1 ! Suc p))"

definition dec_round :: "32 word list \<Rightarrow> 32 word \<Rightarrow> nat \<Rightarrow> 32 word list \<Rightarrow> 32 word \<Rightarrow> 32 word list \<times> 32 word" where
  "dec_round key sm n v y =
     (let e = round_e sm; un = word_of_nat n :: 32 word
      in case dec_inner key e sm (unat (un - 1)) v y of
           (v1, y1) \<Rightarrow>
             let z = v1 ! unat (un - 1); v2 = v1[0 := v1 ! 0 - mx y1 z 0 e sm key]
             in (v2, v2 ! 0))"

fun dec_rounds :: "nat \<Rightarrow> 32 word list \<Rightarrow> 32 word \<Rightarrow> nat \<Rightarrow> 32 word list \<Rightarrow> 32 word \<Rightarrow> 32 word list" where
  "dec_rounds 0 key sm n v y = v"
| "dec_rounds (Suc i) key sm n v y =
     (case dec_round key sm n v y of (v1, y1) \<Rightarrow> dec_rounds i key (sm - delta) n v1 y1)"

text \<open>The loops run \<open>rounds\<close> times, which is never 0 here.\<close>

definition num_rounds :: "32 word \<Rightarrow> nat \<Rightarrow> 32 word" where
  "num_rounds rounds n = (if rounds = 0 then 6 + 52 div word_of_nat n else rounds)"

definition btea :: "32 word list \<Rightarrow> int \<Rightarrow> 32 word list \<Rightarrow> 32 word \<Rightarrow> 32 word list" where
  "btea v n key rounds =
     (if n > 1 then
        (let r = num_rounds rounds (nat n) in enc_rounds (unat r) key 0 (nat n) v (v ! (nat n - 1)))
      else if n < - 1 then
        (let r = num_rounds rounds (nat (- n)) in dec_rounds (unat r) key (r * delta) (nat (- n)) v (v ! 0))
      else v)"

section \<open>Bytes and words\<close>

definition put_byte :: "32 word \<Rightarrow> nat \<Rightarrow> 32 word list \<Rightarrow> 32 word list" where
  "put_byte b i out = out[i div 4 := out ! (i div 4) OR push_bit (i mod 4 * 8) b]"

definition bytesToUint32 :: "byte list \<Rightarrow> nat \<Rightarrow> 32 word list \<Rightarrow> bool \<Rightarrow> 32 word list" where
  "bytesToUint32 inp inLen out padding =
     (let out1 = fold (\<lambda>i. put_byte (ucast (inp ! i)) i) [0..<inLen] out
      in if padding then
           let pad = 4 - inLen mod 4; pad = (if inLen < 4 then pad + 4 else pad)
           in fold (put_byte (word_of_nat pad)) [inLen..<inLen + pad] out1
         else out1)"

definition word_bytes :: "32 word \<Rightarrow> byte list" where
  "word_bytes w = [ucast (w AND 0xFF), ucast (drop_bit 8 w AND 0xFF), ucast (drop_bit 16 w AND 0xFF), ucast (drop_bit 24 w AND 0xFF)]"

text \<open>The length that \<open>uint32sToBytes\<close> returns, and the buffer; the three negative results stand for
  the three ways a padding can be wrong.\<close>

definition uint32sToBytes :: "32 word list \<Rightarrow> bool \<Rightarrow> int \<times> byte list" where
  "uint32sToBytes inp padding =
     (let out = concat (map word_bytes inp); outLen = int (length inp * 4)
      in if padding then
           let pad = uint (out ! nat (outLen - 1)); outLen1 = outLen - pad
           in if pad < 1 \<or> pad > 8 then (- 1, out)
              else if outLen1 < 0 then (- 2, out)
              else if \<exists>i\<in>set [nat outLen1..<length inp * 4]. uint (out ! i) \<noteq> pad then (- 3, out)
              else (outLen1, out)
         else (outLen, out))"

section \<open>Encrypt and Decrypt\<close>

datatype xx_error = KeyLength | DataLength | InvalidLength | IllegalPadding

definition Encrypt :: "byte list \<Rightarrow> byte list \<Rightarrow> bool \<Rightarrow> 32 word \<Rightarrow> xx_error + byte list" where
  "Encrypt data key padding rounds =
     (let dLen = length data; paddingValue = (if padding then 1 else 0)
      in if length key \<noteq> 16 then Inl KeyLength
         else if \<not> padding \<and> (dLen < 8 \<or> dLen mod 4 \<noteq> 0) then Inl DataLength
         else let aLen = (if dLen < 4 then 2 else dLen div 4 + paddingValue);
                  d = bytesToUint32 data dLen (replicate aLen 0) padding;
                  k = bytesToUint32 key 16 (replicate 4 0) False
              in Inr (snd (uint32sToBytes (btea d (int aLen) k rounds) False)))"

definition Decrypt :: "byte list \<Rightarrow> byte list \<Rightarrow> bool \<Rightarrow> 32 word \<Rightarrow> xx_error + byte list" where
  "Decrypt data key padding rounds =
     (let dLen = length data
      in if length key \<noteq> 16 then Inl KeyLength
         else if \<not> padding \<and> (dLen < 8 \<or> dLen mod 4 \<noteq> 0) then Inl DataLength
         else if dLen mod 4 \<noteq> 0 \<or> dLen < 8 then Inl InvalidLength
         else let aLen = dLen div 4;
                  d = bytesToUint32 data dLen (replicate aLen 0) False;
                  k = bytesToUint32 key 16 (replicate 4 0) False
              in case uint32sToBytes (btea d (- int aLen) k rounds) padding of
                   (rc, refBuf) \<Rightarrow>
                     if padding then (if rc \<ge> 0 then Inr (take (nat rc) refBuf) else Inl IllegalPadding)
                     else Inr refBuf)"

section \<open>A round as a sequence of steps\<close>

text \<open>Step \<open>p\<close> changes word \<open>p\<close> by a function of its two neighbours on the ring, so the same neighbours
  undo it; a round is the steps in order, decoding takes them in reverse.\<close>

definition near_mx :: "32 word list \<Rightarrow> 32 word \<Rightarrow> nat \<Rightarrow> nat \<Rightarrow> 32 word list \<Rightarrow> 32 word" where
  "near_mx key sm n p v = mx (v ! ((p + 1) mod n)) (v ! ((p + n - 1) mod n)) (word_of_nat p) (round_e sm) sm key"

definition enc_step :: "32 word list \<Rightarrow> 32 word \<Rightarrow> nat \<Rightarrow> nat \<Rightarrow> 32 word list \<Rightarrow> 32 word list" where
  "enc_step key sm n p v = v[p := v ! p + near_mx key sm n p v]"

definition dec_step :: "32 word list \<Rightarrow> 32 word \<Rightarrow> nat \<Rightarrow> nat \<Rightarrow> 32 word list \<Rightarrow> 32 word list" where
  "dec_step key sm n p v = v[p := v ! p - near_mx key sm n p v]"

lemma length_steps [simp]:
  "length (enc_step key sm n p v) = length v" "length (dec_step key sm n p v) = length v"
  by (simp_all add: enc_step_def dec_step_def)

lemma neighbours: "2 \<le> n \<Longrightarrow> p < n \<Longrightarrow> (p + 1) mod n \<noteq> p \<and> (p + n - 1) mod n \<noteq> (p :: nat)"
proof -
  assume n: "2 \<le> n" and p: "p < n"
  have "(p + n - 1) mod n = (if p = 0 then n - 1 else p - 1)"
  proof (cases p)
    case (Suc q)
    then have "p + n - 1 = q + n" "q < n" using p by simp_all
    then show ?thesis using Suc by simp
  qed (use n in simp)
  moreover have "(p + 1) mod n = (if p = n - 1 then 0 else p + 1)" using p by (cases "p = n - 1") auto
  ultimately show ?thesis using n p by auto
qed

lemma dec_enc_step: "2 \<le> n \<Longrightarrow> p < n \<Longrightarrow> length v = n \<Longrightarrow> dec_step key sm n p (enc_step key sm n p v) = v"
  using neighbours [of n p] by (simp add: dec_step_def enc_step_def near_mx_def)

lemma fold_steps_length [simp]: "length (fold (enc_step key sm n) ps v) = length v"
  by (induction ps arbitrary: v) simp_all

lemma undo_steps:
  "2 \<le> n \<Longrightarrow> \<forall>p\<in>set ps. p < n \<Longrightarrow> length v = n
    \<Longrightarrow> fold (dec_step key sm n) (rev ps) (fold (enc_step key sm n) ps v) = v"
proof (induction ps arbitrary: v)
  case (Cons p ps)
  then show ?case by (simp add: dec_enc_step)
qed simp

lemma enc_inner_steps:
  assumes "2 \<le> n" "length v = n" "p + left = n - 1" "z = v ! ((p + n - 1) mod n)"
  shows "enc_inner key (round_e sm) sm p left v z
    = (let v1 = fold (enc_step key sm n) [p..<p + left] v in (v1, v1 ! ((n - 1 + n - 1) mod n)))"
  using assms
proof (induction left arbitrary: p v z)
  case (Suc left)
  define v1 where "v1 = enc_step key sm n p v"
  have p: "p + 1 < n" "p < n" using Suc.prems(1,3) by simp_all
  have v1: "v[p := v ! p + mx (v ! (p + 1)) z (word_of_nat p) (round_e sm) sm key] = v1"
    using p Suc.prems(4) by (simp add: v1_def enc_step_def near_mx_def)
  have z1: "v1 ! p = v1 ! ((Suc p + n - 1) mod n)" using p by simp
  have "enc_inner key (round_e sm) sm p (Suc left) v z = enc_inner key (round_e sm) sm (Suc p) left v1 (v1 ! p)"
    unfolding v1 [symmetric] by (simp add: Let_def)
  also have "\<dots> = (let v2 = fold (enc_step key sm n) [Suc p..<Suc p + left] v1 in (v2, v2 ! ((n - 1 + n - 1) mod n)))"
    by (rule Suc.IH) (use Suc.prems z1 in \<open>simp_all add: v1_def\<close>)
  also have "fold (enc_step key sm n) [Suc p..<Suc p + left] v1 = fold (enc_step key sm n) [p..<p + Suc left] v"
    by (simp add: v1_def upt_conv_Cons del: upt_Suc)
  finally show ?case by simp
qed (simp add: Let_def)

lemma word_of_nat_pred:
  assumes "2 \<le> n" "n < 2 ^ 32"
  shows "unat ((word_of_nat n :: 32 word) - 1) = n - 1" "(word_of_nat n :: 32 word) - 1 = word_of_nat (n - 1)"
proof -
  show eq: "(word_of_nat n :: 32 word) - 1 = word_of_nat (n - 1)" using assms(1) by (simp add: of_nat_diff)
  show "unat ((word_of_nat n :: 32 word) - 1) = n - 1"
  proof -
    have "n - 1 < 2 ^ 32" using assms(2) by simp
    then show ?thesis unfolding eq by (simp add: unat_of_nat take_bit_nat_eq_self del: of_nat_diff)
  qed
qed

lemma enc_round_steps:
  assumes "2 \<le> n" "n < 2 ^ 32" "length v = n" "z = v ! (n - 1)"
  shows "enc_round key sm n v z = (let v1 = fold (enc_step key sm n) [0..<n] v in (v1, v1 ! (n - 1)))"
proof -
  define v1 where "v1 = fold (enc_step key sm n) [0..<n - 1] v"
  have "enc_inner key (round_e sm) sm 0 (n - 1) v z = (v1, v1 ! ((n - 1 + n - 1) mod n))"
    using enc_inner_steps [OF assms(1,3), of 0 "n - 1" z key sm] assms by (simp add: v1_def Let_def)
  moreover have "v1[n - 1 := v1 ! (n - 1) + mx (v1 ! 0) (v1 ! ((n - 1 + n - 1) mod n)) (word_of_nat (n - 1)) (round_e sm) sm key]
      = enc_step key sm n (n - 1) v1"
    using assms(1) by (simp add: enc_step_def near_mx_def)
  moreover have "[0..<n] = [0..<n - 1] @ [n - 1]" using assms(1) upt_Suc_append [of 0 "n - 1"] by simp
  ultimately show ?thesis using word_of_nat_pred [OF assms(1,2)] by (simp add: enc_round_def Let_def v1_def)
qed

lemma dec_inner_steps:
  assumes "2 \<le> n" "length v = n" "p < n" "y = v ! ((p + 1) mod n)"
  shows "dec_inner key (round_e sm) sm p v y
    = (let v1 = fold (dec_step key sm n) (rev [1..<p + 1]) v in (v1, v1 ! (1 mod n)))"
  using assms
proof (induction p arbitrary: v y)
  case (Suc p)
  define v1 where "v1 = dec_step key sm n (Suc p) v"
  have z: "(Suc p + n - 1) mod n = p" using Suc.prems(3) by simp
  have v1: "v[Suc p := v ! Suc p - mx y (v ! p) (word_of_nat (Suc p)) (round_e sm) sm key] = v1"
    using Suc.prems(4) z by (simp add: v1_def dec_step_def near_mx_def)
  have y1: "v1 ! Suc p = v1 ! ((p + 1) mod n)" using Suc.prems(3) by simp
  have "dec_inner key (round_e sm) sm (Suc p) v y = dec_inner key (round_e sm) sm p v1 (v1 ! Suc p)"
    unfolding v1 [symmetric] by (simp add: Let_def)
  also have "\<dots> = (let v2 = fold (dec_step key sm n) (rev [1..<p + 1]) v1 in (v2, v2 ! (1 mod n)))"
    by (rule Suc.IH) (use Suc.prems y1 in \<open>simp_all add: v1_def\<close>)
  also have "fold (dec_step key sm n) (rev [1..<p + 1]) v1 = fold (dec_step key sm n) (rev [1..<Suc p + 1]) v"
    by (simp add: v1_def)
  finally show ?case .
qed (simp add: Let_def)

lemma dec_round_steps:
  assumes "2 \<le> n" "n < 2 ^ 32" "length v = n" "y = v ! 0"
  shows "dec_round key sm n v y = (let v1 = fold (dec_step key sm n) (rev [0..<n]) v in (v1, v1 ! 0))"
proof -
  define v1 where "v1 = fold (dec_step key sm n) (rev [1..<n]) v"
  have "dec_inner key (round_e sm) sm (n - 1) v y = (v1, v1 ! (1 mod n))"
    using dec_inner_steps [OF assms(1,3), of "n - 1" y key sm] assms by (simp add: v1_def Let_def)
  moreover have "v1[0 := v1 ! 0 - mx (v1 ! (1 mod n)) (v1 ! (n - 1)) 0 (round_e sm) sm key] = dec_step key sm n 0 v1"
    using assms(1) by (simp add: dec_step_def near_mx_def)
  moreover have "rev [0..<n] = rev [1..<n] @ [0]" using assms(1) upt_conv_Cons [of 0 n] by simp
  ultimately show ?thesis using word_of_nat_pred [OF assms(1,2)] by (simp add: dec_round_def Let_def v1_def)
qed

section \<open>All rounds\<close>

definition enc_all :: "32 word list \<Rightarrow> nat \<Rightarrow> 32 word list \<Rightarrow> 32 word list \<Rightarrow> 32 word list" where
  "enc_all key n sums v = fold (\<lambda>sm. fold (enc_step key sm n) [0..<n]) sums v"

definition dec_all :: "32 word list \<Rightarrow> nat \<Rightarrow> 32 word list \<Rightarrow> 32 word list \<Rightarrow> 32 word list" where
  "dec_all key n sums v = fold (\<lambda>sm. fold (dec_step key sm n) (rev [0..<n])) sums v"

lemma fold_dec_length [simp]: "length (fold (dec_step key sm n) ps v) = length v"
  by (induction ps arbitrary: v) simp_all

lemma enc_all_length [simp]: "length (enc_all key n sums v) = length v"
  unfolding enc_all_def by (induction sums arbitrary: v) simp_all

lemma undo_rounds:
  assumes "2 \<le> n"
  shows "length v = n \<Longrightarrow> dec_all key n (rev sums) (enc_all key n sums v) = v"
proof (induction sums arbitrary: v)
  case (Cons sm sums)
  have "dec_all key n (rev sums) (enc_all key n (sm # sums) v) = fold (enc_step key sm n) [0..<n] v"
    using Cons.IH [of "fold (enc_step key sm n) [0..<n] v"] Cons.prems by (simp add: enc_all_def)
  moreover have "dec_all key n (rev (sm # sums)) w = fold (dec_step key sm n) (rev [0..<n]) (dec_all key n (rev sums) w)" for w
    by (simp add: dec_all_def)
  ultimately show ?case using undo_steps [OF assms _ Cons.prems, of "[0..<n]" key sm] by simp
qed (simp add: enc_all_def dec_all_def)

lemma enc_rounds_all:
  assumes "2 \<le> n" "n < 2 ^ 32"
  shows "length v = n \<Longrightarrow> z = v ! (n - 1)
    \<Longrightarrow> enc_rounds r key sm n v z = enc_all key n (map (\<lambda>i. sm + of_nat (Suc i) * delta) [0..<r]) v"
proof (induction r arbitrary: sm v z)
  case (Suc r)
  define v1 where "v1 = fold (enc_step key (sm + delta) n) [0..<n] v"
  have "enc_rounds (Suc r) key sm n v z = enc_rounds r key (sm + delta) n v1 (v1 ! (n - 1))"
    using enc_round_steps [OF assms Suc.prems, of key "sm + delta"] by (simp add: v1_def Let_def)
  also have "\<dots> = enc_all key n (map (\<lambda>i. sm + delta + of_nat (Suc i) * delta) [0..<r]) v1"
    using Suc.prems(1) by (intro Suc.IH) (simp_all add: v1_def)
  also have "\<dots> = enc_all key n ((sm + delta) # map (\<lambda>i. sm + delta + of_nat (Suc i) * delta) [0..<r]) v"
    by (simp add: enc_all_def v1_def)
  also have "(sm + delta) # map (\<lambda>i. sm + delta + of_nat (Suc i) * delta) [0..<r] = map (\<lambda>i. sm + of_nat (Suc i) * delta) [0..<Suc r]"
    by (subst upt_conv_Cons) (simp_all add: map_Suc_upt [symmetric] algebra_simps del: upt_Suc)
  finally show ?case .
qed (simp add: enc_all_def)

lemma dec_rounds_all:
  assumes "2 \<le> n" "n < 2 ^ 32"
  shows "length v = n \<Longrightarrow> y = v ! 0
    \<Longrightarrow> dec_rounds r key sm n v y = dec_all key n (map (\<lambda>i. sm - of_nat i * delta) [0..<r]) v"
proof (induction r arbitrary: sm v y)
  case (Suc r)
  define v1 where "v1 = fold (dec_step key sm n) (rev [0..<n]) v"
  have "dec_rounds (Suc r) key sm n v y = dec_rounds r key (sm - delta) n v1 (v1 ! 0)"
    using dec_round_steps [OF assms Suc.prems, of key sm] by (simp add: v1_def Let_def)
  also have "\<dots> = dec_all key n (map (\<lambda>i. sm - delta - of_nat i * delta) [0..<r]) v1"
    using Suc.prems(1) by (intro Suc.IH) (simp_all add: v1_def)
  also have "\<dots> = dec_all key n (sm # map (\<lambda>i. sm - delta - of_nat i * delta) [0..<r]) v"
    by (simp add: dec_all_def v1_def)
  also have "sm # map (\<lambda>i. sm - delta - of_nat i * delta) [0..<r] = map (\<lambda>i. sm - of_nat i * delta) [0..<Suc r]"
    by (subst upt_conv_Cons) (simp_all add: map_Suc_upt [symmetric] algebra_simps del: upt_Suc)
  finally show ?case .
qed (simp add: dec_all_def)

lemma btea_length: "2 \<le> n \<Longrightarrow> n < 2 ^ 32 \<Longrightarrow> length v = n \<Longrightarrow> length (btea v (int n) key rounds) = n"
  by (simp add: btea_def Let_def enc_rounds_all)

lemma btea_inverse:
  assumes "2 \<le> n" "n < 2 ^ 32" "length v = n"
  shows "btea (btea v (int n) key rounds) (- int n) key rounds = v"
proof -
  let ?r = "num_rounds rounds n"
  define up where "up = map (\<lambda>i. 0 + of_nat (Suc i) * delta) [0..<unat ?r]"
  define w where "w = enc_all key n up v"
  have down: "map (\<lambda>i. ?r * delta - of_nat i * delta) [0..<unat ?r] = rev up"
  proof (rule nth_equalityI)
    fix i assume "i < length (map (\<lambda>i. ?r * delta - of_nat i * delta) [0..<unat ?r])"
    then have i: "i < unat ?r" by simp
    have "?r * delta - of_nat i * delta = of_nat (unat ?r - i) * delta"
      using i by (simp add: of_nat_diff algebra_simps)
    moreover have "Suc (unat ?r - Suc i) = unat ?r - i" using i by simp
    ultimately show "map (\<lambda>i. ?r * delta - of_nat i * delta) [0..<unat ?r] ! i = rev up ! i"
      using i by (simp add: up_def rev_nth del: of_nat_Suc of_nat_diff)
  qed (simp add: up_def)
  have "btea v (int n) key rounds = w"
    using assms enc_rounds_all [OF assms refl, of "unat ?r" key 0] by (simp add: btea_def Let_def w_def up_def)
  moreover have "btea w (- int n) key rounds = dec_all key n (rev up) w"
    using assms dec_rounds_all [OF assms(1,2), of w "w ! 0" "unat ?r" key "?r * delta"]
    by (simp add: btea_def Let_def w_def down)
  ultimately show ?thesis using undo_rounds [OF assms(1,3), of key up] by (simp add: w_def)
qed

section \<open>Bytes in words\<close>

lemma put_byte_bit:
  assumes "i < 4 * length out" "m < 32" "j < length out"
    and "\<forall>q. 8 \<le> q \<longrightarrow> \<not> bit b q"
  shows "bit (put_byte b i out ! j) m \<longleftrightarrow> bit (out ! j) m \<or> 4 * j + m div 8 = i \<and> bit b (m mod 8)"
proof (cases "j = i div 4")
  case True
  have i: "4 * j + i mod 4 = i" unfolding True by (rule mult_div_mod_eq)
  have "i mod 4 * 8 \<le> m \<and> bit b (m - i mod 4 * 8) \<longleftrightarrow> 4 * j + m div 8 = i \<and> bit b (m mod 8)"
  proof (cases "m div 8 = i mod 4")
    case eq: True
    have "i mod 4 * 8 + m mod 8 = m" using div_mult_mod_eq [of m 8] by (simp only: eq)
    then have "i mod 4 * 8 \<le> m" "m - i mod 4 * 8 = m mod 8" by linarith+
    then show ?thesis using eq i by simp
  next
    case False
    have "\<not> bit b (m - i mod 4 * 8)" if "i mod 4 * 8 \<le> m"
    proof -
      have "i mod 4 \<le> m div 8" using that by (simp add: less_eq_div_iff_mult_less_eq)
      then have "Suc (i mod 4) \<le> m div 8" using False by linarith
      then have "Suc (i mod 4) * 8 \<le> m" by (simp only: less_eq_div_iff_mult_less_eq zero_less_numeral)
      then have "8 \<le> m - i mod 4 * 8" by simp
      then show ?thesis using assms(4) by blast
    qed
    moreover have "4 * j + m div 8 \<noteq> i" using i False by linarith
    ultimately show ?thesis by blast
  qed
  then show ?thesis using True assms(2,3) by (auto simp: put_byte_def bit_or_iff bit_push_bit_iff)
next
  case False
  have "(4 * j + m div 8) div 4 = j" using assms(2) by simp
  then have "4 * j + m div 8 \<noteq> i" using False by auto
  then show ?thesis using False by (simp add: put_byte_def)
qed

lemma put_byte_length [simp]: "length (put_byte b i out) = length out"
  by (simp add: put_byte_def)

lemma ucast_small: "8 \<le> q \<Longrightarrow> \<not> bit (ucast (b :: byte) :: 32 word) q"
  using bit_imp_le_length [of b q] by (auto simp: bit_ucast_iff)

text \<open>The loop of \<open>bytesToUint32\<close> over the bytes of a list, and \<open>uint32sToBytes\<close>, are inverse.\<close>

definition pack :: "byte list \<Rightarrow> nat \<Rightarrow> 32 word list \<Rightarrow> 32 word list" where
  "pack bs k out = fold (\<lambda>i. put_byte (ucast (bs ! i)) i) [0..<k] out"

definition words_of :: "byte list \<Rightarrow> 32 word list" where
  "words_of bs = pack bs (length bs) (replicate (length bs div 4) 0)"

definition bytes_of :: "32 word list \<Rightarrow> byte list" where "bytes_of ws = concat (map word_bytes ws)"

lemma pack_length [simp]: "length (pack bs k out) = length out"
  unfolding pack_def by (induction k) simp_all

lemma pack_bit:
  assumes "m < 32" "j < length out"
  shows "k \<le> 4 * length out \<Longrightarrow>
    bit (pack bs k out ! j) m \<longleftrightarrow> bit (out ! j) m \<or> 4 * j + m div 8 < k \<and> bit (bs ! (4 * j + m div 8)) (m mod 8)"
proof (induction k)
  case (Suc k)
  have "pack bs (Suc k) out = put_byte (ucast (bs ! k)) k (pack bs k out)" by (simp add: pack_def)
  then have "bit (pack bs (Suc k) out ! j) m
      \<longleftrightarrow> bit (pack bs k out ! j) m \<or> 4 * j + m div 8 = k \<and> bit (ucast (bs ! k) :: 32 word) (m mod 8)"
    using Suc.prems assms by (simp add: put_byte_bit ucast_small)
  moreover have "bit (ucast (bs ! k) :: 32 word) (m mod 8) \<longleftrightarrow> bit (bs ! k) (m mod 8)"
  proof -
    have "m mod 8 < 8" by simp
    then have "m mod 8 < 32" by linarith
    then show ?thesis by (simp add: bit_ucast_iff)
  qed
  ultimately show ?case using Suc by (auto simp: less_Suc_eq)
qed (simp add: pack_def)

lemma words_of_bit:
  assumes "length bs mod 4 = 0" "j < length bs div 4" "m < 32"
  shows "bit (words_of bs ! j) m \<longleftrightarrow> bit (bs ! (4 * j + m div 8)) (m mod 8)"
proof -
  have "m div 8 < 4" using assms(3) by (simp add: less_mult_imp_div_less)
  moreover have len: "4 * (length bs div 4) = length bs" using mult_div_mod_eq [of 4 "length bs"] assms(1) by simp
  ultimately have "4 * j + m div 8 < length bs" using assms(2) by linarith
  then show ?thesis
    using assms len pack_bit [of m j "replicate (length bs div 4) 0" "length bs" bs] by (simp add: words_of_def)
qed

lemma word_bytes_bit: "r < 4 \<Longrightarrow> bit (word_bytes w ! r) q \<longleftrightarrow> q < 8 \<and> bit w (8 * r + q)"
proof -
  assume r: "r < 4"
  have m: "(255 :: 32 word) = mask 8" by (simp add: mask_eq_exp_minus_1)
  consider "r = 0" | "r = 1" | "r = 2" | "r = 3" using r by linarith
  then show ?thesis
    by cases (auto simp: word_bytes_def m bit_ucast_iff bit_and_iff bit_mask_iff bit_drop_bit_eq)
qed

lemma bytes_of_length [simp]: "length (bytes_of ws) = 4 * length ws"
  by (induction ws) (simp_all add: bytes_of_def word_bytes_def)

lemma bytes_of_nth: "i < 4 * length ws \<Longrightarrow> bytes_of ws ! i = word_bytes (ws ! (i div 4)) ! (i mod 4)"
proof (induction ws arbitrary: i)
  case (Cons w ws)
  have len: "length (word_bytes w) = 4" by (simp add: word_bytes_def)
  have app: "bytes_of (w # ws) = word_bytes w @ bytes_of ws" by (simp add: bytes_of_def)
  show ?case
  proof (cases "i < 4")
    case False
    then obtain k where "i = k + 4" by (metis le_add_diff_inverse2 not_less)
    moreover have "(k + 4) div 4 = Suc (k div 4)" by simp
    ultimately show ?thesis using Cons.IH [of k] Cons.prems by (simp add: app nth_append len)
  qed (simp add: app nth_append len)
qed simp

lemma words_of_bytes_of [simp]: "words_of (bytes_of ws) = ws"
proof (rule nth_equalityI)
  fix j assume "j < length (words_of (bytes_of ws))"
  then have j: "j < length ws" by (simp add: words_of_def)
  show "words_of (bytes_of ws) ! j = ws ! j"
  proof (rule bit_eqI)
    fix m assume "possible_bit TYPE(32 word) m"
    then have m: "m < 32" by simp
    then have d: "m div 8 < 4" by (simp add: less_mult_imp_div_less)
    then have "bytes_of ws ! (4 * j + m div 8) = word_bytes (ws ! j) ! (m div 8)"
      using bytes_of_nth [of "4 * j + m div 8" ws] j by simp
    then show "bit (words_of (bytes_of ws) ! j) m = bit (ws ! j) m"
      using words_of_bit [of "bytes_of ws" j m] word_bytes_bit [OF d, of "ws ! j" "m mod 8"] j m by simp
  qed
qed (simp add: words_of_def)

lemma bytes_of_words_of [simp]:
  assumes "length bs mod 4 = 0"
  shows "bytes_of (words_of bs) = bs"
proof (rule nth_equalityI)
  show len: "length (bytes_of (words_of bs)) = length bs" using assms by (simp add: words_of_def) (metis dvd_mult_div_cancel mod_0_imp_dvd)
  fix i assume "i < length (bytes_of (words_of bs))"
  then have i: "i < 4 * length (words_of bs)" "i div 4 < length bs div 4" by (simp_all add: words_of_def less_mult_imp_div_less mult.commute)
  show "bytes_of (words_of bs) ! i = bs ! i"
  proof (rule bit_eqI)
    fix q assume "possible_bit TYPE(byte) q"
    then have q: "q < 8" by simp
    have "(8 * (i mod 4) + q) div 8 = i mod 4" "(8 * (i mod 4) + q) mod 8 = q" "8 * (i mod 4) + q < 32"
      using q mod_less_divisor [of 4 i] by simp_all
    then show "bit (bytes_of (words_of bs) ! i) q = bit (bs ! i) q"
      using words_of_bit [OF assms i(2), of "8 * (i mod 4) + q"] word_bytes_bit [of "i mod 4" "words_of bs ! (i div 4)" q] q
      by (simp add: bytes_of_nth [OF i(1)])
  qed
qed

section \<open>Decrypt inverts Encrypt\<close>

definition pad_len :: "nat \<Rightarrow> nat" where "pad_len n = (if n < 4 then 8 - n else 4 - n mod 4)"

definition padded :: "bool \<Rightarrow> byte list \<Rightarrow> byte list" where
  "padded padding data = (if padding then data @ replicate (pad_len (length data)) (word_of_nat (pad_len (length data))) else data)"

lemma padded_False: "padded False data = data"
  by (simp add: padded_def)

lemma pad_len_range: "1 \<le> pad_len n" "pad_len n \<le> 8" "(n + pad_len n) mod 4 = 0" "8 \<le> n + pad_len n \<or> 4 \<le> n"
  and pad_len_words: "(n + pad_len n) div 4 = (if n < 4 then 2 else n div 4 + 1)"
proof -
  have "n mod 4 < 4" "n = 4 * (n div 4) + n mod 4" by simp_all
  then show "1 \<le> pad_len n" "pad_len n \<le> 8" "8 \<le> n + pad_len n \<or> 4 \<le> n" by (auto simp: pad_len_def)
  show "(n + pad_len n) mod 4 = 0" "(n + pad_len n) div 4 = (if n < 4 then 2 else n div 4 + 1)"
    unfolding pad_len_def by (cases "n < 4"; presburger)+
qed

lemma bytesToUint32_padded: "bytesToUint32 data (length data) out padding = pack (padded padding data) (length (padded padding data)) out"
proof (cases padding)
  case True
  let ?n = "length data" let ?p = "pad_len ?n" let ?bs = "padded True data"
  have pad: "(let pad = 4 - ?n mod 4 in if ?n < 4 then pad + 4 else pad) = ?p" by (auto simp: pad_len_def)
  have w: "(word_of_nat ?p :: 32 word) = ucast (word_of_nat ?p :: byte)"
    using pad_len_range(2) [of ?n] by (simp add: unsigned_of_nat take_bit_nat_eq_self)
  have "fold (\<lambda>i. put_byte (ucast (data ! i)) i) [0..<?n] out = fold (\<lambda>i. put_byte (ucast (?bs ! i)) i) [0..<?n] out"
    by (rule fold_cong) (simp_all add: padded_def nth_append)
  moreover have "fold (put_byte (word_of_nat ?p)) [?n..<?n + ?p] o1 = fold (\<lambda>i. put_byte (ucast (?bs ! i)) i) [?n..<?n + ?p] o1" for o1
    by (rule fold_cong) (auto simp: padded_def nth_append w)
  moreover have "[0..<?n + ?p] = [0..<?n] @ [?n..<?n + ?p]" using upt_add_eq_append [of 0 ?n ?p] by simp
  ultimately show ?thesis using True pad by (simp add: bytesToUint32_def pack_def padded_def Let_def)
qed (simp add: bytesToUint32_def pack_def padded_def)

lemma padded_size:
  assumes "padding \<or> 8 \<le> length data \<and> length data mod 4 = 0"
  shows "length (padded padding data) mod 4 = 0" "8 \<le> length (padded padding data)"
    "length (padded padding data) div 4 = (if length data < 4 then 2 else length data div 4 + (if padding then 1 else 0))"
    "length (padded padding data) \<le> length data + 8"
proof -
  let ?n = "length data"
  have p: "length (padded padding data) = (if padding then ?n + pad_len ?n else ?n)" by (simp add: padded_def)
  show m: "length (padded padding data) mod 4 = 0" and "length (padded padding data) \<le> length data + 8"
    using assms pad_len_range [of ?n] unfolding p by auto
  show d: "length (padded padding data) div 4 = (if ?n < 4 then 2 else ?n div 4 + (if padding then 1 else 0))"
    using assms pad_len_words [of ?n] unfolding p by auto
  show "8 \<le> length (padded padding data)"
  proof (cases padding)
    case True
    then have "2 \<le> length (padded padding data) div 4" unfolding d by (auto simp: less_eq_div_iff_mult_less_eq)
    then show ?thesis by linarith
  qed (use assms p in simp)
qed

lemma pack_words: "length bs mod 4 = 0 \<Longrightarrow> pack bs (length bs) (replicate (length bs div 4) 0) = words_of bs"
  by (simp add: words_of_def)

lemma unpad:
  "uint32sToBytes ws True = (int (length data), padded True data)" if b: "bytes_of ws = padded True data"
proof -
  let ?n = "length data" let ?p = "pad_len ?n"
  have len: "length ws * 4 = ?n + ?p" using arg_cong [OF b, of length] by (simp add: padded_def)
  have pad: "padded True data ! i = word_of_nat ?p" if "?n \<le> i" "i < ?n + ?p" for i
    using that by (auto simp: padded_def nth_append)
  have u: "uint (word_of_nat ?p :: byte) = int ?p"
    using pad_len_range(2) [of ?n] by (simp add: uint_nat unat_of_nat take_bit_nat_eq_self)
  have "nat (int (length ws * 4) - 1) = ?n + ?p - 1" using len by linarith
  then have last: "uint (padded True data ! nat (int (length ws * 4) - 1)) = int ?p"
    using pad [of "?n + ?p - 1"] pad_len_range(1) [of ?n] u by simp
  have "int (length ws * 4) - int ?p = int ?n" using len by simp
  moreover have "\<not> (\<exists>i\<in>set [?n..<length ws * 4]. uint (padded True data ! i) \<noteq> int ?p)"
    using pad u by (simp add: len)
  ultimately show ?thesis
    using last pad_len_range(1,2) [of ?n] unfolding uint32sToBytes_def b [unfolded bytes_of_def] Let_def by simp
qed

text \<open>C36: What is encrypted can be decrypted.  For every key of 16 bytes, number of rounds and padding mode
  \<open>Encrypt\<close> accepts, its result has a whole number of words and \<open>Decrypt\<close> with the same parameters
  gives the data back byte for byte, padding removed; \<open>Encrypt\<close> refuses exactly keys of another
  length and, without padding, data that is not a whole number of words or shorter than two.\<close>

theorem decrypt_encrypt:
  assumes "length data < 2 ^ 31"
  shows "(\<exists>c. Encrypt data key padding rounds = Inr c) = (length key = 16 \<and> (padding \<or> 8 \<le> length data \<and> length data mod 4 = 0))
    \<and> (\<forall>c. Encrypt data key padding rounds = Inr c \<longrightarrow>
          length c mod 4 = 0 \<and> 8 \<le> length c \<and> Decrypt c key padding rounds = Inr data)"
proof (cases "length key = 16 \<and> (padding \<or> 8 \<le> length data \<and> length data mod 4 = 0)")
  case True
  let ?P = "padded padding data" let ?L = "length ?P div 4"
  note P = padded_size [OF conjunct2 [OF True]]
  define k where "k = bytesToUint32 key 16 (replicate 4 0) False"
  define w where "w = btea (words_of ?P) (int ?L) k rounds"
  have L: "2 \<le> ?L" "?L < 2 ^ 32" "length (words_of ?P) = ?L" "4 * ?L = length ?P"
    using P assms mult_div_mod_eq [of 4 "length ?P"] by (simp_all add: words_of_def)
  have d: "bytesToUint32 data (length data) (replicate ?L 0) padding = words_of ?P"
    using bytesToUint32_padded pack_words [OF P(1)] by simp
  have enc: "Encrypt data key padding rounds = Inr (bytes_of w)"
    using True d P(3) by (auto simp: Encrypt_def Let_def k_def w_def uint32sToBytes_def bytes_of_def not_less)
  have len: "length (bytes_of w) = length ?P" using btea_length [OF L(1-3)] L(4) by (simp add: w_def)
  define c where "c = bytes_of w"
  have dc: "bytesToUint32 c (length c) (replicate (length c div 4) 0) False = w"
  proof -
    have "bytesToUint32 (bytes_of w) (length (bytes_of w)) (replicate (length (bytes_of w) div 4) 0) False
        = pack (bytes_of w) (length (bytes_of w)) (replicate (length (bytes_of w) div 4) 0)"
      using bytesToUint32_padded [of "bytes_of w" "replicate (length (bytes_of w) div 4) 0" False] by (simp only: padded_False)
    also have "\<dots> = words_of (bytes_of w)" by (rule pack_words) (simp only: len P(1))
    finally show ?thesis by (simp add: c_def)
  qed
  have bt: "btea w (- int (length c div 4)) k rounds = words_of ?P"
    unfolding c_def len unfolding w_def by (rule btea_inverse [OF L(1-3)])
  have inv: "bytes_of (words_of ?P) = ?P" by (rule bytes_of_words_of [OF P(1)])
  have guards: "\<not> (\<not> padding \<and> (length c < 8 \<or> length c mod 4 \<noteq> 0))" "\<not> (length c mod 4 \<noteq> 0 \<or> length c < 8)" "\<not> length key \<noteq> 16"
    using len P(1,2) True unfolding c_def by auto
  have "Decrypt c key padding rounds = (case uint32sToBytes (words_of ?P) padding of
      (rc, refBuf) \<Rightarrow> if padding then (if rc \<ge> 0 then Inr (take (nat rc) refBuf) else Inl IllegalPadding) else Inr refBuf)"
    unfolding Decrypt_def Let_def by (simp only: guards if_False dc bt k_def [symmetric])
  also have "\<dots> = Inr data"
  proof (cases padding)
    case pad: True
    then have "uint32sToBytes (words_of ?P) True = (int (length data), ?P)" using unpad [of "words_of ?P" data] inv by simp
    then show ?thesis using pad by (simp add: padded_def)
  next
    case False
    then show ?thesis using inv by (simp add: uint32sToBytes_def Let_def bytes_of_def padded_def)
  qed
  finally have "Decrypt (bytes_of w) key padding rounds = Inr data" by (simp only: c_def)
  then show ?thesis using enc len P(1,2) True by auto
next
  case False
  then show ?thesis by (auto simp: Encrypt_def Let_def)
qed

theorem decrypt_encrypt_witness:
  "\<exists>c. Encrypt [1, 2, 3] (replicate 16 7) True 0 = Inr c \<and> Decrypt c (replicate 16 7) True 0 = Inr [1, 2, 3]"
  using decrypt_encrypt [of "[1, 2, 3]" "replicate 16 7" True 0] by auto

text \<open>A check against the rounds of the source on small data.\<close>

lemma encrypt_sample: "Encrypt [1, 2, 3] (replicate 15 7) True 0 = Inl KeyLength" "Decrypt [1, 2, 3, 4] (replicate 16 7) True 0 = Inl InvalidLength"
  by (simp_all add: Encrypt_def Decrypt_def Let_def)

end
