(* ===== verification/Ssrpc.thy ===== *)
theory Ssrpc
  imports BusAddr
begin

text \<open>
  The RPC layer of src/lib/service/ssrpc: the assembly of bindings (registry.go), the dispatcher
  (dispatcher.go), error codes (errors.go, lib/api/gerr), the middleware chain (middleware.go,
  recover.go, auth.go, uidlock.go, default\_mw.go) and the wrappers that turn a method into a command
  handler (server.go, ws.go). Handlers are values of a type parameter; nil is \<^const>\<open>None\<close>. Strings are
  lists of ASCII characters.
\<close>

section \<open>Bindings and their keys\<close>

definition is_space :: "char \<Rightarrow> bool" where
  "is_space c \<longleftrightarrow> c \<in> {CHR '' '', CHR 0x09, CHR 0x0A, CHR 0x0B, CHR 0x0C, CHR 0x0D}"

definition TrimSpace :: "string \<Rightarrow> string" where
  "TrimSpace s = rev (dropWhile is_space (rev (dropWhile is_space s)))"

definition upper_char :: "char \<Rightarrow> char" where
  "upper_char c = (if of_char c \<ge> (97 :: nat) \<and> of_char c \<le> (122 :: nat) then char_of (of_char c - 32 :: nat) else c)"

definition ToUpper :: "string \<Rightarrow> string" where "ToUpper = map upper_char"

datatype BindingKind = BindingInvalid | BindingCMD | BindingHTTP | BindingWS | BindingGRPCUnary | BindingGRPCStream

record 'h Binding =
  Kind :: BindingKind
  Service :: string
  CMD :: int
  HTTPMethod :: string
  HTTPPath :: string
  GRPCService :: string
  GRPCMethod :: string
  CmdHandler :: "'h option"
  HTTPHandler :: "'h option"
  UnaryHandler :: "'h option"
  ReqFactory :: "'h option"
  StreamHandler :: "'h option"

text \<open>\<open>itoa\<close> puts the digits from the last one to the first in front of what it has.\<close>

fun itoa_loop :: "nat \<Rightarrow> string \<Rightarrow> string" where
  "itoa_loop n buf = (if n = 0 then buf else itoa_loop (n div 10) (digit_char (n mod 10) # buf))"

declare itoa_loop.simps [simp del]

definition ss_itoa :: "int \<Rightarrow> string" where
  "ss_itoa n = (if n = 0 then ''0''
     else if n < 0 then CHR ''-'' # itoa_loop (nat (- n)) [] else itoa_loop (nat n) [])"

definition route_of :: "'h Binding \<Rightarrow> string \<times> string" where
  "route_of b = (let m = ToUpper (TrimSpace (HTTPMethod b)) in (if m = [] then ''POST'' else m, TrimSpace (HTTPPath b)))"

definition key :: "'h Binding \<Rightarrow> string option" where
  "key b = (case Kind b of
       BindingCMD \<Rightarrow> Some (''cmd:'' @ ss_itoa (CMD b))
     | BindingWS \<Rightarrow> Some (''ws:'' @ ss_itoa (CMD b))
     | BindingHTTP \<Rightarrow> (case route_of b of (m, p) \<Rightarrow> if p = [] then None else Some (''http:'' @ m @ '':'' @ p))
     | BindingInvalid \<Rightarrow> None
     | k \<Rightarrow>
         (let svc = TrimSpace (GRPCService b); mtd = TrimSpace (GRPCMethod b)
          in if svc = [] \<or> mtd = [] then None
             else Some ((if k = BindingGRPCStream then ''grpc-s:'' else ''grpc-u:'') @ svc @ ''/'' @ mtd)))"

datatype ss_err = ErrDispatcherSealed | ErrNilHandler | ErrRegistrySealed | ErrDuplicateBinding | ErrEmptyService | ErrInvalidBinding

definition validate :: "'h Binding \<Rightarrow> ss_err option" where
  "validate b = (case Kind b of
       BindingInvalid \<Rightarrow> Some ErrInvalidBinding
     | BindingHTTP \<Rightarrow> if HTTPHandler b = None then Some ErrNilHandler else None
     | BindingGRPCUnary \<Rightarrow> if UnaryHandler b = None \<or> ReqFactory b = None then Some ErrNilHandler else None
     | BindingGRPCStream \<Rightarrow> if StreamHandler b = None then Some ErrNilHandler else None
     | _ \<Rightarrow> if CmdHandler b = None then Some ErrNilHandler else None)"

section \<open>The dispatcher\<close>

record 'h grpcMethodEntry =
  ServiceName :: string
  MethodName :: string
  IsServerStream :: bool
  eReqFactory :: "'h option"
  eUnaryHandler :: "'h option"
  eStreamHandler :: "'h option"

record 'h Dispatcher =
  cmdHandlers :: "int \<Rightarrow> 'h option"
  httpHandlers :: "string \<times> string \<Rightarrow> 'h option"
  wsHandlers :: "int \<Rightarrow> 'h option"
  grpcMethods :: "'h grpcMethodEntry list"
  dSealed :: bool
  cmdRO :: "int \<Rightarrow> 'h option"
  httpRO :: "string \<times> string \<Rightarrow> 'h option"
  wsRO :: "int \<Rightarrow> 'h option"
  grpcRO :: "'h grpcMethodEntry list"

definition NewDispatcher :: "'h Dispatcher" where
  "NewDispatcher = \<lparr>cmdHandlers = Map.empty, httpHandlers = Map.empty, wsHandlers = Map.empty, grpcMethods = [],
     dSealed = False, cmdRO = Map.empty, httpRO = Map.empty, wsRO = Map.empty, grpcRO = []\<rparr>"

definition dSeal :: "'h Dispatcher \<Rightarrow> 'h Dispatcher" where
  "dSeal d = (if dSealed d then d
     else d\<lparr>cmdRO := cmdHandlers d, httpRO := httpHandlers d, wsRO := wsHandlers d, grpcRO := grpcMethods d, dSealed := True\<rparr>)"

definition dRegisterCmd :: "int \<Rightarrow> 'h option \<Rightarrow> 'h Dispatcher \<Rightarrow> 'h Dispatcher" where
  "dRegisterCmd c h d = (case h of None \<Rightarrow> d
     | Some f \<Rightarrow> if dSealed d then d else d\<lparr>cmdHandlers := (cmdHandlers d)(c \<mapsto> f)\<rparr>)"

definition dRegisterCmdE :: "int \<Rightarrow> 'h option \<Rightarrow> 'h Dispatcher \<Rightarrow> ss_err option \<times> 'h Dispatcher" where
  "dRegisterCmdE c h d = (case h of None \<Rightarrow> (Some ErrNilHandler, d)
     | Some f \<Rightarrow> if dSealed d then (Some ErrDispatcherSealed, d) else (None, d\<lparr>cmdHandlers := (cmdHandlers d)(c \<mapsto> f)\<rparr>))"

definition dRegisterHTTP :: "string \<Rightarrow> string \<Rightarrow> 'h option \<Rightarrow> 'h Dispatcher \<Rightarrow> 'h Dispatcher" where
  "dRegisterHTTP m p h d = (case h of None \<Rightarrow> d
     | Some f \<Rightarrow>
         (let m1 = ToUpper (TrimSpace m); m2 = (if m1 = [] then ''POST'' else m1); p1 = TrimSpace p
          in if p1 = [] then d else d\<lparr>httpHandlers := (httpHandlers d)((m2, p1) \<mapsto> f)\<rparr>))"

definition dRegisterWS :: "int \<Rightarrow> 'h option \<Rightarrow> 'h Dispatcher \<Rightarrow> 'h Dispatcher" where
  "dRegisterWS c h d = (case h of None \<Rightarrow> d | Some f \<Rightarrow> d\<lparr>wsHandlers := (wsHandlers d)(c \<mapsto> f)\<rparr>)"

definition dRegisterGRPCUnary :: "string \<Rightarrow> string \<Rightarrow> 'h option \<Rightarrow> 'h option \<Rightarrow> 'h Dispatcher \<Rightarrow> 'h Dispatcher" where
  "dRegisterGRPCUnary svc mtd newReq h d =
     (if newReq = None \<or> h = None then d
      else d\<lparr>grpcMethods := grpcMethods d @ [\<lparr>ServiceName = svc, MethodName = mtd, IsServerStream = False,
                eReqFactory = newReq, eUnaryHandler = h, eStreamHandler = None\<rparr>]\<rparr>)"

definition dRegisterGRPCStream :: "string \<Rightarrow> string \<Rightarrow> 'h option \<Rightarrow> 'h Dispatcher \<Rightarrow> 'h Dispatcher" where
  "dRegisterGRPCStream svc mtd h d =
     (if h = None then d
      else d\<lparr>grpcMethods := grpcMethods d @ [\<lparr>ServiceName = svc, MethodName = mtd, IsServerStream = True,
                eReqFactory = None, eUnaryHandler = None, eStreamHandler = h\<rparr>]\<rparr>)"

fun register_loop :: "nat \<Rightarrow> 'h Binding list \<Rightarrow> 'h Dispatcher \<Rightarrow> (nat \<times> ss_err) option \<times> 'h Dispatcher" where
  "register_loop i [] d = (None, d)"
| "register_loop i (b # bs) d =
     (case validate b of
        Some e \<Rightarrow> (Some (i, e), d)
      | None \<Rightarrow>
          (case Kind b of
             BindingCMD \<Rightarrow> (case dRegisterCmdE (CMD b) (CmdHandler b) d of
                 (Some e, d1) \<Rightarrow> (Some (i, e), d1) | (None, d1) \<Rightarrow> register_loop (Suc i) bs d1)
           | BindingWS \<Rightarrow> (case dRegisterCmdE (CMD b) (CmdHandler b) d of
                 (Some e, d1) \<Rightarrow> (Some (i, e), d1)
               | (None, d1) \<Rightarrow> register_loop (Suc i) bs (dRegisterWS (u32 (CMD b)) (CmdHandler b) d1))
           | BindingHTTP \<Rightarrow> register_loop (Suc i) bs (dRegisterHTTP (HTTPMethod b) (HTTPPath b) (HTTPHandler b) d)
           | BindingGRPCUnary \<Rightarrow>
               register_loop (Suc i) bs (dRegisterGRPCUnary (GRPCService b) (GRPCMethod b) (ReqFactory b) (UnaryHandler b) d)
           | BindingGRPCStream \<Rightarrow>
               register_loop (Suc i) bs (dRegisterGRPCStream (GRPCService b) (GRPCMethod b) (StreamHandler b) d)
           | BindingInvalid \<Rightarrow> (Some (i, ErrInvalidBinding), d)))"

definition RegisterBindings :: "'h Binding list \<Rightarrow> 'h Dispatcher \<Rightarrow> (nat \<times> ss_err) option \<times> 'h Dispatcher" where
  "RegisterBindings = register_loop 0"

text \<open>What \<open>DispatchWS\<close> finds, the routes \<open>MountGin\<close> mounts, and the handlers \<open>RegisterToTransactionMgr\<close> and
  \<open>MountGRPC\<close> pass on.\<close>

definition DispatchWS :: "'h Dispatcher \<Rightarrow> int \<Rightarrow> 'h option" where
  "DispatchWS d c = (if dSealed d then wsRO d c else wsHandlers d c)"

definition MountGin :: "'h Dispatcher \<Rightarrow> string \<times> string \<Rightarrow> 'h option" where
  "MountGin d = (if dSealed d then httpRO d else httpHandlers d)"

definition MountGRPC :: "'h Dispatcher \<Rightarrow> 'h grpcMethodEntry list" where
  "MountGRPC d = (if dSealed d then grpcRO d else grpcMethods d)"

text \<open>The transaction manager answers an error for a command; the map is gone through in some order.\<close>

fun RegisterToTransactionMgr :: "('m \<Rightarrow> int \<Rightarrow> 'h \<Rightarrow> 'm + 'e) \<Rightarrow> (int \<times> 'h) list \<Rightarrow> 'm \<Rightarrow> (int \<times> 'e) option \<times> 'm" where
  "RegisterToTransactionMgr reg [] mgr = (None, mgr)"
| "RegisterToTransactionMgr reg ((c, h) # entries) mgr =
     (case reg mgr c h of Inr e \<Rightarrow> (Some (c, e), mgr) | Inl mgr1 \<Rightarrow> RegisterToTransactionMgr reg entries mgr1)"

section \<open>The registry\<close>

record 'h Registry =
  rSealed :: bool
  keys :: "string \<Rightarrow> 'h Binding option"
  cmdOrder :: "int list"
  httpOrder :: "(string \<times> string) list"
  wsOrder :: "int list"
  grpcOrder :: "'h grpcMethodEntry list"
  sealedDispatcher :: "'h Dispatcher option"

definition NewRegistry :: "'h Registry" where
  "NewRegistry = \<lparr>rSealed = False, keys = Map.empty, cmdOrder = [], httpOrder = [], wsOrder = [], grpcOrder = [], sealedDispatcher = None\<rparr>"

text \<open>The first pass: the errors of a batch, with the keys seen so far in it.\<close>

fun check_batch :: "'h Registry \<Rightarrow> string set \<Rightarrow> nat \<Rightarrow> 'h Binding list \<Rightarrow> (nat \<times> ss_err) list" where
  "check_batch r seen i [] = []"
| "check_batch r seen i (b # bs) =
     (case validate b of
        Some e \<Rightarrow> (i, e) # check_batch r seen (Suc i) bs
      | None \<Rightarrow>
          (case key b of
             None \<Rightarrow> (i, ErrInvalidBinding) # check_batch r seen (Suc i) bs
           | Some k \<Rightarrow>
               if k \<in> seen \<or> keys r k \<noteq> None then (i, ErrDuplicateBinding) # check_batch r seen (Suc i) bs
               else check_batch r (insert k seen) (Suc i) bs))"

definition entry_of :: "'h Binding \<Rightarrow> 'h grpcMethodEntry" where
  "entry_of b = \<lparr>ServiceName = GRPCService b, MethodName = GRPCMethod b, IsServerStream = (Kind b = BindingGRPCStream),
     eReqFactory = ReqFactory b, eUnaryHandler = UnaryHandler b, eStreamHandler = StreamHandler b\<rparr>"

definition commit_one :: "string \<Rightarrow> 'h Registry \<Rightarrow> 'h Binding \<Rightarrow> 'h Registry" where
  "commit_one service r b0 =
     (let b = b0\<lparr>Service := service\<rparr>;
          r1 = r\<lparr>keys := (keys r)((case key b of None \<Rightarrow> [] | Some k \<Rightarrow> k) \<mapsto> b)\<rparr>
      in case Kind b of
           BindingCMD \<Rightarrow> r1\<lparr>cmdOrder := cmdOrder r1 @ [CMD b]\<rparr>
         | BindingWS \<Rightarrow> r1\<lparr>wsOrder := wsOrder r1 @ [u32 (CMD b)]\<rparr>
         | BindingHTTP \<Rightarrow> r1\<lparr>httpOrder := httpOrder r1 @ [route_of b]\<rparr>
         | BindingInvalid \<Rightarrow> r1
         | _ \<Rightarrow> r1\<lparr>grpcOrder := grpcOrder r1 @ [entry_of b]\<rparr>)"

datatype reg_result = RegOk | RegErr ss_err | RegErrs "(nat \<times> ss_err) list"

definition Register :: "string \<Rightarrow> 'h Binding list \<Rightarrow> 'h Registry \<Rightarrow> reg_result \<times> 'h Registry" where
  "Register service bindings r =
     (if TrimSpace service = [] then (RegErr ErrEmptyService, r)
      else if rSealed r then (RegErr ErrRegistrySealed, r)
      else let errs = check_batch r {} 0 bindings
           in if errs \<noteq> [] then (RegErrs errs, r) else (RegOk, foldl (commit_one service) r bindings))"

definition empty_binding :: "BindingKind \<Rightarrow> 'h Binding" where
  "empty_binding k = \<lparr>Kind = k, Service = [], CMD = 0, HTTPMethod = [], HTTPPath = [], GRPCService = [], GRPCMethod = [],
     CmdHandler = None, HTTPHandler = None, UnaryHandler = None, ReqFactory = None, StreamHandler = None\<rparr>"

text \<open>The handler that \<open>Seal\<close> looks up for the key of a binding with the given fields.\<close>

definition stored :: "'h Registry \<Rightarrow> 'h Binding \<Rightarrow> 'h Binding option" where
  "stored r b = keys r (case key b of None \<Rightarrow> [] | Some k \<Rightarrow> k)"

definition build :: "'h Registry \<Rightarrow> 'h Dispatcher" where
  "build r = NewDispatcher\<lparr>
     cmdHandlers := foldl (\<lambda>m c. case stored r ((empty_binding BindingCMD)\<lparr>CMD := c\<rparr>) of
         None \<Rightarrow> m | Some b \<Rightarrow> m(c := CmdHandler b)) Map.empty (cmdOrder r),
     wsHandlers := foldl (\<lambda>m c. case stored r ((empty_binding BindingWS)\<lparr>CMD := i32 c\<rparr>) of
         None \<Rightarrow> m | Some b \<Rightarrow> m(c := CmdHandler b)) Map.empty (wsOrder r),
     httpHandlers := foldl (\<lambda>m hk. case stored r ((empty_binding BindingHTTP)\<lparr>HTTPMethod := fst hk, HTTPPath := snd hk\<rparr>) of
         None \<Rightarrow> m | Some b \<Rightarrow> m(hk := HTTPHandler b)) Map.empty (httpOrder r),
     grpcMethods := grpcOrder r\<rparr>"

definition rSeal :: "'h Registry \<Rightarrow> (ss_err + 'h Dispatcher) \<times> 'h Registry" where
  "rSeal r =
     (if rSealed r then
        (case sealedDispatcher r of Some d \<Rightarrow> (Inr d, r) | None \<Rightarrow> (Inl ErrRegistrySealed, r))
      else let d = dSeal (build r) in (Inr d, r\<lparr>rSealed := True, sealedDispatcher := Some d\<rparr>))"

section \<open>Trimming and keys\<close>

definition bare :: "string \<Rightarrow> bool" where
  "bare t \<longleftrightarrow> t = [] \<or> \<not> is_space (hd t) \<and> \<not> is_space (last t)"

lemma bare_TrimSpace: "bare (TrimSpace s)"
proof (cases "TrimSpace s = []")
  case False
  define u where "u = dropWhile is_space s"
  have t: "TrimSpace s = rev (dropWhile is_space (rev u))" by (simp add: TrimSpace_def u_def)
  obtain pre where "rev u = pre @ dropWhile is_space (rev u)" by (metis takeWhile_dropWhile_id)
  then have u: "u = TrimSpace s @ rev pre" unfolding t by (metis rev_append rev_rev_ident)
  have "hd (TrimSpace s) = hd u" using False by (subst u) simp
  moreover have "u \<noteq> []" using False u by auto
  then have "\<not> is_space (hd u)" unfolding u_def by (rule hd_dropWhile)
  moreover have "dropWhile is_space (rev u) \<noteq> []" using False t by simp
  then have "\<not> is_space (last (TrimSpace s))" unfolding t by (simp add: last_rev hd_dropWhile)
  ultimately show ?thesis by (simp add: bare_def)
qed (simp add: bare_def)

lemma TrimSpace_bare: "bare t \<Longrightarrow> TrimSpace t = t"
proof (cases t rule: rev_cases)
  case (snoc ys y)
  assume "bare t"
  then have "\<not> is_space (hd t)" "\<not> is_space y" using snoc by (auto simp: bare_def)
  then have "dropWhile is_space t = t" by (simp add: dropWhile_eq_self_iff)
  moreover have "dropWhile is_space (rev t) = rev t" using snoc \<open>\<not> is_space y\<close> by simp
  ultimately show ?thesis by (simp add: TrimSpace_def)
qed (simp add: TrimSpace_def)

lemma TrimSpace_idem [simp]: "TrimSpace (TrimSpace s) = TrimSpace s"
  by (rule TrimSpace_bare [OF bare_TrimSpace])

lemma of_char_lt: "of_char (c :: char) < (256 :: nat)"
  by (cases c) (simp add: of_char_Char horner_sum_bit_eq_take_bit split: prod.splits)

lemma upper_char_code: "of_char (upper_char c) = (if of_char c \<ge> (97 :: nat) \<and> of_char c \<le> (122 :: nat) then of_char c - 32 else of_char c :: nat)"
proof -
  have "(of_char c - 32 :: nat) mod 256 = of_char c - 32" using of_char_lt [of c] by (intro mod_less) linarith
  then show ?thesis by (simp add: upper_char_def)
qed

lemma upper_char_idem: "upper_char (upper_char c) = upper_char c"
proof (cases "of_char c \<ge> (97 :: nat) \<and> of_char c \<le> (122 :: nat)")
  case True
  then have "of_char (upper_char c) = (of_char c - 32 :: nat)" by (simp add: upper_char_code)
  moreover have "\<not> (97 :: nat) \<le> of_char c - 32" using True by linarith
  ultimately have "\<not> (97 :: nat) \<le> of_char (upper_char c)" by metis
  then show ?thesis unfolding upper_char_def [of "upper_char c"] by metis
next
  case False
  then have "upper_char c = c" unfolding upper_char_def by (rule if_not_P)
  then show ?thesis by simp
qed

lemma is_space_code: "is_space c \<longleftrightarrow> of_char c \<in> {32, 9, 10, 11, 12, 13 :: nat}"
proof -
  have "c = d \<longleftrightarrow> of_char c = (of_char d :: nat)" for d by simp
  then show ?thesis unfolding is_space_def by (simp del: of_char_eq_iff)
qed

lemma is_space_upper: "is_space (upper_char c) = is_space c"
  by (auto simp: is_space_code upper_char_code)

lemma bare_ToUpper: "bare t \<Longrightarrow> bare (ToUpper t)"
  by (cases "t = []") (simp_all add: bare_def ToUpper_def hd_map last_map is_space_upper)

lemma ToUpper_idem: "ToUpper (ToUpper t) = ToUpper t"
  by (simp add: ToUpper_def upper_char_idem)

text \<open>The key of a route is the key of its normal form.\<close>

lemma route_normal:
  assumes "route_of b = hk"
  shows "route_of ((empty_binding BindingHTTP)\<lparr>HTTPMethod := fst hk, HTTPPath := snd hk\<rparr>) = hk"
proof -
  let ?m = "ToUpper (TrimSpace (HTTPMethod b))"
  have "ToUpper (TrimSpace ?m) = ?m" using TrimSpace_bare [OF bare_ToUpper [OF bare_TrimSpace]] ToUpper_idem by simp
  moreover have "ToUpper (TrimSpace ''POST'') = ''POST''" by code_simp
  ultimately show ?thesis using assms by (auto simp: route_of_def Let_def)
qed

lemma key_normal:
  "Kind b = BindingCMD \<Longrightarrow> key ((empty_binding BindingCMD)\<lparr>CMD := CMD b\<rparr>) = key b"
  "Kind b = BindingWS \<Longrightarrow> key ((empty_binding BindingWS)\<lparr>CMD := CMD b\<rparr>) = key b"
  by (simp_all add: key_def empty_binding_def)

lemma key_route:
  "Kind b = BindingHTTP \<Longrightarrow> key b = (if snd (route_of b) = [] then None else Some (''http:'' @ fst (route_of b) @ '':'' @ snd (route_of b)))"
  by (simp add: key_def split: prod.splits)

lemma key_normal_route:
  fixes b :: "'h Binding"
  assumes "Kind b = BindingHTTP" "route_of b = hk"
  shows "key ((empty_binding BindingHTTP :: 'h Binding)\<lparr>HTTPMethod := fst hk, HTTPPath := snd hk\<rparr>) = key b"
proof -
  let ?e = "(empty_binding BindingHTTP)\<lparr>HTTPMethod := fst hk, HTTPPath := snd hk\<rparr> :: 'h Binding"
  have "Kind ?e = BindingHTTP" by (simp add: empty_binding_def)
  from key_route [OF this] show ?thesis
    unfolding route_normal [OF assms(2)] key_route [OF assms(1)] assms(2) .
qed

lemma key_service [simp]: "key (b\<lparr>Service := s\<rparr>) = key b" "validate (b\<lparr>Service := s\<rparr>) = validate b"
  "route_of (b\<lparr>Service := s\<rparr>) = route_of b"
  by (simp_all add: key_def validate_def route_of_def split: BindingKind.splits)

text \<open>\<open>itoa\<close> is the decimal notation, so that different commands have different keys.\<close>

lemma itoa_loop_Itoa: "itoa_loop n buf = (if n = 0 then [] else Itoa n) @ buf"
proof (induction n arbitrary: buf rule: less_induct)
  case (less n)
  show ?case
  proof (cases "n = 0")
    case False
    then have "itoa_loop n buf = (if n div 10 = 0 then [] else Itoa (n div 10)) @ digit_char (n mod 10) # buf"
      by (subst itoa_loop.simps) (simp add: less)
    then show ?thesis using False by (subst Itoa.simps) auto
  qed (simp add: itoa_loop.simps)
qed

lemma Itoa_inj: "Itoa m = Itoa n \<Longrightarrow> m = n"
  by (metis Itoa_value)

lemma ss_itoa_inj: "ss_itoa m = ss_itoa n \<Longrightarrow> m = n"
proof -
  assume e: "ss_itoa m = ss_itoa n"
  have pos: "x > 0 \<Longrightarrow> ss_itoa x = Itoa (nat x)" for x by (simp add: ss_itoa_def itoa_loop_Itoa)
  have neg: "x < 0 \<Longrightarrow> ss_itoa x = CHR ''-'' # Itoa (nat (- x))" for x by (simp add: ss_itoa_def itoa_loop_Itoa)
  have "ss_itoa 0 = Itoa (nat 0)" by code_simp
  then have nonneg: "0 \<le> x \<Longrightarrow> ss_itoa x = Itoa (nat x)" for x using pos [of x] by (cases "x = 0") auto
  have no: "Itoa k \<noteq> CHR ''-'' # r" for k r using digits_no_sign [OF Itoa_digits [of k]] by auto
  consider "m < 0" "n < 0" | "m < 0" "0 \<le> n" | "0 \<le> m" "n < 0" | "0 \<le> m" "0 \<le> n" by linarith
  then show ?thesis
  proof cases
    case 1
    then show ?thesis using e neg Itoa_inj [of "nat (- m)" "nat (- n)"] by simp
  next
    case 2
    then show ?thesis using e neg nonneg no by metis
  next
    case 3
    then show ?thesis using e neg nonneg no by metis
  next
    case 4
    then show ?thesis using e nonneg Itoa_inj [of "nat m" "nat n"] by simp
  qed
qed

section \<open>What is registered is what is dispatched\<close>

definition reg_step :: "'h Registry \<Rightarrow> string \<times> 'h Binding list \<Rightarrow> 'h Registry" where
  "reg_step r batch = snd (Register (fst batch) (snd batch) r)"

text \<open>What the registry promises: the list of the accepted bindings. A batch is accepted as a whole when
  each binding has its handler and a key, and no key repeats one of the batch or of an earlier one.\<close>

definition good_batch :: "'h Binding list \<Rightarrow> string \<times> 'h Binding list \<Rightarrow> bool" where
  "good_batch acc batch \<longleftrightarrow> TrimSpace (fst batch) \<noteq> [] \<and> (\<forall>b\<in>set (snd batch). validate b = None \<and> key b \<noteq> None)
     \<and> distinct (map key (acc @ snd batch))"

definition accept :: "'h Binding list \<Rightarrow> string \<times> 'h Binding list \<Rightarrow> 'h Binding list" where
  "accept acc batch = (if good_batch acc batch then acc @ map (\<lambda>b. b\<lparr>Service := fst batch\<rparr>) (snd batch) else acc)"

definition is_grpc :: "'h Binding \<Rightarrow> bool" where "is_grpc b \<longleftrightarrow> Kind b \<in> {BindingGRPCUnary, BindingGRPCStream}"

definition reg_inv :: "'h Binding list \<Rightarrow> 'h Registry \<Rightarrow> bool" where
  "reg_inv acc r \<longleftrightarrow> \<not> rSealed r \<and> (\<forall>b\<in>set acc. validate b = None \<and> key b \<noteq> None) \<and> distinct (map key acc)
     \<and> (\<forall>k b. keys r k = Some b \<longleftrightarrow> b \<in> set acc \<and> key b = Some k)
     \<and> cmdOrder r = map CMD (filter (\<lambda>b. Kind b = BindingCMD) acc)
     \<and> wsOrder r = map (\<lambda>b. u32 (CMD b)) (filter (\<lambda>b. Kind b = BindingWS) acc)
     \<and> httpOrder r = map route_of (filter (\<lambda>b. Kind b = BindingHTTP) acc)
     \<and> grpcOrder r = map entry_of (filter is_grpc acc)"

lemma check_batch_ok:
  "check_batch r seen i bs = [] \<longleftrightarrow>
     (\<forall>b\<in>set bs. validate b = None \<and> (\<exists>k. key b = Some k \<and> keys r k = None \<and> k \<notin> seen)) \<and> distinct (map key bs)"
proof (induction bs arbitrary: seen i)
  case (Cons b bs)
  show ?case
  proof (cases "validate b = None \<and> (\<exists>k. key b = Some k \<and> keys r k = None \<and> k \<notin> seen)")
    case True
    then obtain k where k: "validate b = None" "key b = Some k" "keys r k = None" "k \<notin> seen" by blast
    then have "check_batch r seen i (b # bs) = check_batch r (insert k seen) (Suc i) bs" by simp
    moreover have "Some k \<notin> key ` set bs \<longleftrightarrow> (\<forall>b'\<in>set bs. \<forall>k'. key b' = Some k' \<longrightarrow> k' \<noteq> k)" by force
    ultimately show ?thesis using Cons.IH [of "insert k seen" "Suc i"] k by auto
  next
    case False
    then show ?thesis by (auto split: option.splits)
  qed
qed simp

lemma commit_one_inv:
  assumes "reg_inv acc r" "validate b = None" "key b = Some k" "\<forall>b'\<in>set acc. key b' \<noteq> Some k"
  shows "reg_inv (acc @ [b\<lparr>Service := s\<rparr>]) (commit_one s r b)"
proof -
  let ?b = "b\<lparr>Service := s\<rparr>"
  have "Kind b \<noteq> BindingInvalid" using assms(2) by (auto simp: validate_def)
  have K: "keys (commit_one s r b) = (keys r)(k \<mapsto> ?b)"
    using assms(3) by (simp add: commit_one_def Let_def split: BindingKind.splits)
  have "keys (commit_one s r b) k' = Some b' \<longleftrightarrow> b' \<in> set (acc @ [?b]) \<and> key b' = Some k'" for k' b'
    using assms(1,3,4) unfolding K reg_inv_def by (cases "k' = k") auto
  moreover have "key ?b \<notin> key ` set acc" using assms(3,4) by (metis image_iff key_service(1))
  then have "distinct (map key (acc @ [?b]))" using assms(1) by (simp add: reg_inv_def)
  moreover have "\<forall>b\<in>set (acc @ [?b]). validate b = None \<and> key b \<noteq> None" using assms(1-3) by (simp add: reg_inv_def)
  moreover have "rSealed (commit_one s r b) = rSealed r" by (simp add: commit_one_def Let_def split: BindingKind.splits)
  moreover have "cmdOrder (commit_one s r b) = map CMD (filter (\<lambda>b. Kind b = BindingCMD) (acc @ [?b]))"
    "wsOrder (commit_one s r b) = map (\<lambda>b. u32 (CMD b)) (filter (\<lambda>b. Kind b = BindingWS) (acc @ [?b]))"
    "httpOrder (commit_one s r b) = map route_of (filter (\<lambda>b. Kind b = BindingHTTP) (acc @ [?b]))"
    "grpcOrder (commit_one s r b) = map entry_of (filter is_grpc (acc @ [?b]))"
    using assms(1) \<open>Kind b \<noteq> BindingInvalid\<close>
    by (simp_all add: reg_inv_def commit_one_def Let_def is_grpc_def split: BindingKind.splits)
  moreover have "\<not> rSealed r" using assms(1) by (simp add: reg_inv_def)
  ultimately show ?thesis unfolding reg_inv_def by simp
qed

lemma commit_inv:
  "reg_inv acc r \<Longrightarrow> \<forall>b\<in>set bs. validate b = None \<and> (\<exists>k. key b = Some k \<and> keys r k = None) \<Longrightarrow> distinct (map key bs)
    \<Longrightarrow> reg_inv (acc @ map (\<lambda>b. b\<lparr>Service := s\<rparr>) bs) (foldl (commit_one s) r bs)"
proof (induction bs arbitrary: acc r)
  case (Cons b bs)
  obtain k where k: "validate b = None" "key b = Some k" "keys r k = None" using Cons.prems(2) by auto
  have fresh: "\<forall>b'\<in>set acc. key b' \<noteq> Some k" using Cons.prems(1) k(3) unfolding reg_inv_def by (metis option.distinct(1))
  note inv = commit_one_inv [OF Cons.prems(1) k(1,2) fresh, of s]
  have K: "keys (commit_one s r b) = (keys r)(k \<mapsto> b\<lparr>Service := s\<rparr>)"
    using k(2) by (simp add: commit_one_def Let_def split: BindingKind.splits)
  have "validate b' = None \<and> (\<exists>k'. key b' = Some k' \<and> keys (commit_one s r b) k' = None)" if "b' \<in> set bs" for b'
  proof -
    have "validate b' = None \<and> (\<exists>k'. key b' = Some k' \<and> keys r k' = None)" using Cons.prems(2) that by simp
    then obtain k' where k': "validate b' = None" "key b' = Some k'" "keys r k' = None" by blast
    have "k' \<noteq> k" using Cons.prems(3) that k(2) k'(2) by (metis (no_types, lifting) distinct.simps(2) image_eqI list.set_map list.simps(9))
    then show ?thesis using k' K by simp
  qed
  then show ?case using Cons.IH [OF inv] Cons.prems(3) by simp
qed simp

lemma Register_ok:
  assumes "reg_inv acc r"
  shows "fst (Register service bs r) = RegOk \<longleftrightarrow> good_batch acc (service, bs)"
proof -
  have stored: "keys r k = Some b \<longleftrightarrow> b \<in> set acc \<and> key b = Some k" for k b using assms by (simp add: reg_inv_def)
  have "keys r k = None \<longleftrightarrow> Some k \<notin> key ` set acc" for k
  proof (cases "keys r k")
    case None
    then have "\<not> (b \<in> set acc \<and> key b = Some k)" for b using stored [of k b] by simp
    then have "Some k \<notin> key ` set acc" by (metis imageE)
    then show ?thesis using None by simp
  next
    case (Some b)
    then have "b \<in> set acc" "key b = Some k" using stored by auto
    then show ?thesis using Some by (metis imageI option.distinct(1))
  qed
  then have fresh: "(\<exists>k. key b = Some k \<and> keys r k = None) \<longleftrightarrow> key b \<noteq> None \<and> key b \<notin> key ` set acc" for b
    by (cases "key b") auto
  have "check_batch r {} 0 bs = [] \<longleftrightarrow> (\<forall>b\<in>set bs. validate b = None \<and> key b \<noteq> None \<and> key b \<notin> key ` set acc) \<and> distinct (map key bs)"
    unfolding check_batch_ok by (simp add: fresh)
  moreover have "distinct (map key (acc @ bs)) \<longleftrightarrow> distinct (map key bs) \<and> (\<forall>b\<in>set bs. key b \<notin> key ` set acc)"
  proof -
    have "distinct (map key acc)" using assms by (simp add: reg_inv_def)
    moreover have "key ` set acc \<inter> key ` set bs = {} \<longleftrightarrow> (\<forall>b\<in>set bs. key b \<notin> key ` set acc)"
      by (simp only: disjoint_iff) blast
    ultimately show ?thesis unfolding map_append distinct_append list.set_map by (simp only: simp_thms)
  qed
  moreover have "\<not> rSealed r" using assms by (simp add: reg_inv_def)
  ultimately show ?thesis by (auto simp: Register_def Let_def good_batch_def)
qed

lemma reg_step_inv:
  assumes "reg_inv acc r"
  shows "reg_inv (accept acc batch) (reg_step r batch)"
proof (cases "good_batch acc batch")
  case True
  then have ok: "fst (Register (fst batch) (snd batch) r) = RegOk" using Register_ok [OF assms] by simp
  then have "check_batch r {} 0 (snd batch) = []" and s: "reg_step r batch = foldl (commit_one (fst batch)) r (snd batch)"
    by (auto simp: Register_def reg_step_def Let_def split: if_splits)
  from check_batch_ok [THEN iffD1, OF this(1)]
  have "\<forall>b\<in>set (snd batch). validate b = None \<and> (\<exists>k. key b = Some k \<and> keys r k = None)" "distinct (map key (snd batch))" by blast+
  from commit_inv [OF assms this, of "fst batch"] show ?thesis using True s by (simp add: accept_def)
next
  case False
  then have "fst (Register (fst batch) (snd batch) r) \<noteq> RegOk" using Register_ok [OF assms] by simp
  then have "reg_step r batch = r" by (auto simp: Register_def reg_step_def Let_def split: if_splits)
  then show ?thesis using False assms by (simp add: accept_def)
qed

lemma run_reg_inv: "reg_inv acc r \<Longrightarrow> reg_inv (foldl accept acc batches) (foldl reg_step r batches)"
  by (induction batches arbitrary: acc r) (simp_all add: reg_step_inv)

lemma NewRegistry_inv: "reg_inv [] NewRegistry"
  by (simp add: reg_inv_def NewRegistry_def)

lemma fold_table:
  "foldl (\<lambda>m c. case f c of None \<Rightarrow> m | Some b \<Rightarrow> m(c := g b)) m0 cs c
     = (if c \<in> set cs then (case f c of None \<Rightarrow> m0 c | Some b \<Rightarrow> g b) else m0 c)"
  by (induction cs arbitrary: m0) (auto split: option.splits)

text \<open>The other way in, \<open>RegisterBindings\<close>, differs from the registry: a client packet binding also takes the server
  command of the same number, and a route without a path is dropped without an error.\<close>

lemma RegisterBindings_ws_takes_command:
  "fst (RegisterBindings [(empty_binding BindingCMD)\<lparr>CMD := c, CmdHandler := Some h\<rparr>, (empty_binding BindingWS)\<lparr>CMD := c, CmdHandler := Some h'\<rparr>]
       NewDispatcher) = None"
  "cmdHandlers (snd (RegisterBindings [(empty_binding BindingCMD)\<lparr>CMD := c, CmdHandler := Some h\<rparr>,
       (empty_binding BindingWS)\<lparr>CMD := c, CmdHandler := Some h'\<rparr>] NewDispatcher)) c = Some h'"
  by (simp_all add: RegisterBindings_def validate_def empty_binding_def dRegisterCmdE_def dRegisterWS_def NewDispatcher_def)

lemma RegisterBindings_empty_path:
  "TrimSpace (HTTPPath b) = [] \<Longrightarrow> Kind b = BindingHTTP \<Longrightarrow> HTTPHandler b = Some h \<Longrightarrow> RegisterBindings [b] d = (None, d)"
  by (simp add: RegisterBindings_def validate_def dRegisterHTTP_def Let_def)

text \<open>Whatever is called on a sealed dispatcher later, its lookups stay the same.\<close>

datatype 'h disp_op =
    OpRegisterCmd int "'h option" | OpRegisterCmdE int "'h option" | OpRegisterHTTP string string "'h option"
  | OpRegisterWS int "'h option" | OpRegisterGRPCUnary string string "'h option" "'h option"
  | OpRegisterGRPCStream string string "'h option" | OpRegisterBindings "'h Binding list" | OpSeal

fun disp_exec :: "'h Dispatcher \<Rightarrow> 'h disp_op \<Rightarrow> 'h Dispatcher" where
  "disp_exec d (OpRegisterCmd c h) = dRegisterCmd c h d"
| "disp_exec d (OpRegisterCmdE c h) = snd (dRegisterCmdE c h d)"
| "disp_exec d (OpRegisterHTTP m p h) = dRegisterHTTP m p h d"
| "disp_exec d (OpRegisterWS c h) = dRegisterWS c h d"
| "disp_exec d (OpRegisterGRPCUnary s m f h) = dRegisterGRPCUnary s m f h d"
| "disp_exec d (OpRegisterGRPCStream s m h) = dRegisterGRPCStream s m h d"
| "disp_exec d (OpRegisterBindings bs) = snd (RegisterBindings bs d)"
| "disp_exec d OpSeal = dSeal d"

definition frozen :: "'h Dispatcher \<Rightarrow> 'h Dispatcher \<Rightarrow> bool" where
  "frozen d d' \<longleftrightarrow> dSealed d' \<and> cmdHandlers d' = cmdHandlers d \<and> cmdRO d' = cmdRO d \<and> httpRO d' = httpRO d \<and> wsRO d' = wsRO d \<and> grpcRO d' = grpcRO d"

lemma frozen_ops:
  assumes "frozen d0 d"
  shows "frozen d0 (dRegisterCmd c h d)" "frozen d0 (snd (dRegisterCmdE c h d))" "frozen d0 (dRegisterHTTP m p h d)"
    "frozen d0 (dRegisterWS c h d)" "frozen d0 (dRegisterGRPCUnary s m f h d)" "frozen d0 (dRegisterGRPCStream s m h d)"
    "frozen d0 (dSeal d)"
  using assms
  by (auto simp: frozen_def dRegisterCmd_def dRegisterCmdE_def dRegisterHTTP_def dRegisterWS_def dRegisterGRPCUnary_def
      dRegisterGRPCStream_def dSeal_def Let_def split: option.splits)

lemma frozen_register_loop: "frozen d0 d \<Longrightarrow> frozen d0 (snd (register_loop i bs d))"
proof (induction bs arbitrary: i d)
  case (Cons b bs)
  have "dSealed d" using Cons.prems by (simp add: frozen_def)
  then have "\<exists>e. dRegisterCmdE c h d = (Some e, d)" for c h by (simp add: dRegisterCmdE_def split: option.splits)
  then obtain e where "dRegisterCmdE (CMD b) (CmdHandler b) d = (Some e, d)" by blast
  then show ?case using Cons.prems Cons.IH [OF frozen_ops(3)] Cons.IH [OF frozen_ops(5)] Cons.IH [OF frozen_ops(6)]
    by (simp split: option.splits BindingKind.splits)
qed simp

interpretation sealed: op_invariant disp_exec "frozen d0" for d0 :: "'h Dispatcher"
proof unfold_locales
  show "frozen d0 (disp_exec d a)" if "frozen d0 d" for d :: "'h Dispatcher" and a
    using frozen_ops [OF that] frozen_register_loop [OF that] by (cases a) (simp_all add: RegisterBindings_def)
qed

lemma stored_unique:
  assumes "reg_inv acc r" "b \<in> set acc" "key b' = key b"
  shows "stored r b' = Some b"
proof -
  obtain k where k: "key b = Some k" using assms(1,2) unfolding reg_inv_def by blast
  have "keys r k = Some b" using assms(1,2) k unfolding reg_inv_def by blast
  then show ?thesis using assms(3) k by (simp add: stored_def)
qed

lemma fold_stored:
  assumes "reg_inv acc r" "cs = map f (filter P acc)"
    "\<And>b. b \<in> set acc \<Longrightarrow> P b \<Longrightarrow> key (e (f b)) = key b"
  shows "foldl (\<lambda>m c. case stored r (e c) of None \<Rightarrow> m | Some b \<Rightarrow> m(c := g b)) Map.empty cs c = Some h
     \<longleftrightarrow> (\<exists>b\<in>set acc. P b \<and> f b = c \<and> g b = Some h)"
proof -
  have s: "stored r (e (f b)) = Some b" if "b \<in> set acc" "P b" for b
    using stored_unique [OF assms(1) that(1) assms(3) [OF that]] .
  show ?thesis
  proof (cases "c \<in> set cs")
    case True
    then obtain b where b: "b \<in> set acc" "P b" "c = f b" using assms(2) by auto
    have at: "stored r (e c) = Some b" unfolding b(3) by (rule s [OF b(1,2)])
    have "foldl (\<lambda>m c. case stored r (e c) of None \<Rightarrow> m | Some b \<Rightarrow> m(c := g b)) Map.empty cs c = g b"
      unfolding fold_table at if_P [OF True] option.case ..
    moreover have same: "b' = b" if "b' \<in> set acc" "P b'" "f b' = c" for b'
      using s [OF that(1,2)] at unfolding that(3) by simp
    have "(\<exists>b\<in>set acc. P b \<and> f b = c \<and> g b = Some h) \<longleftrightarrow> g b = Some h"
    proof
      assume "\<exists>b\<in>set acc. P b \<and> f b = c \<and> g b = Some h"
      then obtain b' where b': "b' \<in> set acc" "P b'" "f b' = c" "g b' = Some h" by blast
      then show "g b = Some h" using same [OF b'(1-3)] by simp
    next
      assume "g b = Some h"
      then show "\<exists>b\<in>set acc. P b \<and> f b = c \<and> g b = Some h" using b by blast
    qed
    ultimately show ?thesis by simp
  next
    case False
    then have "\<not> (\<exists>b\<in>set acc. P b \<and> f b = c)" using assms(2) by auto
    then show ?thesis using False unfolding fold_table by auto
  qed
qed

definition assembled :: "(string \<times> 'h Binding list) list \<Rightarrow> 'h Binding list" where
  "assembled = foldl accept []"

definition registered :: "(string \<times> 'h Binding list) list \<Rightarrow> 'h Registry" where
  "registered = foldl reg_step NewRegistry"

lemma registered_inv: "reg_inv (assembled batches) (registered batches)"
  unfolding assembled_def registered_def by (rule run_reg_inv [OF NewRegistry_inv])

lemma build_tables:
  assumes inv: "reg_inv acc r" and range: "\<forall>b\<in>set acc. - 2147483648 \<le> CMD b \<and> CMD b < 2147483648"
  shows "cmdHandlers (build r) c = Some h \<longleftrightarrow> (\<exists>b\<in>set acc. Kind b = BindingCMD \<and> CMD b = c \<and> CmdHandler b = Some h)"
    "wsHandlers (build r) c = Some h \<longleftrightarrow> (\<exists>b\<in>set acc. Kind b = BindingWS \<and> u32 (CMD b) = c \<and> CmdHandler b = Some h)"
    "httpHandlers (build r) hk = Some h \<longleftrightarrow> (\<exists>b\<in>set acc. Kind b = BindingHTTP \<and> route_of b = hk \<and> HTTPHandler b = Some h)"
    "grpcMethods (build r) = map entry_of (filter is_grpc acc)"
proof -
  note orders = inv [unfolded reg_inv_def]
  have u32_i32: "i32 (u32 x) = x" if "- 2147483648 \<le> x" "x < 2147483648" for x
  proof -
    have "u32 x = take_bit 32 x" by (simp add: u32_def take_bit_eq_mod)
    then have "i32 (u32 x) = i32 x" by (simp add: i32_def signed_take_bit_take_bit)
    then show ?thesis using i32_id [OF that] by simp
  qed
  have "cmdOrder r = map CMD (filter (\<lambda>b. Kind b = BindingCMD) acc)" using orders by simp
  from fold_stored [OF inv this, where e = "\<lambda>c. (empty_binding BindingCMD)\<lparr>CMD := c\<rparr>" and g = CmdHandler, OF key_normal(1)]
  show "cmdHandlers (build r) c = Some h \<longleftrightarrow> (\<exists>b\<in>set acc. Kind b = BindingCMD \<and> CMD b = c \<and> CmdHandler b = Some h)"
    by (simp add: build_def NewDispatcher_def)
  have "wsOrder r = map (\<lambda>b. u32 (CMD b)) (filter (\<lambda>b. Kind b = BindingWS) acc)" using orders by simp
  moreover have "key ((empty_binding BindingWS)\<lparr>CMD := i32 (u32 (CMD b))\<rparr>) = key b" if "b \<in> set acc" "Kind b = BindingWS" for b
    using range that(1) u32_i32 [of "CMD b"] key_normal(2) [OF that(2)] by simp
  ultimately have "foldl (\<lambda>m c. case stored r ((empty_binding BindingWS)\<lparr>CMD := i32 c\<rparr>) of None \<Rightarrow> m | Some b \<Rightarrow> m(c := CmdHandler b)) Map.empty (wsOrder r) c = Some h
     \<longleftrightarrow> (\<exists>b\<in>set acc. Kind b = BindingWS \<and> u32 (CMD b) = c \<and> CmdHandler b = Some h)"
    by (rule fold_stored [OF inv, where e = "\<lambda>c. (empty_binding BindingWS)\<lparr>CMD := i32 c\<rparr>" and g = CmdHandler])
  then
  show "wsHandlers (build r) c = Some h \<longleftrightarrow> (\<exists>b\<in>set acc. Kind b = BindingWS \<and> u32 (CMD b) = c \<and> CmdHandler b = Some h)"
    by (simp add: build_def NewDispatcher_def)
  have "httpOrder r = map route_of (filter (\<lambda>b. Kind b = BindingHTTP) acc)" using orders by simp
  from fold_stored [OF inv this, where e = "\<lambda>hk. (empty_binding BindingHTTP)\<lparr>HTTPMethod := fst hk, HTTPPath := snd hk\<rparr>" and g = HTTPHandler,
      OF key_normal_route [OF _ refl]]
  show "httpHandlers (build r) hk = Some h \<longleftrightarrow> (\<exists>b\<in>set acc. Kind b = BindingHTTP \<and> route_of b = hk \<and> HTTPHandler b = Some h)"
    by (simp add: build_def NewDispatcher_def)
  show "grpcMethods (build r) = map entry_of (filter is_grpc acc)" using orders by (simp add: build_def)
qed

text \<open>C37: Assembly. A batch of bindings is taken as a whole exactly when every binding is complete and no key
  repeats. \<open>Seal\<close> then gives, every time it is called, a dispatcher in which each transport finds exactly the handler
  of the accepted binding of its own kind and key, and whatever is registered with that dispatcher
  afterwards changes no lookup.\<close>

theorem sealed_routes:
  fixes batches :: "(string \<times> 'h Binding list) list"
  defines "acc \<equiv> assembled batches" and "r \<equiv> registered batches"
  assumes cmds: "\<forall>b\<in>set (assembled batches). - 2147483648 \<le> CMD b \<and> CMD b < 2147483648"
  shows "(\<forall>batch. fst (Register (fst batch) (snd batch) r) = RegOk \<longleftrightarrow> good_batch acc batch)
     \<and> (\<exists>d. fst (rSeal r) = Inr d \<and> fst (rSeal (snd (rSeal r))) = Inr d
         \<and> (\<forall>ops. let d' = foldl disp_exec d ops in
              (\<forall>c h. cmdHandlers d' c = Some h \<longleftrightarrow> (\<exists>b\<in>set acc. Kind b = BindingCMD \<and> CMD b = c \<and> CmdHandler b = Some h))
            \<and> (\<forall>c h. DispatchWS d' c = Some h \<longleftrightarrow> (\<exists>b\<in>set acc. Kind b = BindingWS \<and> u32 (CMD b) = c \<and> CmdHandler b = Some h))
            \<and> (\<forall>hk h. MountGin d' hk = Some h \<longleftrightarrow> (\<exists>b\<in>set acc. Kind b = BindingHTTP \<and> route_of b = hk \<and> HTTPHandler b = Some h))
            \<and> MountGRPC d' = map entry_of (filter is_grpc acc)))"
proof -
  have inv: "reg_inv acc r" unfolding acc_def r_def by (rule registered_inv)
  define d where "d = dSeal (build r)"
  have sealed: "\<not> rSealed r" using inv by (simp add: reg_inv_def)
  have d: "frozen d d" "cmdHandlers d = cmdHandlers (build r)" "httpRO d = httpHandlers (build r)" "wsRO d = wsHandlers (build r)"
    "grpcRO d = grpcMethods (build r)"
    by (simp_all add: d_def dSeal_def frozen_def build_def NewDispatcher_def)
  have "fst (rSeal r) = Inr d" "fst (rSeal (snd (rSeal r))) = Inr d" using sealed by (simp_all add: rSeal_def d_def Let_def)
  moreover have "let d' = foldl disp_exec d ops in
              (\<forall>c h. cmdHandlers d' c = Some h \<longleftrightarrow> (\<exists>b\<in>set acc. Kind b = BindingCMD \<and> CMD b = c \<and> CmdHandler b = Some h))
            \<and> (\<forall>c h. DispatchWS d' c = Some h \<longleftrightarrow> (\<exists>b\<in>set acc. Kind b = BindingWS \<and> u32 (CMD b) = c \<and> CmdHandler b = Some h))
            \<and> (\<forall>hk h. MountGin d' hk = Some h \<longleftrightarrow> (\<exists>b\<in>set acc. Kind b = BindingHTTP \<and> route_of b = hk \<and> HTTPHandler b = Some h))
            \<and> MountGRPC d' = map entry_of (filter is_grpc acc)" for ops
  proof -
    have "frozen d (foldl disp_exec d ops)" by (rule sealed.run_inv [OF d(1)])
    then have "cmdHandlers (foldl disp_exec d ops) = cmdHandlers (build r)" "DispatchWS (foldl disp_exec d ops) = wsHandlers (build r)"
      "MountGin (foldl disp_exec d ops) = httpHandlers (build r)" "MountGRPC (foldl disp_exec d ops) = grpcMethods (build r)"
      using d(2-5) by (simp_all add: frozen_def DispatchWS_def MountGin_def MountGRPC_def fun_eq_iff)
    then show ?thesis using build_tables [OF inv cmds [folded acc_def]] by (simp only: Let_def) blast
  qed
  moreover have "\<forall>batch. fst (Register (fst batch) (snd batch) r) = RegOk \<longleftrightarrow> good_batch acc batch"
    using Register_ok [OF inv] by simp
  ultimately show ?thesis by blast
qed

definition sample_batches :: "(string \<times> nat Binding list) list" where
  "sample_batches =
     [(''main'', [(empty_binding BindingCMD)\<lparr>CMD := 5, CmdHandler := Some 1\<rparr>,
                 (empty_binding BindingWS)\<lparr>CMD := 5, CmdHandler := Some 2\<rparr>,
                 (empty_binding BindingHTTP)\<lparr>HTTPMethod := '' get'', HTTPPath := ''/a '', HTTPHandler := Some 3\<rparr>]),
      (''again'', [(empty_binding BindingHTTP)\<lparr>HTTPPath := ''/b'', HTTPHandler := Some 4\<rparr>,
                  (empty_binding BindingHTTP)\<lparr>HTTPMethod := ''Get'', HTTPPath := ''/a'', HTTPHandler := Some 5\<rparr>])]"

lemma sample_batches_range: "\<forall>b\<in>set (assembled sample_batches). - 2147483648 \<le> CMD b \<and> CMD b < 2147483648"
  by code_simp

lemma sample_batches_http:
  "(\<exists>b\<in>set (assembled sample_batches). Kind b = BindingHTTP \<and> route_of b = (''GET'', ''/a'') \<and> HTTPHandler b = Some 3)
     \<and> \<not> (\<exists>b\<in>set (assembled sample_batches). Kind b = BindingHTTP \<and> route_of b = (''POST'', ''/b'') \<and> HTTPHandler b = Some 4)"
  by code_simp

theorem sealed_routes_witness:
  "\<exists>d. fst (rSeal (registered sample_batches)) = Inr d \<and> MountGin d (''GET'', ''/a'') = Some 3 \<and> MountGin d (''POST'', ''/b'') \<noteq> Some 4"
proof -
  from sealed_routes [OF sample_batches_range]
  obtain d where d: "fst (rSeal (registered sample_batches)) = Inr d"
    and all: "\<And>ops hk h. MountGin (foldl disp_exec d ops) hk = Some h
       \<longleftrightarrow> (\<exists>b\<in>set (assembled sample_batches). Kind b = BindingHTTP \<and> route_of b = hk \<and> HTTPHandler b = Some h)"
    by (auto simp: Let_def)
  show ?thesis using d all [of "[]"] sample_batches_http by (intro exI [of _ d]) simp
qed

end
