(* ===== verification/SsrpcServer.thy ===== *)
theory SsrpcServer
  imports Ssrpc Gateway
begin

text \<open>
  How a request runs through the RPC layer of src/lib/service/ssrpc: error codes (errors.go and
  lib/api/gerr), the request context (context.go, session.go), the middlewares (recover.go, logging.go,
  admission\_mw.go, trace.go, auth.go, uidlock.go, metrics.go, mcp.go, default\_mw.go), their chain
  (middleware.go) and the wrappers of the packet transports (server.go, ws.go).

  A handler goes from a request and the world to a result and the next world. The world holds the
  context of the request (a pointer in the code, so each middleware sees what the others wrote), what the
  process shares (the admission counters, the gauge of running requests), the stripes the request holds, and what went
  out. A stripe that another request holds is waited for; a call returns, panics, or is stuck because it locks a
  stripe it holds itself. Deferred calls run in the first two cases. The business method, the authenticator, the signature check and the trace provider are
  arguments.
\<close>

section \<open>Errors\<close>

datatype go_err =
    Plain string
  | Wrapped string go_err
  | Joined "go_err list"
  | SsError int string "go_err option"
  | GError int string string "go_err option"

text \<open>\<open>errors.As\<close> for the two error types: the first one met on the chain, the members of a join in order.\<close>

fun first_some :: "'a option list \<Rightarrow> 'a option" where
  "first_some [] = None"
| "first_some (None # xs) = first_some xs"
| "first_some (Some x # xs) = Some x"

fun as_ssrpc :: "go_err \<Rightarrow> int option" where
  "as_ssrpc (SsError c m e) = Some c"
| "as_ssrpc (GError c r m e) = (case e of None \<Rightarrow> None | Some x \<Rightarrow> as_ssrpc x)"
| "as_ssrpc (Wrapped s e) = as_ssrpc e"
| "as_ssrpc (Joined es) = first_some (map as_ssrpc es)"
| "as_ssrpc (Plain s) = None"

fun as_gerr :: "go_err \<Rightarrow> int option" where
  "as_gerr (GError c r m e) = Some c"
| "as_gerr (SsError c m e) = (case e of None \<Rightarrow> None | Some x \<Rightarrow> as_gerr x)"
| "as_gerr (Wrapped s e) = as_gerr e"
| "as_gerr (Joined es) = first_some (map as_gerr es)"
| "as_gerr (Plain s) = None"

text \<open>The codes of the protocol package that the layer names.\<close>

record proto_codes =
  ERR_OK :: int
  ERR_INTERNAL :: int
  ERR_MARSHAL :: int

definition gerr_Code :: "proto_codes \<Rightarrow> go_err option \<Rightarrow> int" where
  "gerr_Code k err = (case err of None \<Rightarrow> ERR_OK k
     | Some e \<Rightarrow> (case as_gerr e of Some c \<Rightarrow> if c \<noteq> 0 then c else ERR_INTERNAL k | None \<Rightarrow> ERR_INTERNAL k))"

definition ToErrorCode :: "proto_codes \<Rightarrow> go_err option \<Rightarrow> int" where
  "ToErrorCode k err = (case err of None \<Rightarrow> ERR_OK k
     | Some e \<Rightarrow> (case as_ssrpc e of Some c \<Rightarrow> if c \<noteq> 0 then c else gerr_Code k err | None \<Rightarrow> gerr_Code k err))"

text \<open>A message is a pointer, nil or to a struct with named fields. A pointer field to a struct carries the zero value
  of that struct, which \<open>reflect.New\<close> makes.\<close>

datatype field = Int32 int | PtrStruct "(string \<times> field) list option" "(string \<times> field) list" | OtherField string

type_synonym message = "(string \<times> field) list option"

fun setInt32Field :: "string \<Rightarrow> int \<Rightarrow> (string \<times> field) list \<Rightarrow> (string \<times> field) list option" where
  "setInt32Field name v [] = None"
| "setInt32Field name v ((n, f) # fs) =
     (if n = name then (case f of Int32 _ \<Rightarrow> Some ((n, Int32 v) # fs) | _ \<Rightarrow> None)
      else map_option (\<lambda>r. (n, f) # r) (setInt32Field name v fs))"

fun set_ret :: "int \<Rightarrow> (string \<times> field) list \<Rightarrow> (string \<times> field) list \<times> bool" where
  "set_ret v [] = ([], False)"
| "set_ret v ((n, f) # fs) =
     (if n = ''Ret'' then
        (case f of PtrStruct p z \<Rightarrow>
           (let inner = (case p of Some inner \<Rightarrow> inner | None \<Rightarrow> z)
            in case setInt32Field ''Code'' v inner of
                 Some inner' \<Rightarrow> ((n, PtrStruct (Some inner') z) # fs, True)
               | None \<Rightarrow> ((n, PtrStruct (Some inner) z) # fs, False))
         | _ \<Rightarrow> ((n, f) # fs, False))
      else case set_ret v fs of (fs', done) \<Rightarrow> ((n, f) # fs', done))"

definition ApplyErrCode :: "int \<Rightarrow> message \<Rightarrow> message" where
  "ApplyErrCode v rsp = (case rsp of None \<Rightarrow> None
     | Some fs \<Rightarrow>
         (case set_ret v fs of
            (fs1, True) \<Rightarrow> Some fs1
          | (fs1, False) \<Rightarrow>
              (case setInt32Field ''ErrorCode'' v fs1 of
                 Some fs2 \<Rightarrow> Some fs2
               | None \<Rightarrow> (case setInt32Field ''Code'' v fs1 of Some fs2 \<Rightarrow> Some fs2 | None \<Rightarrow> Some fs1))))"

section \<open>The context and the world\<close>

record IContext =
  iUid :: "64 word"
  iZone :: "32 word"
  iRid :: "64 word"
  iOriSrcBusId :: "32 word"
  iIp :: "32 word"
  iFlag :: "32 word"
  iTransID :: "32 word option"
  iTransport :: string
  iCanSetUID :: bool
  iDeadline :: "int option"

record Session =
  sTransport :: string
  sCmd :: int
  sMethod :: string
  sUID :: "64 word"
  sZone :: "32 word"
  sRID :: "64 word"
  SrcBusID :: "32 word"
  PeerIP :: "32 word"
  PeerFlag :: "32 word"
  TransID :: "32 word"

text \<open>A capability provider is a provider of the business or a guard around another one.\<close>

datatype MCP = InnerMCP nat | guardedMCP nat "MCP option"

record UIDLocker =
  lockerId :: nat
  stripes :: nat

record Context =
  IC :: IContext
  Transport :: string
  Cmd :: int
  Session :: Session
  cMCP :: "MCP option"
  Method :: string
  AuthRequired :: bool
  SignRequired :: bool
  TraceTags :: "(string \<rightharpoonup> string) option"
  cUIDLocker :: "UIDLocker option"
  deadline :: "int option"
  cancel :: bool

datatype severity = Warningf | Infof | Debugf

record 'a world =
  ctx :: Context
  held :: "(nat \<times> nat) set"
  adm :: AdmissionController
  rejects :: int
  rejectLogLastSec :: "string \<Rightarrow> int"
  gauge :: int
  observed :: "(int \<times> int \<times> int) list"
  logs :: "severity list"
  now :: int
  sent :: "(int option \<times> message) list"
  app :: 'a

datatype 'r res = Ok 'r | Panicked string | Stuck

type_synonym reply = "message option \<times> go_err option"
type_synonym 'a Handler = "message \<Rightarrow> 'a world \<Rightarrow> reply res \<times> 'a world"
type_synonym 'a Middleware = "'a Handler \<Rightarrow> 'a Handler"

abbreviation set_ctx :: "(Context \<Rightarrow> Context) \<Rightarrow> 'a world \<Rightarrow> 'a world" where
  "set_ctx f w \<equiv> w\<lparr>ctx := f (ctx w)\<rparr>"

definition buildSession :: "IContext \<Rightarrow> string \<Rightarrow> int \<Rightarrow> Session" where
  "buildSession ic transport c =
     \<lparr>sTransport = transport, sCmd = c, sMethod = [], sUID = iUid ic, sZone = iZone ic, sRID = iRid ic,
      SrcBusID = iOriSrcBusId ic, PeerIP = iIp ic, PeerFlag = iFlag ic,
      TransID = (case iTransID ic of Some t \<Rightarrow> t | None \<Rightarrow> 0)\<rparr>"

definition WrapIContext :: "IContext \<Rightarrow> int \<Rightarrow> Context" where
  "WrapIContext ic c =
     \<lparr>IC = ic, Transport = ''sspack'', Cmd = c, Session = buildSession ic ''sspack'' c, cMCP = None, Method = [],
      AuthRequired = False, SignRequired = False, TraceTags = None, cUIDLocker = None, deadline = iDeadline ic, cancel = False\<rparr>"

definition SetTransport :: "string \<Rightarrow> Context \<Rightarrow> Context" where
  "SetTransport t c = c\<lparr>Transport := t, Session := (Session c)\<lparr>sTransport := t\<rparr>\<rparr>"

definition SetCmd :: "int \<Rightarrow> Context \<Rightarrow> Context" where
  "SetCmd x c = c\<lparr>Cmd := x, Session := (Session c)\<lparr>sCmd := x\<rparr>\<rparr>"

definition SetMethod :: "string \<Rightarrow> Context \<Rightarrow> Context" where
  "SetMethod m c = c\<lparr>Method := m, Session := (Session c)\<lparr>sMethod := m\<rparr>\<rparr>"

text \<open>Only the contexts of HTTP and gRPC have a method to set the uid.\<close>

definition SetUID :: "64 word \<Rightarrow> Context \<Rightarrow> Context" where
  "SetUID u c = (if iCanSetUID (IC c) then c\<lparr>IC := (IC c)\<lparr>iUid := u\<rparr>\<rparr> else c)"

definition ApplyTimeout :: "int \<Rightarrow> int \<Rightarrow> Context \<Rightarrow> Context" where
  "ApplyTimeout t timeout c =
     (if timeout \<le> 0 then c
      else c\<lparr>deadline := Some (case deadline c of None \<Rightarrow> t + timeout | Some d \<Rightarrow> min d (t + timeout)), cancel := True\<rparr>)"

definition ctx_Close :: "Context \<Rightarrow> Context" where
  "ctx_Close c = c\<lparr>cancel := False\<rparr>"

section \<open>Middlewares\<close>

definition Recover :: "proto_codes \<Rightarrow> 'a Middleware" where
  "Recover k nxt req w = (case nxt req w of
       (Panicked p, w1) \<Rightarrow> (Ok (None, Some (SsError (ERR_INTERNAL k) ''panic recovered'' (Some (Plain p)))), w1)
     | r \<Rightarrow> r)"

text \<open>The text of a log line depends on the transaction id, what is returned does not.\<close>

definition LoggingWithOptions :: "int \<Rightarrow> 'a Middleware" where
  "LoggingWithOptions slow nxt req w =
     (let threshold = (if slow \<le> 0 then 50000000 else slow); start = now w
      in case nxt req w of
           (Ok (rsp, err), w1) \<Rightarrow>
             (let cost = now w1 - start
              in case err of
                   Some e \<Rightarrow> (Ok (None, err), w1\<lparr>logs := logs w1 @ [Warningf]\<rparr>)
                 | None \<Rightarrow>
                     if cost \<ge> threshold then (Ok (rsp, None), w1\<lparr>logs := logs w1 @ [Infof]\<rparr>)
                     else (Ok (rsp, None), w1\<lparr>logs := logs w1 @ [Debugf]\<rparr>))
         | r \<Rightarrow> r)"

definition Logging :: "'a Middleware" where "Logging = LoggingWithOptions 0"

definition logRejectSample :: "string \<Rightarrow> 'a world \<Rightarrow> 'a world" where
  "logRejectSample m w =
     (let t = now w div 1000000000
      in if t - rejectLogLastSec w m \<ge> 1
         then w\<lparr>rejectLogLastSec := (rejectLogLastSec w)(m := t), logs := logs w @ [Warningf]\<rparr> else w)"

definition AdmissionMiddleware :: "bool \<Rightarrow> int \<Rightarrow> (string \<rightharpoonup> int) \<Rightarrow> 'a Middleware" where
  "AdmissionMiddleware limiter maxInflight maxPerMethod nxt req w =
     (if \<not> limiter then nxt req w
      else let m = Method (ctx w);
               methodLimit = (case maxPerMethod m of Some n \<Rightarrow> if n > 0 then n else 0 | None \<Rightarrow> 0)
           in if maxInflight > 0 \<or> methodLimit > 0 then
                (case TryAcquireInflight m maxInflight methodLimit (adm w) of
                   (a, False) \<Rightarrow>
                     (Ok (None, Some (Plain ''ssrpc: request rejected by admission control (overloaded)'')),
                      logRejectSample m (w\<lparr>adm := a, rejects := rejects w + 1\<rparr>))
                 | (a, True) \<Rightarrow>
                     (case nxt req (w\<lparr>adm := a\<rparr>) of
                        (Stuck, w1) \<Rightarrow> (Stuck, w1)
                      | (r, w1) \<Rightarrow> (r, w1\<lparr>adm := ReleaseInflight (Method (ctx w)) (adm w1)\<rparr>)))
              else nxt req w)"

text \<open>A trace provider gets the tags and may return a function to be called at the end.\<close>

type_synonym 'a TraceProvider = "(string \<rightharpoonup> string) \<Rightarrow> 'a world \<Rightarrow> (go_err option \<Rightarrow> 'a world \<Rightarrow> 'a world) option \<times> 'a world"

definition buildTraceTags :: "Context \<Rightarrow> string \<rightharpoonup> string" where
  "buildTraceTags c =
     (let s = Session c;
          tags = [''cmd'' \<mapsto> Itoa (nat (u64 (Cmd c))), ''method'' \<mapsto> Method c, ''transport'' \<mapsto> sTransport s];
          tags = (if sUID s \<noteq> 0 then tags(''uid'' \<mapsto> Itoa (unat (sUID s))) else tags);
          tags = (if sZone s \<noteq> 0 then tags(''zone'' \<mapsto> Itoa (unat (sZone s))) else tags);
          tags = (if sRID s \<noteq> 0 then tags(''rid'' \<mapsto> Itoa (unat (sRID s))) else tags);
          tags = (if TransID s \<noteq> 0 then tags(''trans_id'' \<mapsto> Itoa (unat (TransID s))) else tags)
      in case TraceTags c of None \<Rightarrow> tags | Some extra \<Rightarrow> tags ++ extra)"

definition StartTrace :: "'a TraceProvider option \<Rightarrow> 'a TraceProvider option \<Rightarrow> (string \<rightharpoonup> string) \<Rightarrow> 'a world
    \<Rightarrow> (go_err option \<Rightarrow> 'a world \<Rightarrow> 'a world) option \<times> 'a world" where
  "StartTrace global tp extra w =
     (case (case tp of Some p \<Rightarrow> Some p | None \<Rightarrow> global) of
        None \<Rightarrow> (None, w)
      | Some p \<Rightarrow> p (buildTraceTags (ctx w) ++ extra) w)"

definition TraceWith :: "'a TraceProvider option \<Rightarrow> 'a TraceProvider option \<Rightarrow> 'a Middleware" where
  "TraceWith global tp nxt req w =
     (case StartTrace global tp [''span.name'' \<mapsto> Method (ctx w), ''span.kind'' \<mapsto> ''internal'', ''span.phase'' \<mapsto> ''handler''] w of
        (finish, w1) \<Rightarrow>
          (case nxt req w1 of
             (Ok (rsp, err), w2) \<Rightarrow> (Ok (rsp, err), case finish of Some f \<Rightarrow> f err w2 | None \<Rightarrow> w2)
           | r \<Rightarrow> r))"

type_synonym 'a Check = "message \<Rightarrow> 'a world \<Rightarrow> go_err option res \<times> 'a world"

text \<open>\<open>AuthWith\<close> and \<open>SignWith\<close> are one text with another flag and another message.\<close>

definition checked :: "proto_codes \<Rightarrow> string \<Rightarrow> (Context \<Rightarrow> bool) \<Rightarrow> 'a Check option \<Rightarrow> 'a Middleware" where
  "checked k msg required c nxt req w =
     (if \<not> required (ctx w) then nxt req w
      else case c of
             None \<Rightarrow> (Ok (None, Some (SsError (ERR_INTERNAL k) msg None)), w)
           | Some f \<Rightarrow>
               (case f req w of
                  (Ok None, w1) \<Rightarrow> nxt req w1
                | (Ok (Some e), w1) \<Rightarrow> (Ok (None, Some e), w1)
                | (Panicked p, w1) \<Rightarrow> (Panicked p, w1)
                | (Stuck, w1) \<Rightarrow> (Stuck, w1)))"

definition AuthWith :: "proto_codes \<Rightarrow> 'a Check option \<Rightarrow> 'a Middleware" where
  "AuthWith k = checked k ''authenticator not configured'' AuthRequired"

definition SignWith :: "proto_codes \<Rightarrow> 'a Check option \<Rightarrow> 'a Middleware" where
  "SignWith k = checked k ''sign verifier not configured'' SignRequired"

text \<open>FNV-1a over the eight bytes of the uid, the least significant first.\<close>

definition hash64 :: "64 word \<Rightarrow> 64 word" where
  "hash64 v = foldl (\<lambda>h i. xor h (and (drop_bit (8 * i) v) 255) * 1099511628211) 14695981039346656037 [0..<8]"

definition NewStripedUIDLocker :: "nat \<Rightarrow> int \<Rightarrow> UIDLocker" where
  "NewStripedUIDLocker i n = \<lparr>lockerId = i, stripes = (if n \<le> 0 then 1024 else nat n)\<rparr>"

definition stripe :: "UIDLocker \<Rightarrow> 64 word \<Rightarrow> nat \<times> nat" where
  "stripe l u = (lockerId l, unat (hash64 u) mod stripes l)"

definition UIDLockAttach :: "UIDLocker option \<Rightarrow> 'a Middleware" where
  "UIDLockAttach l nxt req w = nxt req (set_ctx (\<lambda>c. c\<lparr>cUIDLocker := l\<rparr>) w)"

text \<open>A mutex that is taken is not taken again, not even by its holder. The process-wide locker
  \<open>defaultUIDLocker\<close> is the first argument; it is never nil.\<close>

definition with_stripe :: "nat \<times> nat \<Rightarrow> 'a Middleware" where
  "with_stripe s nxt req w =
     (if s \<in> held w then (Stuck, w)
      else case nxt req (w\<lparr>held := insert s (held w)\<rparr>) of
             (Stuck, w1) \<Rightarrow> (Stuck, w1)
           | (r, w1) \<Rightarrow> (r, w1\<lparr>held := held w1 - {s}\<rparr>))"

definition the_locker :: "UIDLocker \<Rightarrow> Context \<Rightarrow> UIDLocker" where
  "the_locker deflt c = (case cUIDLocker c of Some l \<Rightarrow> l | None \<Rightarrow> deflt)"

definition UIDLock :: "UIDLocker \<Rightarrow> 'a Middleware" where
  "UIDLock deflt nxt req w =
     (let u = iUid (IC (ctx w))
      in if u = 0 then nxt req w else with_stripe (stripe (the_locker deflt (ctx w)) u) nxt req w)"

text \<open>The built-in recorder; a recorder without the optional methods only observes.\<close>

datatype MetricsRecorder = promMetricsRecorder | PlainRecorder

definition Metrics :: "proto_codes \<Rightarrow> MetricsRecorder option \<Rightarrow> 'a Middleware" where
  "Metrics k rec nxt req w =
     (case rec of
        None \<Rightarrow> nxt req w
      | Some r \<Rightarrow>
          (let w0 = (if r = promMetricsRecorder then w\<lparr>gauge := gauge w + 1\<rparr> else w);
               finish = (\<lambda>w. if r = promMetricsRecorder then w\<lparr>gauge := gauge w - 1\<rparr> else w);
               start = now w0
           in case nxt req w0 of
                (Ok (rsp, err), w1) \<Rightarrow>
                  (Ok (rsp, err), finish (w1\<lparr>observed := observed w1 @ [(Cmd (ctx w1), now w1 - start, ToErrorCode k err)]\<rparr>))
              | (Panicked p, w1) \<Rightarrow> (Panicked p, finish w1)
              | (Stuck, w1) \<Rightarrow> (Stuck, w1)))"

definition MCPAttach :: "MCP option \<Rightarrow> 'a Middleware" where
  "MCPAttach m nxt req w = nxt req (set_ctx (\<lambda>c. c\<lparr>cMCP := m\<rparr>) w)"

definition MCPGuardWith :: "nat option \<Rightarrow> 'a Middleware" where
  "MCPGuardWith guard nxt req w =
     (case (cMCP (ctx w), guard) of
        (Some m, Some g) \<Rightarrow> nxt req (set_ctx (\<lambda>c. c\<lparr>cMCP := Some (guardedMCP g (Some m))\<rparr>) w)
      | _ \<Rightarrow> nxt req w)"

text \<open>A guarded provider asks its guard first; \<open>ask\<close> is what a guard answers, \<open>call\<close> what a provider does.\<close>

fun CallTool :: "(nat \<Rightarrow> string \<Rightarrow> 'i \<Rightarrow> go_err option) \<Rightarrow> (nat \<Rightarrow> string \<Rightarrow> 'i \<Rightarrow> go_err + 'o) \<Rightarrow> MCP \<Rightarrow> string \<Rightarrow> 'i \<Rightarrow> go_err + 'o" where
  "CallTool ask call (InnerMCP n) tool i = call n tool i"
| "CallTool ask call (guardedMCP g None) tool i = Inl (Plain ''mcp not configured'')"
| "CallTool ask call (guardedMCP g (Some m)) tool i =
     (case ask g tool i of Some e \<Rightarrow> Inl e | None \<Rightarrow> CallTool ask call m tool i)"

section \<open>The chain\<close>

text \<open>The loop wraps from the last middleware to the first.\<close>

definition Chain :: "'a Middleware list \<Rightarrow> 'a Middleware" where
  "Chain mws nxt = foldr (\<lambda>mw nxt. mw nxt) mws nxt"

record 'a DefaultMWOptions =
  oTrace :: "'a TraceProvider option"
  oAuth :: "'a Check option"
  oSign :: "'a Check option"
  oUIDLocker :: "UIDLocker option"
  oMetrics :: "MetricsRecorder option"
  oMCP :: "MCP option"
  oMCPGuard :: "nat option"
  oExtra :: "'a Middleware list"
  oInflightLimiter :: bool
  oMaxInflight :: int
  oMaxInflightPerMethod :: "string \<rightharpoonup> int"

definition DefaultMiddlewares :: "proto_codes \<Rightarrow> 'a TraceProvider option \<Rightarrow> 'a DefaultMWOptions \<Rightarrow> 'a Middleware list" where
  "DefaultMiddlewares k global opts =
     [Recover k, Logging]
     @ (if oInflightLimiter opts \<and> oMaxInflight opts > 0
        then [AdmissionMiddleware True (oMaxInflight opts) (oMaxInflightPerMethod opts)] else [])
     @ [TraceWith global (oTrace opts), AuthWith k (oAuth opts), SignWith k (oSign opts), UIDLockAttach (oUIDLocker opts),
        Metrics k (Some (case oMetrics opts of Some r \<Rightarrow> r | None \<Rightarrow> promMetricsRecorder))]
     @ (case oMCP opts of Some m \<Rightarrow> [MCPAttach (Some m), MCPGuardWith (oMCPGuard opts)] | None \<Rightarrow> [])
     @ oExtra opts"

section \<open>The wrappers of the packet transports\<close>

record MethodDesc =
  dCmd :: int
  CmdResp :: int
  OneWay :: bool
  dUIDLock :: bool
  dAuth :: bool
  dSign :: bool
  Timeout :: int
  dTraceTags :: "(string \<rightharpoonup> string) option"
  Name :: string

definition prepareMW :: "UIDLocker \<Rightarrow> 'a Middleware list \<Rightarrow> bool \<Rightarrow> 'a Middleware list" where
  "prepareMW deflt mws uidLock = (if \<not> uidLock then mws else mws @ [UIDLock deflt])"

definition applyDesc :: "MethodDesc \<Rightarrow> Context \<Rightarrow> Context" where
  "applyDesc desc c = (SetMethod (Name desc) (SetCmd (dCmd desc) c))
     \<lparr>AuthRequired := dAuth desc, SignRequired := dSign desc, TraceTags := dTraceTags desc\<rparr>"

definition effectiveMethodTimeout :: "int \<Rightarrow> int" where
  "effectiveMethodTimeout timeout = (if timeout > 0 then timeout else 5000000000)"

text \<open>What a method returns is any value: nil, a message, or something that is no message.\<close>

datatype any_value = Msg message | NoMessage

type_synonym 'a Invoke = "message \<Rightarrow> 'a world \<Rightarrow> (any_value option \<times> go_err option) res \<times> 'a world"

definition invoke_handler :: "proto_codes \<Rightarrow> 'a Invoke \<Rightarrow> 'a Handler" where
  "invoke_handler k invoke req w = (case invoke req w of
       (Ok (None, err), w1) \<Rightarrow> (Ok (None, err), w1)
     | (Ok (Some (Msg m), err), w1) \<Rightarrow> (Ok (Some m, err), w1)
     | (Ok (Some NoMessage, err), w1) \<Rightarrow> (Ok (None, Some (SsError (ERR_INTERNAL k) ''ssrpc invalid rsp type'' None)), w1)
     | (Panicked p, w1) \<Rightarrow> (Panicked p, w1)
     | (Stuck, w1) \<Rightarrow> (Stuck, w1))"

definition buildHandler :: "proto_codes \<Rightarrow> 'a Middleware list \<Rightarrow> 'a Invoke \<Rightarrow> 'a Handler" where
  "buildHandler k mws invoke =
     (if mws \<noteq> [] then Chain mws (invoke_handler k invoke) else invoke_handler k invoke)"

text \<open>The function asks its argument for a method of its own name. What it gets is the \<open>*Context\<close>, which has
  the methods of the embedded interface \<open>IContext\<close> and of \<open>context.Context\<close>, and none of that name. \<^const>\<open>None\<close> in
  \<open>sent\<close> stands for the reply command of the packet, its command plus one.\<close>

definition SendMsgBackWithCmd :: "bool \<Rightarrow> int \<Rightarrow> message option \<Rightarrow> 'a world \<Rightarrow> 'a world" where
  "SendMsgBackWithCmd has_method c rsp w = (case rsp of None \<Rightarrow> w
     | Some m \<Rightarrow> w\<lparr>sent := sent w @ [(if has_method then Some c else None, m)]\<rparr>)"

definition context_has_method :: bool where "context_has_method = False"

definition reply :: "MethodDesc \<Rightarrow> message option \<Rightarrow> 'a world \<Rightarrow> 'a world" where
  "reply desc rsp w =
     (let cmdResp = (if CmdResp desc = 0 then i32 (u32 (u32 (dCmd desc) + 1)) else CmdResp desc)
      in SendMsgBackWithCmd context_has_method cmdResp rsp w)"

definition enter :: "MethodDesc \<Rightarrow> string \<Rightarrow> IContext \<Rightarrow> 'a world \<Rightarrow> 'a world" where
  "enter desc transport ic w =
     w\<lparr>ctx := ApplyTimeout (now w) (effectiveMethodTimeout (Timeout desc))
               (applyDesc desc (SetTransport transport (WrapIContext ic (dCmd desc))))\<rparr>"

definition WrapUnary :: "proto_codes \<Rightarrow> UIDLocker \<Rightarrow> MethodDesc \<Rightarrow> 'a Middleware list \<Rightarrow> any_value option \<Rightarrow> ('d \<Rightarrow> message \<Rightarrow> message option)
    \<Rightarrow> 'a Invoke \<Rightarrow> IContext option \<Rightarrow> 'd \<Rightarrow> 'a world \<Rightarrow> int res \<times> 'a world" where
  "WrapUnary k deflt desc mws newReq ParseMsg invoke c data w =
     (let h = buildHandler k (prepareMW deflt mws (dUIDLock desc)) invoke
      in case c of
           None \<Rightarrow> (Ok (ERR_INTERNAL k), w)
         | Some ic \<Rightarrow>
             (let w0 = enter desc ''sspack'' ic w; leave = set_ctx ctx_Close
              in case newReq of
                   Some (Msg req0) \<Rightarrow>
                     (case ParseMsg data req0 of
                        None \<Rightarrow> (Ok (ERR_MARSHAL k), leave (w0\<lparr>logs := logs w0 @ [Warningf]\<rparr>))
                      | Some req \<Rightarrow>
                          (case h req w0 of
                             (Ok (rsp, Some e), w1) \<Rightarrow>
                               (let code = ToErrorCode k (Some e);
                                    w2 = (case rsp of
                                            Some m \<Rightarrow> if \<not> OneWay desc then reply desc (Some (ApplyErrCode code m)) w1 else w1
                                          | None \<Rightarrow> w1)
                                in (Ok code, leave w2))
                           | (Ok (rsp, None), w1) \<Rightarrow>
                               if OneWay desc then (Ok (ERR_OK k), leave w1)
                               else (Ok (ERR_OK k), leave (reply desc rsp w1))
                           | (Panicked p, w1) \<Rightarrow> (Panicked p, leave w1)
                           | (Stuck, w1) \<Rightarrow> (Stuck, w1)))
                 | _ \<Rightarrow> (Ok (ERR_INTERNAL k), leave (w0\<lparr>logs := logs w0 @ [Warningf]\<rparr>))))"

definition transportForClientPacket :: "IContext \<Rightarrow> string" where
  "transportForClientPacket ic = (if iTransport ic \<noteq> [] then iTransport ic else ''ws'')"

definition WrapWS :: "proto_codes \<Rightarrow> UIDLocker \<Rightarrow> MethodDesc \<Rightarrow> 'a Middleware list \<Rightarrow> any_value option \<Rightarrow> ('d \<Rightarrow> message \<Rightarrow> message option)
    \<Rightarrow> 'a Invoke \<Rightarrow> IContext option \<Rightarrow> 'd \<Rightarrow> 'a world \<Rightarrow> int res \<times> 'a world" where
  "WrapWS k deflt desc mws newReq ParseMsg invoke c data w =
     (let h = buildHandler k (prepareMW deflt mws (dUIDLock desc)) invoke
      in case c of
           None \<Rightarrow> (Ok (ERR_INTERNAL k), w)
         | Some ic \<Rightarrow>
             (let w0 = enter desc (transportForClientPacket ic) ic w; leave = set_ctx ctx_Close
              in case newReq of
                   Some (Msg req0) \<Rightarrow>
                     (case ParseMsg data req0 of
                        None \<Rightarrow> (Ok (ERR_MARSHAL k), leave (w0\<lparr>logs := logs w0 @ [Warningf]\<rparr>))
                      | Some req \<Rightarrow>
                          (case h req w0 of
                             (Ok (rsp, Some e), w1) \<Rightarrow> (Ok (ToErrorCode k (Some e)), leave w1)
                           | (Ok (rsp, None), w1) \<Rightarrow>
                               if OneWay desc then (Ok (ERR_OK k), leave w1)
                               else (Ok (ERR_OK k), leave (reply desc rsp w1))
                           | (Panicked p, w1) \<Rightarrow> (Panicked p, leave w1)
                           | (Stuck, w1) \<Rightarrow> (Stuck, w1)))
                 | _ \<Rightarrow> (Ok (ERR_INTERNAL k), leave (w0\<lparr>logs := logs w0 @ [Warningf]\<rparr>))))"

section \<open>Contracts of middlewares\<close>

text \<open>A property of handlers that a middleware passes on from the handler it wraps; a chain of such
  middlewares passes it on as well.\<close>

locale middleware_contract =
  fixes good :: "'a Handler \<Rightarrow> bool"
    and mw :: "'a Middleware"
  assumes passes: "good h \<Longrightarrow> good (mw h)"

lemma Chain_contract: "\<forall>mw\<in>set mws. middleware_contract good mw \<Longrightarrow> good h \<Longrightarrow> good (Chain mws h)"
  unfolding Chain_def by (induction mws) (simp_all add: middleware_contract_def)

lemma contract_default:
  assumes "middleware_contract good (Recover k)" "middleware_contract good Logging"
    "middleware_contract good (AdmissionMiddleware True (oMaxInflight opts) (oMaxInflightPerMethod opts))"
    "middleware_contract good (TraceWith global (oTrace opts))" "middleware_contract good (AuthWith k (oAuth opts))"
    "middleware_contract good (SignWith k (oSign opts))" "\<And>l. middleware_contract good (UIDLockAttach l)"
    "\<And>r. middleware_contract good (Metrics k r)" "\<And>m. middleware_contract good (MCPAttach m)"
    "\<And>g. middleware_contract good (MCPGuardWith g)" "\<forall>mw\<in>set (oExtra opts). middleware_contract good mw"
  shows "\<forall>mw\<in>set (DefaultMiddlewares k global opts). middleware_contract good mw"
  using assms by (auto simp: DefaultMiddlewares_def split: option.splits if_splits)

section \<open>Answers\<close>

definition silent :: "'a Handler \<Rightarrow> bool" where
  "silent h \<longleftrightarrow> (\<forall>req w. sent (snd (h req w)) = sent w)"

definition silent_check :: "'a Check option \<Rightarrow> bool" where
  "silent_check c \<longleftrightarrow> (\<forall>f req w. c = Some f \<longrightarrow> sent (snd (f req w)) = sent w)"

definition silent_provider :: "'a TraceProvider option \<Rightarrow> bool" where
  "silent_provider p \<longleftrightarrow> (\<forall>f tags w. p = Some f \<longrightarrow> sent (snd (f tags w)) = sent w
     \<and> (\<forall>fin err w'. fst (f tags w) = Some fin \<longrightarrow> sent (fin err w') = sent w'))"

lemma silentD: "silent h \<Longrightarrow> h req w = (r, w') \<Longrightarrow> sent w' = sent w"
  unfolding silent_def by (metis snd_conv)

lemma silentI: "(\<And>req w r w'. h req w = (r, w') \<Longrightarrow> sent w' = sent w) \<Longrightarrow> silent h"
  unfolding silent_def by (metis prod.collapse)

interpretation silent_Recover: middleware_contract silent "Recover k :: 'a Middleware" for k
  by unfold_locales (auto simp: Recover_def intro!: silentI dest: silentD split: prod.splits res.splits)

interpretation silent_Logging: middleware_contract silent "Logging :: 'a Middleware"
  by unfold_locales
    (auto simp: Logging_def LoggingWithOptions_def Let_def intro!: silentI dest: silentD split: prod.splits res.splits option.splits if_splits)

lemma logRejectSample_sent [simp]: "sent (logRejectSample m w) = sent w"
  by (simp add: logRejectSample_def Let_def)

interpretation silent_Admission: middleware_contract silent "AdmissionMiddleware lim n per :: 'a Middleware" for lim n per
proof unfold_locales
  fix h :: "'a Handler" assume h: "silent h"
  show "silent (AdmissionMiddleware lim n per h)"
    by (rule silentI) (auto simp: AdmissionMiddleware_def Let_def dest!: silentD [OF h] split: prod.splits bool.splits res.splits if_splits)
qed

interpretation silent_Metrics: middleware_contract silent "Metrics k r :: 'a Middleware" for k r
proof unfold_locales
  fix h :: "'a Handler" assume h: "silent h"
  show "silent (Metrics k r h)"
    by (rule silentI) (auto simp: Metrics_def Let_def dest!: silentD [OF h] split: prod.splits option.splits res.splits if_splits)
qed

interpretation silent_Attach: middleware_contract silent "UIDLockAttach l :: 'a Middleware" for l
  by unfold_locales (simp add: silent_def UIDLockAttach_def)

interpretation silent_MCPAttach: middleware_contract silent "MCPAttach m :: 'a Middleware" for m
  by unfold_locales (simp add: silent_def MCPAttach_def)

interpretation silent_MCPGuard: middleware_contract silent "MCPGuardWith g :: 'a Middleware" for g
  by unfold_locales (simp add: silent_def MCPGuardWith_def split: option.splits)

interpretation silent_UIDLock: middleware_contract silent "UIDLock d :: 'a Middleware" for d
proof unfold_locales
  fix h :: "'a Handler" assume h: "silent h"
  show "silent (UIDLock d h)"
    by (rule silentI) (auto simp: UIDLock_def with_stripe_def Let_def dest!: silentD [OF h] split: prod.splits res.splits if_splits)
qed

lemma silent_checked: "silent_check c \<Longrightarrow> middleware_contract silent (checked k msg p c)"
proof unfold_locales
  fix h :: "'a Handler" assume c: "silent_check c" and h: "silent h"
  show "silent (checked k msg p c h)"
  proof (rule silentI)
    fix req w r w' assume e: "checked k msg p c h req w = (r, w')"
    show "sent w' = sent w"
    proof (cases "p (ctx w) \<and> c \<noteq> None")
      case True
      then obtain f where f: "c = Some f" by blast
      obtain r1 w1 where r1: "f req w = (r1, w1)" by fastforce
      then have "sent w1 = sent w" using c f unfolding silent_check_def by (metis snd_conv)
      then show ?thesis using e True f r1 silentD [OF h] by (auto simp: checked_def split: res.splits option.splits)
    next
      case False
      then show ?thesis using e silentD [OF h] by (auto simp: checked_def split: if_splits)
    qed
  qed
qed

lemma silent_trace:
  assumes "silent_provider p" "silent_provider g"
  shows "middleware_contract silent (TraceWith g p)"
proof unfold_locales
  fix h :: "'a Handler" assume h: "silent h"
  show "silent (TraceWith g p h)"
  proof (rule silentI)
    fix req w r w' assume e: "TraceWith g p h req w = (r, w')"
    let ?tags = "[''span.name'' \<mapsto> Method (ctx w), ''span.kind'' \<mapsto> ''internal'', ''span.phase'' \<mapsto> ''handler'']"
    obtain finish w1 where st: "StartTrace g p ?tags w = (finish, w1)" by fastforce
    have one: "sent w1 = sent w \<and> (\<forall>f err u. finish = Some f \<longrightarrow> sent (f err u) = sent u)"
    proof (cases "p = None \<and> g = None")
      case True
      then show ?thesis using st by (simp add: StartTrace_def)
    next
      case False
      then obtain f where f: "(case p of Some x \<Rightarrow> Some x | None \<Rightarrow> g) = Some f" "p = Some f \<or> g = Some f" by (cases p) auto
      then have r: "f (buildTraceTags (ctx w) ++ ?tags) w = (finish, w1)" using st by (simp add: StartTrace_def)
      have "silent_provider (Some f)" using f(2) assms by auto
      then have "sent (snd (f t u)) = sent u" "fst (f t u) = Some fin \<Longrightarrow> sent (fin err v) = sent v" for t u fin err v
        by (auto simp: silent_provider_def)
      from this [of "buildTraceTags (ctx w) ++ ?tags" w] r show ?thesis by simp
    qed
    obtain r2 w2 where r2: "h req w1 = (r2, w2)" by fastforce
    have "sent w2 = sent w" using silentD [OF h r2] one by simp
    then show "sent w' = sent w" using e st r2 one by (auto simp: TraceWith_def split: res.splits prod.splits option.splits)
  qed
qed

definition silent_options :: "'a TraceProvider option \<Rightarrow> 'a DefaultMWOptions \<Rightarrow> bool" where
  "silent_options global opts \<longleftrightarrow> silent_provider (oTrace opts) \<and> silent_provider global \<and> silent_check (oAuth opts)
     \<and> silent_check (oSign opts) \<and> (\<forall>mw\<in>set (oExtra opts). middleware_contract silent mw)"

lemma silent_default: "silent_options global opts \<Longrightarrow> \<forall>mw\<in>set (DefaultMiddlewares k global opts). middleware_contract silent mw"
  unfolding silent_options_def
  by (intro contract_default silent_Recover.middleware_contract_axioms silent_Logging.middleware_contract_axioms
      silent_Admission.middleware_contract_axioms silent_Attach.middleware_contract_axioms silent_Metrics.middleware_contract_axioms
      silent_MCPAttach.middleware_contract_axioms silent_MCPGuard.middleware_contract_axioms silent_trace
      silent_checked [folded AuthWith_def] silent_checked [folded SignWith_def]) (simp_all add: AuthWith_def SignWith_def silent_checked)

text \<open>Logging throws the reply of a failed call away, and nothing around it brings it back.\<close>

definition no_reply_on_error :: "'a Handler \<Rightarrow> bool" where
  "no_reply_on_error h \<longleftrightarrow> (\<forall>req w rsp e. fst (h req w) = Ok (rsp, Some e) \<longrightarrow> rsp = None)"

lemma no_reply_Logging: "no_reply_on_error (Logging h)"
  by (auto simp: no_reply_on_error_def Logging_def LoggingWithOptions_def Let_def split: prod.splits res.splits option.splits if_splits)

interpretation no_reply_Recover: middleware_contract no_reply_on_error "Recover k :: 'a Middleware" for k
proof unfold_locales
  fix h :: "'a Handler" assume h: "no_reply_on_error h"
  have "rsp = None" if "fst (Recover k h req w) = Ok (rsp, Some e)" for req w rsp e
  proof (cases "h req w")
    case (Pair r w1)
    then show ?thesis using h that unfolding no_reply_on_error_def Recover_def by (cases r) (auto, metis fst_conv)
  qed
  then show "no_reply_on_error (Recover k h)" by (simp add: no_reply_on_error_def)
qed

lemma default_shape:
  obtains rest where "prepareMW d (DefaultMiddlewares k g opts) b = Recover k # Logging # rest"
  by (cases b) (simp_all add: prepareMW_def DefaultMiddlewares_def)

lemma default_no_reply: "no_reply_on_error (buildHandler k (prepareMW d (DefaultMiddlewares k g opts) b) invoke)"
proof -
  obtain rest where "prepareMW d (DefaultMiddlewares k g opts) b = Recover k # Logging # rest" by (rule default_shape)
  then have "buildHandler k (prepareMW d (DefaultMiddlewares k g opts) b) invoke
      = Recover k (Logging (Chain rest (invoke_handler k invoke)))"
    by (simp add: buildHandler_def Chain_def)
  then show ?thesis using no_reply_Recover.passes [OF no_reply_Logging] by simp
qed

lemma silent_invoke: "(\<And>req w. sent (snd (invoke req w)) = sent w) \<Longrightarrow> silent (invoke_handler k invoke)"
proof (rule silentI)
  fix req w r w' assume i: "\<And>req w. sent (snd (invoke req w)) = sent w" and e: "invoke_handler k invoke req w = (r, w')"
  have "snd (invoke req w) = w'"
    using e by (auto simp: invoke_handler_def split: prod.splits res.splits option.splits any_value.splits)
  then show "sent w' = sent w" using i by metis
qed

lemma silent_build:
  assumes "\<forall>mw\<in>set mws. middleware_contract silent mw" "silent (invoke_handler k invoke)"
  shows "silent (buildHandler k (prepareMW d mws b) invoke)"
proof -
  have "\<forall>mw\<in>set (prepareMW d mws b). middleware_contract silent mw"
    using assms(1) silent_UIDLock.middleware_contract_axioms by (auto simp: prepareMW_def)
  from Chain_contract [OF this assms(2)] assms(2) show ?thesis by (simp add: buildHandler_def)
qed

lemma sent_leave [simp]: "sent (set_ctx f w) = sent w" "sent (enter desc t ic w) = sent w"
  by (simp_all add: enter_def)

lemma reply_sent: "sent (reply desc rsp w) = sent w @ (case rsp of None \<Rightarrow> [] | Some m \<Rightarrow> [(None, m)])"
  by (simp add: reply_def SendMsgBackWithCmd_def context_has_method_def split: option.splits)

definition answer_of :: "int res \<Rightarrow> proto_codes \<Rightarrow> MethodDesc \<Rightarrow> (int option \<times> message) list \<Rightarrow> bool" where
  "answer_of r k desc answers \<longleftrightarrow> answers = [] \<or> r = Ok (ERR_OK k) \<and> \<not> OneWay desc \<and> (\<exists>m. answers = [(None, m)])"

lemma WrapUnary_answers:
  assumes h: "silent (buildHandler k (prepareMW d mws (dUIDLock desc)) invoke)"
    and no: "no_reply_on_error (buildHandler k (prepareMW d mws (dUIDLock desc)) invoke)"
    and run: "WrapUnary k d desc mws newReq parse invoke c data w = (r, w')"
  shows "\<exists>answers. sent w' = sent w @ answers \<and> answer_of r k desc answers"
proof -
  let ?h = "buildHandler k (prepareMW d mws (dUIDLock desc)) invoke"
  consider (early) "sent w' = sent w"
    | (called) ic req where "c = Some ic" "newReq \<noteq> None"
        "(case ?h req (enter desc ''sspack'' ic w) of
             (Ok (rsp, Some e), w1) \<Rightarrow>
               (let code = ToErrorCode k (Some e);
                    w2 = (case rsp of Some m \<Rightarrow> if \<not> OneWay desc then reply desc (Some (ApplyErrCode code m)) w1 else w1 | None \<Rightarrow> w1)
                in (Ok code, set_ctx ctx_Close w2))
           | (Ok (rsp, None), w1) \<Rightarrow> if OneWay desc then (Ok (ERR_OK k), set_ctx ctx_Close w1)
               else (Ok (ERR_OK k), set_ctx ctx_Close (reply desc rsp w1))
           | (Panicked p, w1) \<Rightarrow> (Panicked p, set_ctx ctx_Close w1)
           | (Stuck, w1) \<Rightarrow> (Stuck, w1)) = (r, w')"
    using run by (auto simp: WrapUnary_def Let_def split: option.splits any_value.splits)
  then show ?thesis
  proof cases
    case early
    then show ?thesis by (simp add: answer_of_def)
  next
    case called
    obtain r1 w1 where r1: "?h req (enter desc ''sspack'' ic w) = (r1, w1)" by fastforce
    have s: "sent w1 = sent w" using silentD [OF h r1] by simp
    show ?thesis
    proof (cases r1)
      case (Ok res)
      obtain rsp err where res: "res = (rsp, err)" by fastforce
      show ?thesis
      proof (cases err)
        case None
        then show ?thesis using called(3) r1 s Ok res by (auto simp: reply_sent answer_of_def split: option.splits if_splits)
      next
        case (Some e)
        then have "rsp = None" using no r1 Ok res unfolding no_reply_on_error_def by (metis fst_conv)
        then show ?thesis using called(3) r1 s Ok res Some by (auto simp: answer_of_def Let_def)
      qed
    qed (use called(3) r1 s in \<open>auto simp: answer_of_def\<close>)
  qed
qed

text \<open>C40: With the standard middlewares a request is answered at most once, only if it ends without an error, and
  with the reply command derived from its packet: the reply a method returns beside an error and an explicit reply command never go out.\<close>

theorem failed_requests_unanswered:
  assumes "silent_options global opts" "\<And>req w. sent (snd (invoke req w)) = sent w"
    and "WrapUnary k deflt desc (DefaultMiddlewares k global opts) newReq parse invoke c data w = (r, w')"
  shows "\<exists>answers. sent w' = sent w @ answers
     \<and> (answers = [] \<or> r = Ok (ERR_OK k) \<and> \<not> OneWay desc \<and> (\<exists>m. answers = [(None, m)]))"
  using WrapUnary_answers [OF silent_build [OF silent_default [OF assms(1)] silent_invoke [OF assms(2)]] default_no_reply assms(3)]
  unfolding answer_of_def .

definition codes :: proto_codes where "codes = \<lparr>ERR_OK = 0, ERR_INTERNAL = 1, ERR_MARSHAL = 2\<rparr>"

definition sample_ic :: IContext where
  "sample_ic = \<lparr>iUid = 42, iZone = 1, iRid = 0, iOriSrcBusId = 9, iIp = 0, iFlag = 0, iTransID = Some 5, iTransport = [],
     iCanSetUID = False, iDeadline = None\<rparr>"

definition sample_admission :: AdmissionController where
  "sample_admission = NewAdmissionController \<lparr>MaxConnections = 0, MaxUnauthenticatedConnections = 0, ConnectionRate = 0, LoginRate = 0,
     MaxInflight = 0, OverloadMode = ''enforce''\<rparr>"

definition sample_world :: "unit world" where
  "sample_world = \<lparr>ctx = WrapIContext sample_ic 0, held = {}, adm = sample_admission, rejects = 0, rejectLogLastSec = (\<lambda>_. 0),
     gauge = 0, observed = [], logs = [], now = 7000000000, sent = [], app = ()\<rparr>"

definition sample_opts :: "unit DefaultMWOptions" where
  "sample_opts = \<lparr>oTrace = None, oAuth = Some (\<lambda>req w. (Ok None, w)), oSign = None, oUIDLocker = None, oMetrics = None, oMCP = None,
     oMCPGuard = None, oExtra = [], oInflightLimiter = True, oMaxInflight = 3, oMaxInflightPerMethod = [''Login'' \<mapsto> 1]\<rparr>"

definition sample_desc :: MethodDesc where
  "sample_desc = \<lparr>dCmd = 16908289, CmdResp = 0, OneWay = False, dUIDLock = True, dAuth = True, dSign = False, Timeout = 0,
     dTraceTags = None, Name = ''Login''\<rparr>"

text \<open>A method that returns a reply and an error, as the services do.\<close>

definition refusing :: "unit Invoke" where
  "refusing req w = (Ok (Some (Msg (Some [(''Ret'', PtrStruct None [(''Code'', Int32 0)])])), Some (GError 1007 ''biz_error'' [] None)), w)"

definition sample_run :: "unit Middleware list \<Rightarrow> unit Invoke \<Rightarrow> int res \<times> unit world" where
  "sample_run mws invoke = WrapUnary codes (NewStripedUIDLocker 0 0) sample_desc mws (Some (Msg (Some []))) (\<lambda>(d :: unit) m. Some m)
     invoke (Some sample_ic) () sample_world"

lemmas run_defs = sample_run_def WrapUnary_def buildHandler_def Chain_def prepareMW_def DefaultMiddlewares_def enter_def invoke_handler_def
  Recover_def Logging_def LoggingWithOptions_def AdmissionMiddleware_def TraceWith_def StartTrace_def AuthWith_def SignWith_def checked_def
  UIDLockAttach_def UIDLock_def with_stripe_def Metrics_def applyDesc_def ApplyTimeout_def ctx_Close_def SetMethod_def SetCmd_def SetTransport_def
  WrapIContext_def sample_ic_def sample_admission_def sample_world_def sample_opts_def sample_desc_def codes_def reply_def SendMsgBackWithCmd_def
  context_has_method_def effectiveMethodTimeout_def refusing_def ToErrorCode_def gerr_Code_def ApplyErrCode_def
  TryAcquireInflight_def ReleaseInflight_def NewAdmissionController_def methodCounter_def

text \<open>Without middlewares the wrapper answers with the code of the error in the reply.\<close>

lemma refused_alone: "map snd (sent (snd (sample_run [] refusing))) = [Some [(''Ret'', PtrStruct (Some [(''Code'', Int32 1007)]) [(''Code'', Int32 0)])]]"
  by (simp add: run_defs)

lemma refused_result: "fst (sample_run (DefaultMiddlewares codes None sample_opts) refusing) = Ok 1007"
  by (simp add: run_defs Let_def)

theorem failed_requests_unanswered_witness:
  "fst (sample_run (DefaultMiddlewares codes None sample_opts) refusing) = Ok 1007
     \<and> sent (snd (sample_run (DefaultMiddlewares codes None sample_opts) refusing)) = []"
proof -
  have o: "silent_options None sample_opts"
    by (simp add: silent_options_def silent_provider_def silent_check_def sample_opts_def)
  have i: "sent (snd (refusing req w)) = sent w" for req w by (simp add: refusing_def)
  obtain r w' where run: "sample_run (DefaultMiddlewares codes None sample_opts) refusing = (r, w')" by fastforce
  from failed_requests_unanswered [OF o i run [unfolded sample_run_def]] refused_result run
  show ?thesis by (auto simp: sample_world_def codes_def)
qed

section \<open>What a request takes it gives back\<close>

definition taken :: "AdmissionController \<Rightarrow> string \<Rightarrow> int" where
  "taken a m = (case methodInflight a m of Some n \<Rightarrow> n | None \<Rightarrow> 0)"

text \<open>The admission controller rejects, its counters are not negative, and it has counters only for methods with a limit.\<close>

definition adm_ok :: "(string \<rightharpoonup> int) \<Rightarrow> AdmissionController \<Rightarrow> bool" where
  "adm_ok per a \<longleftrightarrow> OverloadMode (limits a) = ''enforce'' \<and> 0 \<le> inflight a
     \<and> (\<forall>m n. methodInflight a m = Some n \<longrightarrow> 0 \<le> n \<and> (\<exists>l > 0. per m = Some l))"

definition same_places :: "AdmissionController \<Rightarrow> AdmissionController \<Rightarrow> bool" where
  "same_places a a' \<longleftrightarrow> inflight a' = inflight a \<and> taken a' = taken a"

lemma acquire_release:
  assumes ok: "adm_ok per a" and l: "l = (case per m of Some n \<Rightarrow> if n > 0 then n else 0 | None \<Rightarrow> 0)"
    and lim: "n > 0 \<or> l > 0" and acq: "TryAcquireInflight m n l a = (a1, got)"
  shows "adm_ok per a1 \<and> (if got then (\<forall>a2. same_places a1 a2 \<and> adm_ok per a2 \<longrightarrow> same_places a (ReleaseInflight m a2) \<and> adm_ok per (ReleaseInflight m a2))
     else same_places a a1)"
proof -
  have e: "OverloadMode (limits a) = ''enforce''" using ok by (simp add: adm_ok_def)
  have entry: "l > 0" if x: "adm_ok per x" "methodInflight x m \<noteq> None" for x
  proof -
    from x obtain y where "methodInflight x m = Some y" by blast
    then obtain l' where "l' > 0" "per m = Some l'" using x(1) unfolding adm_ok_def by blast
    then show ?thesis using l by simp
  qed
  consider (full) "n > 0" "inflight a \<ge> n" | (free) "\<not> (n > 0 \<and> inflight a \<ge> n)" by blast
  then show ?thesis
  proof cases
    case full
    then show ?thesis using acq ok e by (auto simp: TryAcquireInflight_def admitOrReject_def same_places_def)
  next
    case free
    show ?thesis
    proof (cases "l > 0")
      case False
      have none: "methodInflight a m = None" using entry [OF ok] False by blast
      have a1: "a1 = a\<lparr>inflight := inflight a + 1\<rparr>" "got" using acq free False lim by (auto simp: TryAcquireInflight_def)
      have "same_places a (ReleaseInflight m a2) \<and> adm_ok per (ReleaseInflight m a2)" if "same_places a1 a2" "adm_ok per a2" for a2
      proof -
        have "methodInflight a2 m = None" using entry [OF that(2)] False by blast
        then have "ReleaseInflight m a2 = a2\<lparr>inflight := inflight a\<rparr>"
          using that(1) ok by (auto simp: ReleaseInflight_def same_places_def a1 adm_ok_def)
        then show ?thesis using that ok by (simp add: same_places_def a1 adm_ok_def taken_def fun_eq_iff)
      qed
      moreover have "adm_ok per a1" using ok a1(1) by (simp add: adm_ok_def)
      ultimately show ?thesis using a1(2) by simp
    next
      case True
      then have per: "per m = Some l" using l by (auto split: option.splits if_splits)
      define b where "b = methodCounter (a\<lparr>inflight := inflight a + 1\<rparr>) m"
      have b: "inflight b = inflight a + 1" "taken b = taken a" "limits b = limits a" "methodInflight b m = Some (taken a m)"
        "\<And>m'. m' \<noteq> m \<Longrightarrow> methodInflight b m' = methodInflight a m'"
        by (auto simp: b_def methodCounter_def taken_def fun_eq_iff split: option.splits)
      have okb: "adm_ok per b"
        unfolding adm_ok_def
      proof (intro conjI allI impI)
        fix m' n' assume "methodInflight b m' = Some n'"
        then show "0 \<le> n'" "\<exists>l > 0. per m' = Some l"
          using ok b(4,5) per True by (cases "m' = m"; auto simp: adm_ok_def taken_def split: option.splits)+
      qed (use ok b in \<open>auto simp: adm_ok_def\<close>)
      show ?thesis
      proof (cases "taken a m \<ge> l")
        case full: True
        then have "a1 = b\<lparr>inflight := inflight b - 1\<rparr>" "\<not> got"
          using acq free True b(3,4) e by (auto simp: TryAcquireInflight_def Let_def b_def [symmetric] admitOrReject_def)
        then show ?thesis using okb b ok by (simp add: adm_ok_def same_places_def taken_def fun_eq_iff)
      next
        case room: False
        then have a1: "a1 = b\<lparr>methodInflight := (methodInflight b)(m \<mapsto> taken a m + 1)\<rparr>" "got"
          using acq free True b(4) by (auto simp: TryAcquireInflight_def Let_def b_def [symmetric])
        have pos: "0 \<le> taken a m" using ok by (auto simp: adm_ok_def taken_def split: option.splits)
        have "same_places a (ReleaseInflight m a2) \<and> adm_ok per (ReleaseInflight m a2)" if s: "same_places a1 a2" and o: "adm_ok per a2" for a2
        proof -
          have t: "taken a2 = (taken a)(m := taken a m + 1)" "inflight a2 = inflight a + 1"
            using s b by (auto simp: same_places_def a1 taken_def fun_eq_iff)
          then have "methodInflight a2 m = Some (taken a m + 1)" using pos by (auto simp: taken_def fun_eq_iff split: option.splits dest: spec [of _ m])
          then have r: "ReleaseInflight m a2 = a2\<lparr>methodInflight := (methodInflight a2)(m \<mapsto> taken a m), inflight := inflight a\<rparr>"
            using pos t ok by (auto simp: ReleaseInflight_def adm_ok_def)
          have "taken (ReleaseInflight m a2) = taken a" using t(1) unfolding r by (auto simp: taken_def fun_eq_iff split: if_splits)
          then show ?thesis using o pos per True ok unfolding r by (auto simp: same_places_def adm_ok_def split: if_splits)
        qed
        moreover have "adm_ok per a1" using okb pos per True by (auto simp: a1 adm_ok_def)
        ultimately show ?thesis using a1 by simp
      qed
    qed
  qed
qed

definition balanced :: "(string \<rightharpoonup> int) \<Rightarrow> 'a world \<Rightarrow> 'a world \<Rightarrow> bool" where
  "balanced per w w' \<longleftrightarrow> held w' = held w \<and> gauge w' = gauge w \<and> same_places (adm w) (adm w') \<and> adm_ok per (adm w')"

text \<open>A handler that returns or panics and leaves the shared resources as they were: always, or when the
  request holds no stripe yet.\<close>

definition steady :: "(string \<rightharpoonup> int) \<Rightarrow> 'a Handler \<Rightarrow> bool" where
  "steady per h \<longleftrightarrow> (\<forall>req w. adm_ok per (adm w) \<longrightarrow> fst (h req w) \<noteq> Stuck \<and> balanced per w (snd (h req w)))"

definition releases :: "(string \<rightharpoonup> int) \<Rightarrow> 'a Handler \<Rightarrow> bool" where
  "releases per h \<longleftrightarrow> (\<forall>req w. adm_ok per (adm w) \<and> held w = {} \<longrightarrow> fst (h req w) \<noteq> Stuck \<and> balanced per w (snd (h req w)))"

definition steady_check :: "(string \<rightharpoonup> int) \<Rightarrow> 'a Check option \<Rightarrow> bool" where
  "steady_check per c \<longleftrightarrow> (\<forall>f req w. c = Some f \<longrightarrow> adm_ok per (adm w) \<longrightarrow> fst (f req w) \<noteq> Stuck \<and> balanced per w (snd (f req w)))"

definition steady_provider :: "(string \<rightharpoonup> int) \<Rightarrow> 'a TraceProvider option \<Rightarrow> bool" where
  "steady_provider per p \<longleftrightarrow> (\<forall>f tags w. p = Some f \<longrightarrow> (adm_ok per (adm w) \<longrightarrow> balanced per w (snd (f tags w)))
     \<and> (\<forall>fin err w'. fst (f tags w) = Some fin \<longrightarrow> adm_ok per (adm w') \<longrightarrow> balanced per w' (fin err w')))"

lemma same_places_refl [simp]: "same_places a a"
  by (simp add: same_places_def)

lemma same_places_trans: "same_places a b \<Longrightarrow> same_places b c \<Longrightarrow> same_places a c"
  by (simp add: same_places_def)

lemma balanced_refl: "adm_ok per (adm w) \<Longrightarrow> balanced per w w"
  by (simp add: balanced_def)

lemma balanced_trans: "balanced per a b \<Longrightarrow> balanced per b c \<Longrightarrow> balanced per a c"
  by (auto simp: balanced_def intro: same_places_trans)

lemma balanced_update:
  "balanced per w w1 \<Longrightarrow> held w2 = held w1 \<Longrightarrow> gauge w2 = gauge w1 \<Longrightarrow> adm w2 = adm w1 \<Longrightarrow> balanced per w w2"
  by (simp add: balanced_def)

lemma releasesD:
  assumes "releases per h" "adm_ok per (adm w)" "held w = {}" "h req w = (r, w')"
  shows "r \<noteq> Stuck" "balanced per w w'"
  using assms unfolding releases_def by (metis fst_conv, metis snd_conv)

lemma releasesI:
  "(\<And>req w r w'. adm_ok per (adm w) \<Longrightarrow> held w = {} \<Longrightarrow> h req w = (r, w') \<Longrightarrow> r \<noteq> Stuck \<and> balanced per w w') \<Longrightarrow> releases per h"
  unfolding releases_def by (metis prod.collapse)

lemma steady_releases: "steady per h \<Longrightarrow> releases per h"
  by (simp add: steady_def releases_def)

interpretation releases_Recover: middleware_contract "releases per" "Recover k :: 'a Middleware" for per k
proof unfold_locales
  fix h :: "'a Handler" assume h: "releases per h"
  show "releases per (Recover k h)"
  proof (rule releasesI)
    fix req w r w' assume w: "adm_ok per (adm w)" "held w = {}" and e: "Recover k h req w = (r, w')"
    obtain r1 w1 where r1: "h req w = (r1, w1)" by fastforce
    show "r \<noteq> Stuck \<and> balanced per w w'" using e r1 releasesD [OF h w r1] by (cases r1) (auto simp: Recover_def)
  qed
qed

interpretation releases_Logging: middleware_contract "releases per" "Logging :: 'a Middleware" for per
proof unfold_locales
  fix h :: "'a Handler" assume h: "releases per h"
  show "releases per (Logging h)"
  proof (rule releasesI)
    fix req w r w' assume w: "adm_ok per (adm w)" "held w = {}" and e: "Logging h req w = (r, w')"
    obtain r1 w1 where r1: "h req w = (r1, w1)" by fastforce
    have "r \<noteq> Stuck" "held w' = held w1" "gauge w' = gauge w1" "adm w' = adm w1"
      using e r1 releasesD(1) [OF h w r1]
      by (cases r1; auto simp: Logging_def LoggingWithOptions_def Let_def split: prod.splits option.splits if_splits)+
    then show "r \<noteq> Stuck \<and> balanced per w w'" using balanced_update [OF releasesD(2) [OF h w r1]] by blast
  qed
qed

interpretation releases_Admission: middleware_contract "releases per" "AdmissionMiddleware lim n per :: 'a Middleware" for lim n per
proof unfold_locales
  fix h :: "'a Handler" assume h: "releases per h"
  show "releases per (AdmissionMiddleware lim n per h)"
  proof (rule releasesI)
    fix req w r w' assume w: "adm_ok per (adm w)" "held w = {}" and e: "AdmissionMiddleware lim n per h req w = (r, w')"
    define l where "l = (case per (Method (ctx w)) of Some n \<Rightarrow> if n > 0 then n else 0 | None \<Rightarrow> 0)"
    have eq: "AdmissionMiddleware lim n per h req w = (if \<not> lim then h req w else if n > 0 \<or> l > 0 then
         (case TryAcquireInflight (Method (ctx w)) n l (adm w) of
            (a, False) \<Rightarrow> (Ok (None, Some (Plain ''ssrpc: request rejected by admission control (overloaded)'')),
                logRejectSample (Method (ctx w)) (w\<lparr>adm := a, rejects := rejects w + 1\<rparr>))
          | (a, True) \<Rightarrow> (case h req (w\<lparr>adm := a\<rparr>) of (Stuck, w1) \<Rightarrow> (Stuck, w1)
              | (r, w1) \<Rightarrow> (r, w1\<lparr>adm := ReleaseInflight (Method (ctx w)) (adm w1)\<rparr>)))
         else h req w)"
      by (simp only: AdmissionMiddleware_def Let_def l_def)
    obtain a got where acq: "TryAcquireInflight (Method (ctx w)) n l (adm w) = (a, got)" by fastforce
    show "r \<noteq> Stuck \<and> balanced per w w'"
    proof (cases "lim \<and> (n > 0 \<or> l > 0)")
      case False
      then have "h req w = (r, w')" using e unfolding eq by (auto split: if_splits)
      then show ?thesis using releasesD [OF h w] by blast
    next
      case True
      note ar = acquire_release [OF w(1) l_def _ acq]
      show ?thesis
      proof (cases got)
        case False
        then have "r = Ok (None, Some (Plain ''ssrpc: request rejected by admission control (overloaded)''))"
          "held w' = held w" "gauge w' = gauge w" "adm w' = a"
          using e True acq unfolding eq by (auto simp: logRejectSample_def Let_def split: if_splits)
        then show ?thesis using ar True False by (simp add: balanced_def)
      next
        case got: True
        obtain r1 w1 where r1: "h req (w\<lparr>adm := a\<rparr>) = (r1, w1)" by fastforce
        have a: "adm_ok per (adm (w\<lparr>adm := a\<rparr>))" "held (w\<lparr>adm := a\<rparr>) = {}" using ar True w by auto
        note rel = releasesD [OF h a r1]
        have "r = r1 \<and> w' = w1\<lparr>adm := ReleaseInflight (Method (ctx w)) (adm w1)\<rparr>"
          using e True acq got r1 rel(1) unfolding eq by (cases r1) auto
        moreover have "same_places a (adm w1) \<and> adm_ok per (adm w1)" using rel(2) by (simp add: balanced_def)
        ultimately show ?thesis using rel ar True got by (auto simp: balanced_def)
      qed
    qed
  qed
qed

lemma releases_set_ctx:
  assumes "releases per h"
  shows "releases per (\<lambda>req w. h req (set_ctx (F w) w))"
proof (rule releasesI)
  fix req w r w' assume w: "adm_ok per (adm w)" "held w = {}" and e: "h req (set_ctx (F w) w) = (r, w')"
  from releasesD [OF assms _ _ e] w show "r \<noteq> Stuck \<and> balanced per w w'" by (simp add: balanced_def)
qed

interpretation releases_Attach: middleware_contract "releases per" "UIDLockAttach l :: 'a Middleware" for per l
  by unfold_locales (unfold UIDLockAttach_def [abs_def], rule releases_set_ctx [where F = "\<lambda>_ c. c\<lparr>cUIDLocker := l\<rparr>"])

interpretation releases_MCPAttach: middleware_contract "releases per" "MCPAttach m :: 'a Middleware" for per m
  by unfold_locales (unfold MCPAttach_def [abs_def], rule releases_set_ctx [where F = "\<lambda>_ c. c\<lparr>cMCP := m\<rparr>"])

interpretation releases_MCPGuard: middleware_contract "releases per" "MCPGuardWith g :: 'a Middleware" for per g
proof unfold_locales
  fix h :: "'a Handler" assume h: "releases per h"
  have "MCPGuardWith g h = (\<lambda>req w. h req (set_ctx (\<lambda>c. case (cMCP c, g) of
      (Some m, Some x) \<Rightarrow> c\<lparr>cMCP := Some (guardedMCP x (Some m))\<rparr> | _ \<Rightarrow> c) w))"
    by (auto simp: MCPGuardWith_def fun_eq_iff split: option.splits)
  then show "releases per (MCPGuardWith g h)" using releases_set_ctx [OF h] by simp
qed

interpretation releases_Metrics: middleware_contract "releases per" "Metrics k m :: 'a Middleware" for per k m
proof unfold_locales
  fix h :: "'a Handler" assume h: "releases per h"
  show "releases per (Metrics k m h)"
  proof (rule releasesI)
    fix req w r w' assume w: "adm_ok per (adm w)" "held w = {}" and e: "Metrics k m h req w = (r, w')"
    show "r \<noteq> Stuck \<and> balanced per w w'"
    proof (cases m)
      case None
      then show ?thesis using e releasesD [OF h w] by (auto simp: Metrics_def)
    next
      case (Some q)
      define g where "g = (if q = promMetricsRecorder then 1 else 0 :: int)"
      obtain r1 w1 where r1: "h req (w\<lparr>gauge := gauge w + g\<rparr>) = (r1, w1)" by fastforce
      note rel = releasesD [OF h _ _ r1, simplified, OF w]
      have w0: "(if q = promMetricsRecorder then w\<lparr>gauge := gauge w + 1\<rparr> else w) = w\<lparr>gauge := gauge w + g\<rparr>" by (simp add: g_def)
      have "r \<noteq> Stuck \<and> held w' = held w1 \<and> adm w' = adm w1 \<and> gauge w' = gauge w1 - g"
        using e r1 rel(1) unfolding Metrics_def Some option.case Let_def w0
        by (cases r1) (auto simp: g_def split: if_splits)
      then show ?thesis using rel(2) by (simp add: balanced_def)
    qed
  qed
qed

lemma releases_checked: "steady_check per c \<Longrightarrow> middleware_contract (releases per) (checked k msg p c)"
proof unfold_locales
  fix h :: "'a Handler" assume c: "steady_check per c" and h: "releases per h"
  show "releases per (checked k msg p c h)"
  proof (rule releasesI)
    fix req w r w' assume w: "adm_ok per (adm w)" "held w = {}" and e: "checked k msg p c h req w = (r, w')"
    show "r \<noteq> Stuck \<and> balanced per w w'"
    proof (cases "p (ctx w) \<and> c \<noteq> None")
      case True
      then obtain f where f: "c = Some f" by blast
      obtain r1 w1 where r1: "f req w = (r1, w1)" by fastforce
      have one: "r1 \<noteq> Stuck" "balanced per w w1" using c f r1 w(1) unfolding steady_check_def by (metis fst_conv, metis snd_conv)
      then have w1: "adm_ok per (adm w1)" "held w1 = {}" using w(2) by (auto simp: balanced_def)
      show ?thesis
      proof (cases "r1 = Ok None")
        case True
        then have "h req w1 = (r, w')" using e f r1 \<open>p (ctx w) \<and> c \<noteq> None\<close> by (simp add: checked_def)
        then show ?thesis using releasesD [OF h w1] balanced_trans [OF one(2)] by blast
      next
        case False
        then have "r \<noteq> Stuck \<and> w' = w1" using e f r1 one(1) \<open>p (ctx w) \<and> c \<noteq> None\<close>
          by (cases r1) (auto simp: checked_def split: option.splits)
        then show ?thesis using one by simp
      qed
    next
      case False
      then show ?thesis using e releasesD [OF h w] balanced_refl [OF w(1)] by (auto simp: checked_def split: if_splits)
    qed
  qed
qed

lemma releases_trace:
  assumes "steady_provider per p" "steady_provider per g"
  shows "middleware_contract (releases per) (TraceWith g p)"
proof unfold_locales
  fix h :: "'a Handler" assume h: "releases per h"
  show "releases per (TraceWith g p h)"
  proof (rule releasesI)
    fix req w r w' assume w: "adm_ok per (adm w)" "held w = {}" and e: "TraceWith g p h req w = (r, w')"
    let ?tags = "[''span.name'' \<mapsto> Method (ctx w), ''span.kind'' \<mapsto> ''internal'', ''span.phase'' \<mapsto> ''handler'']"
    obtain finish w1 where st: "StartTrace g p ?tags w = (finish, w1)" by fastforce
    have one: "balanced per w w1 \<and> (\<forall>f err u. finish = Some f \<longrightarrow> adm_ok per (adm u) \<longrightarrow> balanced per u (f err u))"
    proof (cases "p = None \<and> g = None")
      case True
      then show ?thesis using st balanced_refl [OF w(1)] by (simp add: StartTrace_def)
    next
      case False
      then obtain f where f: "(case p of Some x \<Rightarrow> Some x | None \<Rightarrow> g) = Some f" "p = Some f \<or> g = Some f" by (cases p) auto
      then have r: "f (buildTraceTags (ctx w) ++ ?tags) w = (finish, w1)" using st by (simp add: StartTrace_def)
      have "steady_provider per (Some f)" using f(2) assms by auto
      then have "adm_ok per (adm u) \<Longrightarrow> balanced per u (snd (f t u))"
        "fst (f t u) = Some fin \<Longrightarrow> adm_ok per (adm v) \<Longrightarrow> balanced per v (fin err v)" for t u fin err v
        by (auto simp: steady_provider_def)
      from this(1) [of w "buildTraceTags (ctx w) ++ ?tags"] this(2) [of "buildTraceTags (ctx w) ++ ?tags" w] r w(1) show ?thesis by simp
    qed
    then have w1: "adm_ok per (adm w1)" "held w1 = {}" using w(2) by (auto simp: balanced_def)
    obtain r2 w2 where r2: "h req w1 = (r2, w2)" by fastforce
    note rel = releasesD [OF h w1 r2]
    have "adm_ok per (adm w2)" using rel(2) by (simp add: balanced_def)
    then have "r \<noteq> Stuck \<and> balanced per w2 w'"
      using e st r2 rel(1) one balanced_refl by (cases r2) (auto simp: TraceWith_def split: prod.splits option.splits)
    then show "r \<noteq> Stuck \<and> balanced per w w'" using one rel(2) balanced_trans by blast
  qed
qed

lemma releases_UIDLock:
  assumes "steady per h"
  shows "releases per (UIDLock d h)"
proof (rule releasesI)
  fix req w r w' assume w: "adm_ok per (adm w)" "held w = {}" and e: "UIDLock d h req w = (r, w')"
  show "r \<noteq> Stuck \<and> balanced per w w'"
  proof (cases "iUid (IC (ctx w)) = 0")
    case True
    then show ?thesis using e releasesD [OF steady_releases [OF assms] w] by (simp add: UIDLock_def Let_def)
  next
    case False
    define s where "s = stripe (the_locker d (ctx w)) (iUid (IC (ctx w)))"
    obtain r1 w1 where r1: "h req (w\<lparr>held := insert s (held w)\<rparr>) = (r1, w1)" by fastforce
    have one: "r1 \<noteq> Stuck \<and> balanced per (w\<lparr>held := insert s (held w)\<rparr>) w1"
      using assms r1 w(1) unfolding steady_def by (metis fst_conv snd_conv world.select_convs(3) world.update_convs(2) world.surjective)
    have "UIDLock d h req w = with_stripe s h req w" using False by (simp add: UIDLock_def Let_def s_def)
    then have "r = r1 \<and> w' = w1\<lparr>held := held w1 - {s}\<rparr>"
      using e r1 w(2) one by (cases r1) (auto simp: with_stripe_def)
    then show ?thesis using one w(2) by (auto simp: balanced_def)
  qed
qed

definition steady_options :: "'a TraceProvider option \<Rightarrow> 'a DefaultMWOptions \<Rightarrow> bool" where
  "steady_options global opts \<longleftrightarrow> (let per = oMaxInflightPerMethod opts in
     steady_provider per (oTrace opts) \<and> steady_provider per global \<and> steady_check per (oAuth opts) \<and> steady_check per (oSign opts)
     \<and> (\<forall>mw\<in>set (oExtra opts). middleware_contract (releases per) mw))"

lemma releases_default:
  "steady_options global opts \<Longrightarrow> \<forall>mw\<in>set (DefaultMiddlewares k global opts). middleware_contract (releases (oMaxInflightPerMethod opts)) mw"
  unfolding steady_options_def Let_def
  by (intro contract_default releases_Recover.middleware_contract_axioms releases_Logging.middleware_contract_axioms
      releases_Admission.middleware_contract_axioms releases_Attach.middleware_contract_axioms releases_Metrics.middleware_contract_axioms
      releases_MCPAttach.middleware_contract_axioms releases_MCPGuard.middleware_contract_axioms releases_trace)
    (simp_all add: AuthWith_def SignWith_def releases_checked)

lemma Recover_no_panic: "fst (Recover k h req w) \<noteq> Panicked p"
  by (auto simp: Recover_def split: prod.splits res.splits)

lemma default_Recover:
  obtains rest where "buildHandler k (prepareMW d (DefaultMiddlewares k g opts) b) invoke = Recover k rest"
proof -
  obtain rest where "prepareMW d (DefaultMiddlewares k g opts) b = Recover k # Logging # rest" by (rule default_shape)
  then show thesis using that by (simp add: buildHandler_def Chain_def)
qed

lemma Chain_append: "Chain (xs @ ys) h = Chain xs (Chain ys h)"
  by (simp add: Chain_def)

lemma releases_build:
  assumes mws: "\<forall>mw\<in>set mws. middleware_contract (releases per) mw" and h: "steady per (invoke_handler k invoke)"
  shows "releases per (buildHandler k (prepareMW d mws b) invoke)"
proof -
  have "releases per (Chain (prepareMW d mws b) (invoke_handler k invoke))"
  proof (cases b)
    case True
    then show ?thesis using Chain_contract [OF mws releases_UIDLock [OF h, of d]]
      by (simp add: prepareMW_def Chain_append) (simp add: Chain_def)
  next
    case False
    then show ?thesis using Chain_contract [OF mws steady_releases [OF h]] by (simp add: prepareMW_def)
  qed
  then show ?thesis using steady_releases [OF h] by (simp add: buildHandler_def)
qed

lemma steady_invoke:
  fixes invoke :: "'a Invoke"
  assumes "\<And>req w. adm_ok per (adm w) \<Longrightarrow> fst (invoke req w) \<noteq> Stuck \<and> balanced per w (snd (invoke req w))"
  shows "steady per (invoke_handler k invoke)"
  unfolding steady_def
proof (intro allI impI)
  fix req and w :: "'a world" assume w: "adm_ok per (adm w)"
  obtain r w1 where r: "invoke req w = (r, w1)" by fastforce
  have "fst (invoke_handler k invoke req w) \<noteq> Stuck \<and> snd (invoke_handler k invoke req w) = w1"
    using assms [OF w, of req] r by (auto simp: invoke_handler_def split: res.splits option.splits any_value.splits)
  then show "fst (invoke_handler k invoke req w) \<noteq> Stuck \<and> balanced per w (snd (invoke_handler k invoke req w))"
    using assms [OF w, of req] r by simp
qed

lemma balanced_reply [simp]: "balanced per w (reply desc rsp w') = balanced per w w'" "balanced per w (set_ctx f w') = balanced per w w'"
  by (simp_all add: balanced_def reply_def SendMsgBackWithCmd_def Let_def split: option.splits)

lemma enter_same: "adm (enter desc t ic w) = adm w" "held (enter desc t ic w) = held w" "gauge (enter desc t ic w) = gauge w"
  by (simp_all add: enter_def)


definition with_code :: "int \<Rightarrow> unit Invoke" where
  "with_code c req w = (if c = 0 then Panicked ''boom'' else Ok (Some (Msg (Some [])), None), w)"


section \<open>When a method is called\<close>

text \<open>Two handlers that agree wherever a condition on the request, its context and its stripes holds.\<close>

type_synonym guard = "message \<Rightarrow> Context \<Rightarrow> (nat \<times> nat) set \<Rightarrow> bool"

definition agree :: "guard \<Rightarrow> 'a Handler \<Rightarrow> 'a Handler \<Rightarrow> bool" where
  "agree P h h' \<longleftrightarrow> (\<forall>req w. P req (ctx w) (held w) \<longrightarrow> h req w = h' req w)"

lemma agreeD: "agree P h h' \<Longrightarrow> P req (ctx w) (held w) \<Longrightarrow> h req w = h' req w"
  by (simp add: agree_def)

lemma agree_weaken: "agree P h h' \<Longrightarrow> (\<And>req c s. Q req c s \<Longrightarrow> P req c s) \<Longrightarrow> agree Q h h'"
  by (simp add: agree_def)

text \<open>A middleware that calls the next handler where the condition \<open>P\<close> held, in a state where \<open>Q\<close> holds.\<close>

locale guard_step =
  fixes P Q :: guard
    and mw :: "'a Middleware"
  assumes step: "agree Q h h' \<Longrightarrow> agree P (mw h) (mw h')"

interpretation guard_Recover: guard_step P P "Recover k :: 'a Middleware" for P k
  by unfold_locales (simp add: agree_def Recover_def)

interpretation guard_Logging: guard_step P P "Logging :: 'a Middleware" for P
  by unfold_locales (simp add: agree_def Logging_def LoggingWithOptions_def)

interpretation guard_Admission: guard_step P P "AdmissionMiddleware lim n per :: 'a Middleware" for P lim n per
  by unfold_locales (simp add: agree_def AdmissionMiddleware_def Let_def split: prod.splits bool.splits)

interpretation guard_Metrics: guard_step P P "Metrics k m :: 'a Middleware" for P k m
  by unfold_locales (simp add: agree_def Metrics_def Let_def split: option.splits)

lemma guard_attach: "guard_step (\<lambda>req c s. P req (c\<lparr>cUIDLocker := l\<rparr>) s) P (UIDLockAttach l)"
  by unfold_locales (simp add: agree_def UIDLockAttach_def)

definition mcp_blind :: "guard \<Rightarrow> bool" where
  "mcp_blind P \<longleftrightarrow> (\<forall>req c s m. P req (c\<lparr>cMCP := m\<rparr>) s = P req c s)"

lemma guard_mcp:
  assumes "mcp_blind P"
  shows "guard_step P P (MCPAttach m)" "guard_step P P (MCPGuardWith g)"
  using assms unfolding mcp_blind_def
  by (unfold_locales; simp add: agree_def MCPAttach_def MCPGuardWith_def split: option.splits)+

definition described :: "MethodDesc \<Rightarrow> Context \<Rightarrow> bool" where
  "described desc c \<longleftrightarrow> Cmd c = dCmd desc \<and> Method c = Name desc \<and> AuthRequired c = dAuth desc \<and> SignRequired c = dSign desc"

text \<open>Checks and trace providers that leave the description of the method in the context.\<close>

definition courteous_check :: "MethodDesc \<Rightarrow> 'a Check option \<Rightarrow> bool" where
  "courteous_check desc c \<longleftrightarrow> (\<forall>f req w. c = Some f \<longrightarrow> described desc (ctx w) \<longrightarrow> described desc (ctx (snd (f req w))))"

definition courteous_provider :: "MethodDesc \<Rightarrow> 'a TraceProvider option \<Rightarrow> bool" where
  "courteous_provider desc p \<longleftrightarrow> (\<forall>f tags w. p = Some f \<longrightarrow> described desc (ctx w) \<longrightarrow> described desc (ctx (snd (f tags w))))"

text \<open>The check accepts the request in some state.\<close>

definition passed :: "'a Check option \<Rightarrow> message \<Rightarrow> bool" where
  "passed c req \<longleftrightarrow> (\<exists>f w. c = Some f \<and> fst (f req w) = Ok None)"

lemma guard_trace:
  assumes "courteous_provider desc p" "courteous_provider desc g"
  shows "guard_step (\<lambda>req c s. described desc c) (\<lambda>req c s. described desc c) (TraceWith g p)"
proof unfold_locales
  fix h h' :: "'a Handler" assume h: "agree (\<lambda>req c s. described desc c) h h'"
  have kept: "described desc (ctx (snd (StartTrace g p tags w)))" if "described desc (ctx w)" for tags w
    using assms that by (auto simp: StartTrace_def courteous_provider_def split: option.splits)
  show "agree (\<lambda>req c s. described desc c) (TraceWith g p h) (TraceWith g p h')"
    unfolding agree_def
  proof (intro allI impI)
    fix req and w :: "'a world" assume w: "described desc (ctx w)"
    let ?tags = "[''span.name'' \<mapsto> Method (ctx w), ''span.kind'' \<mapsto> ''internal'', ''span.phase'' \<mapsto> ''handler'']"
    obtain finish w1 where st: "StartTrace g p ?tags w = (finish, w1)" by fastforce
    have "h req w1 = h' req w1" using agreeD [OF h, of w1 req] kept [OF w, of ?tags] st by simp
    then show "TraceWith g p h req w = TraceWith g p h' req w" by (simp add: TraceWith_def st)
  qed
qed

lemma guard_checked:
  assumes polite: "courteous_check desc c" and flag: "\<And>x. described desc x \<Longrightarrow> p x = need"
  shows "guard_step (\<lambda>req x s. described desc x \<and> A req) (\<lambda>req x s. described desc x \<and> A req \<and> (need \<longrightarrow> passed c req)) (checked k msg p c)"
proof unfold_locales
  fix h h' :: "'a Handler"
  assume h: "agree (\<lambda>req x s. described desc x \<and> A req \<and> (need \<longrightarrow> passed c req)) h h'"
  show "agree (\<lambda>req x s. described desc x \<and> A req) (checked k msg p c h) (checked k msg p c h')"
    unfolding agree_def
  proof (intro allI impI)
    fix req and w :: "'a world" assume w: "described desc (ctx w) \<and> A req"
    show "checked k msg p c h req w = checked k msg p c h' req w"
    proof (cases "need \<and> c \<noteq> None")
      case False
      then show ?thesis using w flag [of "ctx w"] agreeD [OF h, of w req] by (auto simp: checked_def)
    next
      case True
      then obtain f where f: "c = Some f" by blast
      obtain r1 w1 where r1: "f req w = (r1, w1)" by fastforce
      have "h req w1 = h' req w1" if "r1 = Ok None"
      proof (rule agreeD [OF h])
        have "described desc (ctx w1)" using polite f w r1 unfolding courteous_check_def by (metis snd_conv)
        moreover have "passed c req" using f r1 that unfolding passed_def by (metis fst_conv)
        ultimately show "described desc (ctx w1) \<and> A req \<and> (need \<longrightarrow> passed c req)" using w by blast
      qed
      moreover have "p (ctx w)" using w flag [of "ctx w"] True by blast
      ultimately show ?thesis using f r1 by (auto simp: checked_def split: res.splits option.splits)
    qed
  qed
qed

lemma guard_UIDLock:
  "guard_step (\<lambda>req c s. A req c) (\<lambda>req c s. A req c \<and> (iUid (IC c) \<noteq> 0 \<longrightarrow> stripe (the_locker d c) (iUid (IC c)) \<in> s)) (UIDLock d)"
proof unfold_locales
  fix h h' :: "'a Handler"
  assume h: "agree (\<lambda>req c s. A req c \<and> (iUid (IC c) \<noteq> 0 \<longrightarrow> stripe (the_locker d c) (iUid (IC c)) \<in> s)) h h'"
  show "agree (\<lambda>req c s. A req c) (UIDLock d h) (UIDLock d h')"
    unfolding agree_def
  proof (intro allI impI)
    fix req and w :: "'a world" assume w: "A req (ctx w)"
    show "UIDLock d h req w = UIDLock d h' req w"
      using w agreeD [OF h, where req = req and w = w] agreeD [OF h, where req = req and w = "w\<lparr>held := insert (stripe (the_locker d (ctx w)) (iUid (IC (ctx w)))) (held w)\<rparr>"]
      by (simp add: UIDLock_def with_stripe_def Let_def)
  qed
qed

text \<open>What holds whenever the business method is called.\<close>

definition allowed :: "UIDLocker \<Rightarrow> MethodDesc \<Rightarrow> 'a DefaultMWOptions \<Rightarrow> guard" where
  "allowed deflt desc opts req c s \<longleftrightarrow> Cmd c = dCmd desc \<and> Method c = Name desc
     \<and> (dAuth desc \<longrightarrow> passed (oAuth opts) req) \<and> (dSign desc \<longrightarrow> passed (oSign opts) req)
     \<and> (dUIDLock desc \<and> iUid (IC c) \<noteq> 0 \<longrightarrow>
          stripe (case oUIDLocker opts of Some l \<Rightarrow> l | None \<Rightarrow> deflt) (iUid (IC c)) \<in> s)"

definition courteous_options :: "MethodDesc \<Rightarrow> 'a TraceProvider option \<Rightarrow> 'a DefaultMWOptions \<Rightarrow> bool" where
  "courteous_options desc global opts \<longleftrightarrow> courteous_provider desc (oTrace opts) \<and> courteous_provider desc global
     \<and> courteous_check desc (oAuth opts) \<and> courteous_check desc (oSign opts) \<and> oExtra opts = []"

lemma agree_chain:
  assumes opts: "courteous_options desc global opts" and h: "agree (allowed deflt desc opts) h h'"
  shows "agree (\<lambda>req c s. described desc c) (Chain (prepareMW deflt (DefaultMiddlewares k global opts) (dUIDLock desc)) h)
           (Chain (prepareMW deflt (DefaultMiddlewares k global opts) (dUIDLock desc)) h')"
proof -
  let ?checks = "\<lambda>req. (dAuth desc \<longrightarrow> passed (oAuth opts) req) \<and> (dSign desc \<longrightarrow> passed (oSign opts) req)"
  let ?A = "\<lambda>req c. described desc c \<and> ?checks req \<and> cUIDLocker c = oUIDLocker opts"
  let ?P = "\<lambda>req c s :: (nat \<times> nat) set. ?A req c"
  let ?lock = "if dUIDLock desc then UIDLock deflt else (\<lambda>h. h)"
  let ?mcp = "\<lambda>h. case oMCP opts of Some m \<Rightarrow> MCPAttach (Some m) (MCPGuardWith (oMCPGuard opts) h) | None \<Rightarrow> h"
  let ?rec = "case oMetrics opts of Some r \<Rightarrow> r | None \<Rightarrow> promMetricsRecorder"
  let ?adm = "if oInflightLimiter opts \<and> oMaxInflight opts > 0 then AdmissionMiddleware True (oMaxInflight opts) (oMaxInflightPerMethod opts) else (\<lambda>h. h)"
  have shape: "Chain (prepareMW deflt (DefaultMiddlewares k global opts) (dUIDLock desc)) h
     = Recover k (Logging (?adm (TraceWith global (oTrace opts) (AuthWith k (oAuth opts) (SignWith k (oSign opts)
         (UIDLockAttach (oUIDLocker opts) (Metrics k (Some ?rec) (?mcp (?lock h)))))))))" for h
    using opts by (auto simp: Chain_def prepareMW_def DefaultMiddlewares_def courteous_options_def split: option.splits)
  have lock: "agree ?P (?lock h) (?lock h')"
  proof (cases "dUIDLock desc")
    case True
    have "agree (\<lambda>req c s. ?A req c \<and> (iUid (IC c) \<noteq> 0 \<longrightarrow> stripe (the_locker deflt c) (iUid (IC c)) \<in> s)) h h'"
      by (rule agree_weaken [OF h]) (auto simp: allowed_def described_def the_locker_def)
    from guard_step.step [OF guard_UIDLock [where A = ?A and d = deflt] this] show ?thesis unfolding if_P [OF True] .
  next
    case False
    then have "agree ?P h h'" by (intro agree_weaken [OF h]) (auto simp: allowed_def described_def)
    then show ?thesis unfolding if_not_P [OF False] .
  qed
  have blind: "mcp_blind ?P" by (simp add: mcp_blind_def described_def)
  have mcp: "agree ?P (?mcp (?lock h)) (?mcp (?lock h'))"
  proof (cases "oMCP opts")
    case None
    show ?thesis unfolding None option.case by (rule lock)
  next
    case (Some m)
    show ?thesis unfolding Some option.case
      by (rule guard_step.step [OF guard_mcp(1) [OF blind] guard_step.step [OF guard_mcp(2) [OF blind] lock]])
  qed
  have "agree (\<lambda>req c s. ?P req (c\<lparr>cUIDLocker := oUIDLocker opts\<rparr>) s)
      (UIDLockAttach (oUIDLocker opts) (Metrics k (Some ?rec) (?mcp (?lock h)))) (UIDLockAttach (oUIDLocker opts) (Metrics k (Some ?rec) (?mcp (?lock h'))))"
    by (rule guard_step.step [OF guard_attach guard_Metrics.step [OF mcp]])
  then have attach: "agree (\<lambda>req c s. described desc c \<and> (dAuth desc \<longrightarrow> passed (oAuth opts) req) \<and> (dSign desc \<longrightarrow> passed (oSign opts) req))
      (UIDLockAttach (oUIDLocker opts) (Metrics k (Some ?rec) (?mcp (?lock h)))) (UIDLockAttach (oUIDLocker opts) (Metrics k (Some ?rec) (?mcp (?lock h'))))"
    by (rule agree_weaken) (simp add: described_def)
  have flags: "described desc x \<Longrightarrow> AuthRequired x = dAuth desc" "described desc x \<Longrightarrow> SignRequired x = dSign desc" for x
    by (simp_all add: described_def)
  have polite: "courteous_check desc (oAuth opts)" "courteous_check desc (oSign opts)" "courteous_provider desc (oTrace opts)" "courteous_provider desc global"
    using opts by (simp_all add: courteous_options_def)
  have "guard_step (\<lambda>req x s. described desc x \<and> (dAuth desc \<longrightarrow> passed (oAuth opts) req))
     (\<lambda>req x s. described desc x \<and> (dAuth desc \<longrightarrow> passed (oAuth opts) req) \<and> (dSign desc \<longrightarrow> passed (oSign opts) req)) (SignWith k (oSign opts))"
    unfolding SignWith_def by (rule guard_checked [OF polite(2) flags(2)])
  note sign = guard_step.step [OF this]
  have "guard_step (\<lambda>req x s. described desc x \<and> True)
     (\<lambda>req x s. described desc x \<and> True \<and> (dAuth desc \<longrightarrow> passed (oAuth opts) req)) (AuthWith k (oAuth opts))"
    unfolding AuthWith_def by (rule guard_checked [OF polite(1) flags(1)])
  note auth = guard_step.step [OF this]
  note trace = guard_step.step [OF guard_trace [OF polite(3,4)]]
  have "agree (\<lambda>req c s. described desc c)
      (TraceWith global (oTrace opts) (AuthWith k (oAuth opts) (SignWith k (oSign opts) (UIDLockAttach (oUIDLocker opts) (Metrics k (Some ?rec) (?mcp (?lock h)))))))
      (TraceWith global (oTrace opts) (AuthWith k (oAuth opts) (SignWith k (oSign opts) (UIDLockAttach (oUIDLocker opts) (Metrics k (Some ?rec) (?mcp (?lock h')))))))"
    by (rule trace, rule agree_weaken [OF auth]) (rule agree_weaken [OF sign [OF attach]], auto)
  then show ?thesis unfolding shape
    by (intro guard_Recover.step guard_Logging.step) (simp add: guard_Admission.step)
qed


definition denying :: "unit DefaultMWOptions" where
  "denying = sample_opts\<lparr>oAuth := Some (\<lambda>req w. (Ok (Some (Plain ''who are you'')), w))\<rparr>"


text \<open>With the standard middlewares the wrapper of client packets answers as the one of server packets does: the
  branch in which they differ is never reached.\<close>

lemma WrapWS_as_WrapUnary:
  assumes "iTransport ic = ''sspack''"
  shows "WrapWS k d desc (DefaultMiddlewares k g opts) newReq parse invoke (Some ic) data w
    = WrapUnary k d desc (DefaultMiddlewares k g opts) newReq parse invoke (Some ic) data w"
proof -
  let ?h = "buildHandler k (prepareMW d (DefaultMiddlewares k g opts) (dUIDLock desc)) invoke"
  have n: "?h req u = (Ok (rsp, Some e), w1) \<Longrightarrow> rsp = None" for req u rsp e w1
    using default_no_reply unfolding no_reply_on_error_def by (metis fst_conv)
  show ?thesis using assms unfolding WrapWS_def WrapUnary_def Let_def transportForClientPacket_def
    by (auto split: option.splits any_value.splits prod.splits res.splits dest: n)
qed

text \<open>In shadow mode a rejected request is let through without being counted, and its end frees a place that
  another request holds.\<close>

lemma shadow_frees_foreign_place:
  assumes "OverloadMode (limits (adm w)) = ''shadow''" "n > 0" "inflight (adm w) = n" "methodInflight (adm w) = Map.empty"
  shows "inflight (adm (snd (AdmissionMiddleware True n Map.empty (\<lambda>req w. (Ok (None, None), w)) req w))) = n - 1"
  using assms by (simp add: AdmissionMiddleware_def TryAcquireInflight_def admitOrReject_def ReleaseInflight_def)

text \<open>A second lock of the same user in the options makes every such request wait for itself.\<close>

lemma double_lock_stuck:
  assumes "iUid (IC (ctx w)) \<noteq> 0" "stripe (the_locker d (ctx w)) (iUid (IC (ctx w))) \<notin> held w"
  shows "fst (Chain (prepareMW d [UIDLock d] True) h req w) = Stuck"
  using assms by (simp add: Chain_def prepareMW_def UIDLock_def with_stripe_def Let_def)

end
