(* ===== verification/Spec2Isabelle.thy ===== *)
theory Spec2Isabelle
  imports AppRun TcpFraming TransMgr RoomCenter RolePersist Routing Drops TimeWheel Xxtea SsrpcServer
begin

text \<open>
  A verification development for GoOne, a game server framework in Go (src/) with its services: the
  gateway \<open>connsvr\<close>, the main server \<open>mainsvr\<close>, the room centre \<open>roomcentersvr\<close> and smaller ones.

  How the program works. Every service is a \<open>runtime.App\<close> (src/lib/service/runtime): components are
  registered, started in order, and on a signal quiesced, drained and stopped in reverse order, while a
  state machine says which stage the process is in. Clients connect to the gateway over TCP, WebSocket
  or KCP; the stream is cut into packets with a 28-byte header, the session hub binds the uid of a packet
  to its connection, and the packet is sent on with an 86-byte header inside a 12-byte bus frame to the
  service its command names. There the transaction manager (src/lib/service/transaction) runs one
  transaction per serial key at a time. The main server keeps the role of each player in memory, marks
  what an operation changed, sends the changes to the client and saves them to Redis section by
  section. The room centre keeps tables of game rooms per stage, as a cache of Redis.

  The theories, from the bottom.

  \<^item> \<open>GoPrelude\<close>: Go's fixed-width integers on \<open>int\<close>, association lists, tables with totals, and the
    locales \<open>op_invariant\<close>, \<open>op_invariant_on\<close>, \<open>guarded_invariant\<close> and \<open>op_monotone\<close>, from whose
    interpretations every invariant over sequences of operations is obtained.
  \<^item> \<open>Lifecycle\<close>: state.go of the runtime, its observers and the lifecycle gauge. The order of states is
    never run backwards and the gauge is exact, whatever observers answer.
  \<^item> \<open>AppRun\<close>: component.go, tracker.go, registry.go, app.go, run.go, signal.go. Which calls a run makes,
    in which order, how it ends and that it returns.
  \<^item> \<open>Bytes\<close>, \<open>SsPacket\<close>: binary integers and the three headers (lib/api/sharedstruct,
    lib/service/bus/internal/wire), with the locale \<open>byte_codec\<close>. Round trips and short buffers.
  \<^item> \<open>TcpFraming\<close>: tcp_packet.go and the read loop. The packets depend on the bytes only.
  \<^item> \<open>BusAddr\<close>: bus ids (bus_ip.go) and socket addresses.
  \<^item> \<open>Gateway\<close>: session tracker, admission, session hub, session layers, packet handlers of the
    gateway. Counts are exact, a drain ends when clients use one uid per connection, requests in flight
    are bounded; and the errors found: foreign transports, a second uid on one connection, kicks.
  \<^item> \<open>TransMgr\<close>: transaction_mgr_impl.go with its configuration and waiting. Serialisation per key,
    bounds, routing of responses, order of requests, and the stranded queue.
  \<^item> \<open>SliceSort\<close>: \<open>sort.Slice\<close> as the locale \<open>slice_sort\<close>, and the parallel merge sort of
    lib/util/slices used by the room centre.
  \<^item> \<open>RoomCenter\<close>: tables, quick start, rollback, listing, saving and restoring of rooms.
  \<^item> \<open>RoleState\<close>, \<open>RoleSync\<close>, \<open>RolePersist\<close>: role.go, sync_state.go, persist_hash.go, role_mgr.go. The
    client is a copy of the role (a refinement with the client as specification), and so is Redis.
  \<^item> \<open>Inventory\<close>: item.go, icon.go, mall.go. Limits, exact amounts, and that every operation marks what it
    changed, so that the two refinements apply to it.

  \<^item> \<open>Routing\<close>: svr_inst_mgr.go, consistent_hash.go and router.go. The table of instances is the set that is
    online, processes that see the same set choose the same instance, a new instance takes keys only for itself, and a request
    and its answer reach the transactions they are meant for.
  \<^item> \<open>Drops\<close>: module/drop and role/drop.go. What a drop group may yield is an inductive typing of the
    configuration tables; weighted choices are exactly as likely as their weights say.
  \<^item> \<open>TimeWheel\<close>: lib/util/timer/timewheel.go. No timer fires early or more than a tick late, each fires once; and the
    removal that swallows a later timer.
  \<^item> \<open>Xxtea\<close>: lib/util/crypto/xxtea. Decryption inverts encryption.
  \<^item> \<open>Ssrpc\<close>, \<open>SsrpcServer\<close>: lib/service/ssrpc. The first has registry.go and dispatcher.go: what is registered is
    what every transport finds after sealing. The second has the path of a request: middlewares, their chain, WrapUnary and
    WrapWS. Contracts of middlewares are the locales \<open>middleware_contract\<close> and \<open>guard_step\<close>: what a request takes it gives back, a method is
    only called behind its checks and its lock, and a failed request gets no answer.

  Conventions. Definitions carry the names of the code. A component's state is a record, an operation
  a function from the state (and its arguments) to the next state and its result; fallible code
  returns an option or a sum; concurrent callers that a lock serialises are one list of operations in
  the order in which they take the lock. Where the code uses a third-party package, generated protocol
  code, the clock, a random source or the iteration order of a Go map, that is an argument of the
  definitions, and the theorems hold for all values of it, or name the documented behaviour they need.
  Machine integers are words where bits matter (headers, ids, flags) and otherwise \<open>int\<close> with the wrap
  written out (\<open>i32\<close>, \<open>u32\<close>, \<open>i64\<close>, \<open>u64\<close>). Counters of open connections and sessions are unbounded.

  Bounds and fuel. Loops are structural recursion, or \<open>function\<close> with a measure: the framing loop
  consumes at least a header per packet, the merge rounds halve the number of runs, number formatting
  divides by ten, a tick of the timing wheel recurses through the layers that are left, and nested drop groups
  have room for six levels, which is the bound of the code. Loops that may not end (the serving loop, the waits for a drained gateway) go through
  a list of what they see and return \<^const>\<open>None\<close> when it ends first, so that a statement about their
  result never holds by not returning.

  Not modelled: generated protocol code and generated configuration tables, the drivers of message
  buses, databases, registries and configuration sources (calls of third-party clients), sockets and
  the event loops below the connection tables, HTTP services and the HTTP and gRPC wrappers of the RPC layer, trace
  providers, logging and metrics output, activity tasks and mails, and the code generators under src/tools.
\<close>

end
